(* ===== verification/Prelude.thy ===== *)
theory Prelude
  imports Main "HOL-Library.Word"
begin

text \<open>
  The C machine the other theories run on: \<open>size_t\<close>, the faults a C statement can end
  in, a result type that carries them, and memory blocks.

  A block (one object of the program: an array, or what \<open>malloc\<close> returned) is the list of
  its cells; a cell is \<open>None\<close> while its byte is indeterminate and \<open>Some c\<close> once written.
  A non-null \<open>char *\<close> is the list of the cells from the place it points at to the end of
  its block, so every read past the end of an object, every read of an indeterminate
  byte, every use of a null pointer and every failed \<open>assert\<close> of the source is a value
  \<open>Inl e\<close> of the model and never an unspecified HOL term.

  The string functions of the C library that the sources call (\<open>strlen\<close>, \<open>memcpy\<close>,
  \<open>strcmp\<close>, \<open>strtok_r\<close>, \<open>malloc\<close>, \<open>realloc\<close>) are modelled here once.  \<open>malloc\<close> and \<open>realloc\<close>
  fail exactly on requests above \<open>PTRDIFF_MAX\<close>; running out of memory below that size is
  not modelled (the code answers it with a failing \<open>assert\<close>).
\<close>

section \<open>Collections of rewrite rules\<close>

named_theorems mem_simps \<open>reads and writes of memory blocks\<close>
named_theorems cstr_simps \<open>C strings laid out in memory\<close>

section \<open>Faults and results\<close>

datatype fault =
    NullDeref         \<comment> \<open>a null pointer is dereferenced\<close>
  | OutOfBounds       \<comment> \<open>an access outside the block\<close>
  | Uninitialised     \<comment> \<open>an indeterminate byte decides something\<close>
  | AssertFailed      \<comment> \<open>\<open>assert\<close> aborts the program\<close>
  | BadFormat         \<comment> \<open>a format string asks for an argument that was not passed\<close>
  | BadPointer        \<comment> \<open>a block that is not allocated (any more) is used or freed\<close>

type_synonym 'a c_result = "fault + 'a"

type_synonym size_t = "64 word"

fun c_bind :: "'a c_result \<Rightarrow> ('a \<Rightarrow> 'b c_result) \<Rightarrow> 'b c_result" where
  "c_bind (Inl e) f = Inl e"
| "c_bind (Inr x) f = f x"

definition c_assert :: "bool \<Rightarrow> unit c_result" where
  "c_assert b = (if b then Inr () else Inl AssertFailed)"

definition c_deref :: "'a option \<Rightarrow> 'a c_result" where
  "c_deref p = (case p of None \<Rightarrow> Inl NullDeref | Some x \<Rightarrow> Inr x)"

lemma c_assert_simps [simp]: "c_assert True = Inr ()" "c_assert False = Inl AssertFailed"
  by (simp_all add: c_assert_def)

lemma c_deref_simps [simp]: "c_deref (Some x) = Inr x" "c_deref None = Inl NullDeref"
  by (simp_all add: c_deref_def)

lemma c_bind_eq_Inr: "c_bind m f = Inr y \<longleftrightarrow> (\<exists>x. m = Inr x \<and> f x = Inr y)"
  by (cases m) auto

lemma c_bind_InrE:
  assumes "c_bind m f = Inr y"
  obtains x where "m = Inr x" "f x = Inr y"
  using assms by (auto simp: c_bind_eq_Inr)

lemma c_bind_eq_Inl: "c_bind m f = Inl e \<longleftrightarrow> m = Inl e \<or> (\<exists>x. m = Inr x \<and> f x = Inl e)"
  by (cases m) auto

lemma c_bind_assoc: "c_bind (c_bind m f) g = c_bind m (\<lambda>x. c_bind (f x) g)"
  by (cases m) auto

lemma c_bind_cong [fundef_cong]:
  "m = m' \<Longrightarrow> (\<And>x. m' = Inr x \<Longrightarrow> f x = f' x) \<Longrightarrow> c_bind m f = c_bind m' f'"
  by (cases m') auto

text \<open>A result that satisfies \<open>P\<close>, or a fault of the kind \<open>bad\<close> and no other.\<close>

fun c_guarded :: "(fault \<Rightarrow> bool) \<Rightarrow> ('a \<Rightarrow> bool) \<Rightarrow> 'a c_result \<Rightarrow> bool" where
  "c_guarded bad P (Inl e) \<longleftrightarrow> bad e"
| "c_guarded bad P (Inr x) \<longleftrightarrow> P x"

lemma c_guarded_bind:
  "c_guarded bad P m \<Longrightarrow> (\<And>x. P x \<Longrightarrow> c_guarded bad Q (f x)) \<Longrightarrow> c_guarded bad Q (c_bind m f)"
  by (cases m) auto

lemma c_guarded_mono: "c_guarded bad P m \<Longrightarrow> (\<And>x. P x \<Longrightarrow> Q x) \<Longrightarrow> c_guarded bad Q m"
  by (cases m) auto

lemma c_guarded_total: "c_guarded (\<lambda>_. False) P m \<longleftrightarrow> (\<exists>x. m = Inr x \<and> P x)"
  by (cases m) auto

lemma c_guardedE:
  assumes "c_guarded bad P m"
  obtains (fault) e where "m = Inl e" "bad e" | (result) x where "m = Inr x" "P x"
  using assms by (cases m) auto

text \<open>A loop over a list whose body may fault.\<close>

fun c_fold :: "('b \<Rightarrow> 'a \<Rightarrow> 'b c_result) \<Rightarrow> 'b \<Rightarrow> 'a list \<Rightarrow> 'b c_result" where
  "c_fold f b [] = Inr b"
| "c_fold f b (x # xs) = c_bind (f b x) (\<lambda>b'. c_fold f b' xs)"

lemma c_fold_append: "c_fold f b (xs @ ys) = c_bind (c_fold f b xs) (\<lambda>b'. c_fold f b' ys)"
  by (induction xs arbitrary: b) (simp_all add: c_bind_assoc)

section \<open>Memory blocks\<close>

type_synonym cell = "char option"
type_synonym block = "cell list"

abbreviation NUL :: char where "NUL \<equiv> CHR 0x00"
abbreviation NL :: char where "NL \<equiv> CHR 0x0A"

definition load_cell :: "block \<Rightarrow> nat \<Rightarrow> char c_result" where
  "load_cell blk i =
     (if i < length blk
      then (case blk ! i of None \<Rightarrow> Inl Uninitialised | Some c \<Rightarrow> Inr c)
      else Inl OutOfBounds)"

definition store_cell :: "block \<Rightarrow> nat \<Rightarrow> char \<Rightarrow> block c_result" where
  "store_cell blk i c = (if i < length blk then Inr (blk[i := Some c]) else Inl OutOfBounds)"

text \<open>\<open>memcpy (blk + i, src, n)\<close>: both ranges have to lie inside their blocks.\<close>

definition c_memcpy :: "block \<Rightarrow> nat \<Rightarrow> block \<Rightarrow> nat \<Rightarrow> block c_result" where
  "c_memcpy blk i src n =
     (if n \<le> length src \<and> i + n \<le> length blk
      then Inr (take i blk @ take n src @ drop (i + n) blk)
      else Inl OutOfBounds)"

text \<open>\<open>strlen\<close> and the characters it passes over.\<close>

fun c_string :: "block \<Rightarrow> string c_result" where
  "c_string [] = Inl OutOfBounds"
| "c_string (None # blk) = Inl Uninitialised"
| "c_string (Some c # blk) =
     (if c = NUL then Inr [] else c_bind (c_string blk) (\<lambda>s. Inr (c # s)))"

definition c_strlen :: "block \<Rightarrow> nat c_result" where
  "c_strlen blk = c_bind (c_string blk) (\<lambda>s. Inr (length s))"

text \<open>A string literal, as the array the compiler lays out.\<close>

definition cstr :: "string \<Rightarrow> block" where
  "cstr s = map Some s @ [Some NUL]"

definition PTRDIFF_MAX :: nat where "PTRDIFF_MAX = 2 ^ 63 - 1"

definition c_malloc :: "size_t \<Rightarrow> block option" where
  "c_malloc n = (if unat n \<le> PTRDIFF_MAX then Some (replicate (unat n) None) else None)"

definition c_realloc :: "block \<Rightarrow> size_t \<Rightarrow> block option" where
  "c_realloc blk n =
     (if unat n \<le> PTRDIFF_MAX
      then Some (take (unat n) blk @ replicate (unat n - length blk) None)
      else None)"

lemma load_cell_Some [mem_simps]: "i < length blk \<Longrightarrow> blk ! i = Some c \<Longrightarrow> load_cell blk i = Inr c"
  by (simp add: load_cell_def)

lemma store_cell_ok [mem_simps]: "i < length blk \<Longrightarrow> store_cell blk i c = Inr (blk[i := Some c])"
  by (simp add: store_cell_def)

lemma store_cell_at:
  "length pre = m \<Longrightarrow> store_cell (pre @ c # rest) m v = Inr (pre @ Some v # rest)"
  by (auto simp: store_cell_def list_update_append)

lemma c_memcpy_ok [mem_simps]:
  "n \<le> length src \<Longrightarrow> i + n \<le> length blk \<Longrightarrow>
     c_memcpy blk i src n = Inr (take i blk @ take n src @ drop (i + n) blk)"
  by (simp add: c_memcpy_def)

lemma length_cstr [simp]: "length (cstr s) = Suc (length s)"
  by (simp add: cstr_def)

lemma cstr_not_Nil [simp]: "cstr s \<noteq> []"
  by (simp add: cstr_def)

lemma take_cstr [cstr_simps]: "take (Suc (length s)) (cstr s @ r) = cstr s"
  by (simp add: cstr_def)

lemma c_string_app:
  "NUL \<notin> set s \<Longrightarrow> c_string (map Some s @ blk) = c_bind (c_string blk) (\<lambda>t. Inr (s @ t))"
proof (induction s)
  case Nil
  then show ?case by (cases "c_string blk") auto
next
  case (Cons c s)
  then show ?case by (cases "c_string blk") auto
qed

lemma c_string_cstr [cstr_simps]: "NUL \<notin> set s \<Longrightarrow> c_string (cstr s @ r) = Inr s"
  by (simp add: cstr_def c_string_app)

lemma c_string_cstr0 [cstr_simps]: "NUL \<notin> set s \<Longrightarrow> c_string (cstr s) = Inr s"
  using c_string_cstr [of s "[]"] by simp

lemma c_strlen_cstr [cstr_simps]: "NUL \<notin> set s \<Longrightarrow> c_strlen (cstr s @ r) = Inr (length s)"
  by (simp add: c_strlen_def cstr_simps)

text \<open>Everything \<open>c_string\<close> accepts has the shape of a terminated string.\<close>

lemma c_string_InrD:
  "c_string blk = Inr s \<Longrightarrow> NUL \<notin> set s \<and> (\<exists>r. blk = cstr s @ r)"
proof (induction blk arbitrary: s rule: c_string.induct)
  case (3 c blk)
  show ?case
  proof (cases "c = NUL")
    case True
    with 3 show ?thesis by (auto simp: cstr_def)
  next
    case False
    with "3.prems" obtain t where t: "c_string blk = Inr t" "s = c # t"
      by (auto simp: c_bind_eq_Inr)
    with "3.IH" [OF False t(1)] False show ?thesis by (auto simp: cstr_def)
  qed
qed simp_all

text \<open>The C string at the start of initialised bytes: what stands before the first NUL.\<close>

abbreviation until_nul :: "string \<Rightarrow> string" where
  "until_nul s \<equiv> takeWhile (\<lambda>c. c \<noteq> NUL) s"

lemma until_nul_no_nul: "NUL \<notin> set (until_nul s)"
  by (induction s) auto

lemma until_nul_id [simp]: "NUL \<notin> set s \<Longrightarrow> until_nul s = s"
  by (induction s) auto

lemma cstr_split: "\<exists>r. map Some s @ Some NUL # t = cstr (until_nul s) @ r"
proof (induction s)
  case Nil
  then show ?case by (simp add: cstr_def)
next
  case (Cons c s)
  then show ?case by (auto simp: cstr_def)
qed

lemma c_string_until_nul [cstr_simps]: "c_string (map Some s @ Some NUL # t) = Inr (until_nul s)"
  by (induction s) auto

section \<open>\<open>strcmp\<close> and \<open>strtok_r\<close>\<close>

definition c_streq :: "block \<Rightarrow> block \<Rightarrow> bool c_result" where
  "c_streq a b = c_bind (c_string a) (\<lambda>s. c_bind (c_string b) (\<lambda>t. Inr (s = t)))"

text \<open>
  \<open>strtok_r\<close> on the characters from the saved position up to the terminator: skip
  delimiters; at the end of the string there is no token; otherwise the token runs to the
  next delimiter (overwritten by NUL, the saved position is the one after it) or to the
  end of the string (the saved position is the terminator).
\<close>

definition c_strtok_r :: "char list \<Rightarrow> string \<Rightarrow> (string option \<times> string)" where
  "c_strtok_r delims s =
     (let u = dropWhile (\<lambda>c. c \<in> set delims) s;
          tok = takeWhile (\<lambda>c. c \<notin> set delims) u
      in if u = [] then (None, []) else (Some tok, drop (Suc (length tok)) u))"

lemma c_strtok_r_token:
  assumes "t \<noteq> []" and "set t \<inter> set delims = {}" and "d \<in> set delims"
  shows "c_strtok_r delims (t @ d # r) = (Some t, r)"
proof -
  have "dropWhile (\<lambda>c. c \<in> set delims) (t @ d # r) = t @ d # r"
    using assms(1,2) by (cases t) auto
  moreover have "takeWhile (\<lambda>c. c \<notin> set delims) (t @ d # r) = t"
    using assms(2,3) by (induction t) auto
  ultimately show ?thesis using assms(1) by (simp add: c_strtok_r_def Let_def)
qed

lemma c_strtok_r_last:
  assumes "t \<noteq> []" and "set t \<inter> set delims = {}"
  shows "c_strtok_r delims t = (Some t, [])"
proof -
  have dw: "dropWhile (\<lambda>c. c \<in> set delims) t = t"
    using assms by (cases t) auto
  have tw: "takeWhile (\<lambda>c. c \<notin> set delims) t = t"
    using assms(2) by (induction t) auto
  show ?thesis using assms(1) by (simp add: c_strtok_r_def Let_def dw tw)
qed

lemma c_strtok_r_rest_shorter:
  "c_strtok_r delims s = (Some t, r) \<Longrightarrow> length r < length s"
proof -
  assume a: "c_strtok_r delims s = (Some t, r)"
  let ?u = "dropWhile (\<lambda>c. c \<in> set delims) s"
  from a have "?u \<noteq> []" and "r = drop (Suc (length t)) ?u"
    by (auto simp: c_strtok_r_def Let_def split: if_splits)
  moreover have "length ?u \<le> length s" by (simp add: length_dropWhile_le)
  ultimately show ?thesis by (cases ?u) auto
qed

section \<open>Lists\<close>

lemma drop_list_update_same: "drop i (xs[i := x]) = (if i < length xs then x # drop (Suc i) xs else [])"
  by (simp add: drop_update_swap Cons_nth_drop_Suc [symmetric])

lemma takeWhile_all_append: "\<forall>x\<in>set xs. P x \<Longrightarrow> takeWhile P (xs @ ys) = xs @ takeWhile P ys"
  by (simp add: takeWhile_append)

end
