(* ===== verification/Buffer.thy ===== *)
theory Buffer
  imports Prelude
begin

text \<open>
  The growable string buffer of \<open>src/core/webcontrol_buffer.c\<close>: the \<open>buffer\<close> struct, every
  operation on it with its null checks and return codes, and the invariant \<open>buf_repr\<close>
  that ties the block behind \<open>ptr\<close> to the text it stands for.  \<open>len\<close> counts the
  terminating NUL, 0 means that no string was stored yet.  \<open>size_t\<close> arithmetic is kept
  at 64 bits, so the sums that choose a new capacity can wrap; the lemmas carry the
  bound under which they do not.

  The text functions at the end of the C file are in the theory \<open>Text_Utils\<close>.
\<close>

section \<open>The buffer struct\<close>

record buffer =
  buf_ptr :: "block option"
  buf_len :: size_t
  buf_capacity :: size_t

definition BUFFER_PIECE_SIZE :: size_t where "BUFFER_PIECE_SIZE = 64"
definition BUFFER_MAX_REUSE_SIZE :: size_t where "BUFFER_MAX_REUSE_SIZE = 256"

definition buffer_init :: buffer where
  "buffer_init = \<lparr>buf_ptr = None, buf_len = 0, buf_capacity = 0\<rparr>"

text \<open>``always allocate a multiply of \<open>BUFFER_PIECE_SIZE\<close>'': strictly more than asked for.\<close>

definition piece_round :: "size_t \<Rightarrow> size_t" where
  "piece_round n = n + (BUFFER_PIECE_SIZE - n mod BUFFER_PIECE_SIZE)"

text \<open>\<open>p = malloc (\<dots>); assert (p);\<close>\<close>

definition assert_ptr :: "block option \<Rightarrow> block c_result" where
  "assert_ptr p = (case p of None \<Rightarrow> Inl AssertFailed | Some blk \<Rightarrow> Inr blk)"

section \<open>Operations\<close>

definition buffer_prepare_copy :: "buffer option \<Rightarrow> size_t \<Rightarrow> (int \<times> buffer option) c_result" where
  "buffer_prepare_copy bo sz =
     (case bo of
        None \<Rightarrow> Inr (-1, None)
      | Some b \<Rightarrow>
          c_bind
            (if buf_capacity b = 0 \<or> sz > buf_capacity b
             then (let cap = piece_round sz
                   in c_bind (assert_ptr (c_malloc cap))
                        (\<lambda>blk. Inr (b\<lparr>buf_ptr := Some blk, buf_capacity := cap\<rparr>)))
             else Inr b)
            (\<lambda>b'. Inr (0, Some (b'\<lparr>buf_len := 0\<rparr>))))"

definition buffer_copy_string :: "buffer option \<Rightarrow> block option \<Rightarrow> (int \<times> buffer option) c_result" where
  "buffer_copy_string bo so =
     (case (so, bo) of
        (Some s, Some b) \<Rightarrow>
          c_bind (c_strlen s) (\<lambda>n.
          let s_len = of_nat n + 1 in
          c_bind (buffer_prepare_copy (Some b) s_len) (\<lambda>(_, bo').
          c_bind (c_deref bo') (\<lambda>b'.
          c_bind (c_deref (buf_ptr b')) (\<lambda>blk.
          c_bind (c_memcpy blk 0 s (unat s_len)) (\<lambda>blk'.
          Inr (0, Some (b'\<lparr>buf_ptr := Some blk', buf_len := s_len\<rparr>)))))))
      | _ \<Rightarrow> Inr (-1, bo))"

definition buffer_copy_string_len ::
  "buffer option \<Rightarrow> block option \<Rightarrow> size_t \<Rightarrow> (int \<times> buffer option) c_result" where
  "buffer_copy_string_len bo so s_len =
     (case (so, bo) of
        (Some s, Some b) \<Rightarrow>
          c_bind (buffer_prepare_copy (Some b) (s_len + 1)) (\<lambda>(_, bo').
          c_bind (c_deref bo') (\<lambda>b'.
          c_bind (c_deref (buf_ptr b')) (\<lambda>blk.
          c_bind (c_memcpy blk 0 s (unat s_len)) (\<lambda>blk'.
          c_bind (store_cell blk' (unat s_len) NUL) (\<lambda>blk''.
          Inr (0, Some (b'\<lparr>buf_ptr := Some blk'', buf_len := s_len + 1\<rparr>)))))))
      | _ \<Rightarrow> Inr (-1, bo))"

definition buffer_reset :: "buffer option \<Rightarrow> buffer option c_result" where
  "buffer_reset bo =
     (case bo of
        None \<Rightarrow> Inr None
      | Some b \<Rightarrow>
          c_bind
            (if buf_capacity b > BUFFER_MAX_REUSE_SIZE
             then Inr (b\<lparr>buf_ptr := None, buf_capacity := 0\<rparr>)
             else if buf_capacity b \<noteq> 0
             then c_bind (c_deref (buf_ptr b)) (\<lambda>blk.
                  c_bind (store_cell blk 0 NUL) (\<lambda>blk'. Inr (b\<lparr>buf_ptr := Some blk'\<rparr>)))
             else Inr b)
            (\<lambda>b'. Inr (Some (b'\<lparr>buf_len := 0\<rparr>))))"

definition buffer_copy_string_buffer ::
  "buffer option \<Rightarrow> buffer option \<Rightarrow> (int \<times> buffer option) c_result" where
  "buffer_copy_string_buffer bo srco =
     (case srco of
        None \<Rightarrow> Inr (-1, bo)
      | Some src \<Rightarrow>
          if buf_len src = 0 then c_bind (buffer_reset bo) (\<lambda>bo'. Inr (0, bo'))
          else buffer_copy_string_len bo (buf_ptr src) (buf_len src - 1))"

definition buffer_prepare_append :: "buffer option \<Rightarrow> size_t \<Rightarrow> (int \<times> buffer option) c_result" where
  "buffer_prepare_append bo sz =
     (case bo of
        None \<Rightarrow> Inr (-1, None)
      | Some b \<Rightarrow>
          if buf_capacity b = 0
          then (let cap = piece_round sz
                in c_bind (assert_ptr (c_malloc cap))
                     (\<lambda>blk. Inr (0, Some (b\<lparr>buf_ptr := Some blk, buf_len := 0, buf_capacity := cap\<rparr>))))
          else if buf_len b + sz > buf_capacity b
          then (let cap = piece_round (buf_capacity b + sz);
                    old = (case buf_ptr b of None \<Rightarrow> [] | Some blk \<Rightarrow> blk)
                in c_bind (assert_ptr (c_realloc old cap))
                     (\<lambda>blk. Inr (0, Some (b\<lparr>buf_ptr := Some blk, buf_capacity := cap\<rparr>))))
          else Inr (0, Some b))"

definition buffer_append_string :: "buffer option \<Rightarrow> block option \<Rightarrow> (int \<times> buffer option) c_result" where
  "buffer_append_string bo so =
     (case (so, bo) of
        (Some s, Some b) \<Rightarrow>
          c_bind (c_strlen s) (\<lambda>n.
          let s_len = of_nat n :: size_t in
          c_bind (buffer_prepare_append (Some b) (s_len + 1)) (\<lambda>(_, bo').
          c_bind (c_deref bo') (\<lambda>b1.
          let l = (if buf_len b1 = 0 then buf_len b1 + 1 else buf_len b1) in
          c_bind (c_deref (buf_ptr b1)) (\<lambda>blk.
          c_bind (c_memcpy blk (unat (l - 1)) s (unat (s_len + 1))) (\<lambda>blk'.
          Inr (0, Some (b1\<lparr>buf_ptr := Some blk', buf_len := l + s_len\<rparr>)))))))
      | _ \<Rightarrow> Inr (-1, bo))"

definition buffer_append_string_len ::
  "buffer option \<Rightarrow> block option \<Rightarrow> size_t \<Rightarrow> (int \<times> buffer option) c_result" where
  "buffer_append_string_len bo so s_len =
     (case (so, bo) of
        (Some s, Some b) \<Rightarrow>
          if s_len = 0 then Inr (0, Some b)
          else
          c_bind (buffer_prepare_append (Some b) (s_len + 1)) (\<lambda>(_, bo').
          c_bind (c_deref bo') (\<lambda>b1.
          let l = (if buf_len b1 = 0 then buf_len b1 + 1 else buf_len b1) in
          c_bind (c_deref (buf_ptr b1)) (\<lambda>blk.
          c_bind (c_memcpy blk (unat (l - 1)) s (unat s_len)) (\<lambda>blk'.
          c_bind (store_cell blk' (unat (l + s_len - 1)) NUL) (\<lambda>blk''.
          Inr (0, Some (b1\<lparr>buf_ptr := Some blk'', buf_len := l + s_len\<rparr>)))))))
      | _ \<Rightarrow> Inr (-1, bo))"

text \<open>The constructors ignore the return code of the copy they end in.\<close>

definition buffer_init_string :: "block option \<Rightarrow> buffer c_result" where
  "buffer_init_string str =
     c_bind (buffer_copy_string (Some buffer_init) str) (\<lambda>(_, bo). c_deref bo)"

definition buffer_init_string_len :: "block option \<Rightarrow> size_t \<Rightarrow> buffer c_result" where
  "buffer_init_string_len str n =
     c_bind (buffer_copy_string_len (Some buffer_init) str n) (\<lambda>(_, bo). c_deref bo)"

definition buffer_init_buffer :: "buffer option \<Rightarrow> buffer c_result" where
  "buffer_init_buffer src =
     c_bind (buffer_copy_string_buffer (Some buffer_init) src) (\<lambda>(_, bo). c_deref bo)"

section \<open>Invariant and abstraction\<close>

text \<open>\<open>buf_repr b s\<close>: the struct is well formed and its text is \<open>s\<close>.\<close>

definition buf_repr :: "buffer \<Rightarrow> string \<Rightarrow> bool" where
  "buf_repr b s \<longleftrightarrow>
     (case buf_ptr b of
        None \<Rightarrow> buf_capacity b = 0 \<and> buf_len b = 0 \<and> s = []
      | Some blk \<Rightarrow>
          buf_capacity b \<noteq> 0 \<and> length blk = unat (buf_capacity b) \<and>
          (if buf_len b = 0 then s = []
           else unat (buf_len b) = Suc (length s) \<and> take (Suc (length s)) blk = cstr s))"

definition buf_text :: "buffer \<Rightarrow> string" where
  "buf_text b =
     (case buf_ptr b of
        None \<Rightarrow> []
      | Some blk \<Rightarrow> if buf_len b = 0 then [] else map the (take (unat (buf_len b) - 1) blk))"

text \<open>
  Well formed and with a capacity at most twice what the text needs: what a buffer that
  was only appended to and reset satisfies.
\<close>

definition buf_holds :: "buffer \<Rightarrow> string \<Rightarrow> bool" where
  "buf_holds b s \<longleftrightarrow> buf_repr b s \<and> unat (buf_capacity b) \<le> 2 * length s + 256"

text \<open>The same with the terminator written, even for the empty text: \<open>ptr\<close> is a C string.\<close>

definition buf_cstr :: "buffer \<Rightarrow> string \<Rightarrow> bool" where
  "buf_cstr b s \<longleftrightarrow> buf_holds b s \<and> buf_len b \<noteq> 0"

text \<open>The size below which no sum of the module wraps and no allocation is refused.\<close>

definition TEXT_LIMIT :: nat where "TEXT_LIMIT = 2 ^ 60"

lemma take_cstr_eq_map: "take (Suc (length s)) blk = cstr s \<Longrightarrow> take (length s) blk = map Some s"
proof -
  assume "take (Suc (length s)) blk = cstr s"
  then have "take (length s) (take (Suc (length s)) blk) = take (length s) (cstr s)" by simp
  then show ?thesis by (simp add: cstr_def)
qed

lemma map_the_Some [simp]: "map the (map Some s) = s"
  by (induction s) auto

lemma buf_repr_text: "buf_repr b s \<Longrightarrow> buf_text b = s"
  by (auto simp: buf_repr_def buf_text_def take_cstr_eq_map split: option.splits if_splits
      simp del: map_map)

lemma buf_cstrD:
  assumes "buf_cstr b s"
  shows "buf_holds b s" and "buf_repr b s"
  using assms by (simp_all add: buf_cstr_def buf_holds_def)

lemma buf_repr_init [simp]: "buf_repr buffer_init []"
  by (simp add: buf_repr_def buffer_init_def)

lemma buf_holds_init [simp]: "buf_holds buffer_init []"
  by (simp add: buf_holds_def) (simp add: buffer_init_def)

lemma buf_reprE:
  assumes "buf_repr b s" "buf_len b \<noteq> 0"
  obtains blk where "buf_ptr b = Some blk" "length blk = unat (buf_capacity b)"
    "unat (buf_len b) = Suc (length s)" "take (Suc (length s)) blk = cstr s"
    "Suc (length s) \<le> length blk"
proof -
  from assms obtain blk where blk: "buf_ptr b = Some blk" "length blk = unat (buf_capacity b)"
    "unat (buf_len b) = Suc (length s)" "take (Suc (length s)) blk = cstr s"
    by (auto simp: buf_repr_def split: option.splits)
  have "length (take (Suc (length s)) blk) = Suc (length s)"
    using blk(4) by simp
  then have "Suc (length s) \<le> length blk" by simp
  with blk that show ?thesis by blast
qed

lemma buf_cstr_string:
  assumes "buf_cstr b s"
  obtains blk where "buf_ptr b = Some blk" "c_string blk = Inr (until_nul s)"
proof -
  from assms obtain blk where blk: "buf_ptr b = Some blk" "take (Suc (length s)) blk = cstr s"
    by (auto simp: buf_cstr_def buf_holds_def elim: buf_reprE)
  have "blk = map Some s @ Some NUL # drop (Suc (length s)) blk"
    using append_take_drop_id [of "Suc (length s)" blk] blk(2) by (simp add: cstr_def)
  then have "c_string blk = Inr (until_nul s)"
    using c_string_until_nul by metis
  then show ?thesis by (rule that [OF blk(1)])
qed

section \<open>Choosing a capacity\<close>

lemma unat_piece_round:
  assumes "unat n + 64 < 2 ^ 64"
  shows "unat (piece_round n) = unat n + (64 - unat n mod 64)"
proof -
  have m: "unat (n mod 64) = unat n mod 64"
    by (simp add: unat_mod_distrib)
  have "n mod 64 \<le> 64"
    by (simp add: word_le_nat_alt m)
  then have d: "unat (64 - n mod 64) = 64 - unat n mod 64"
    by (simp add: unat_sub m)
  then have "unat n + unat (64 - n mod 64) < 2 ^ LENGTH(64)"
    using assms by simp
  then show ?thesis
    by (simp add: piece_round_def BUFFER_PIECE_SIZE_def unat_add_lem [THEN iffD1] d)
qed

lemma piece_round_bounds:
  assumes "unat n + 64 < 2 ^ 64"
  shows "unat n < unat (piece_round n)" "unat (piece_round n) \<le> unat n + 64"
    "64 dvd unat (piece_round n)" "piece_round n \<noteq> 0"
proof -
  have "unat n + (64 - unat n mod 64) = 64 * (unat n div 64 + 1)"
    using div_mult_mod_eq [of "unat n" 64] mod_less_divisor [of 64 "unat n"] by arith
  then show "64 dvd unat (piece_round n)"
    using unat_piece_round [OF assms] by (metis dvd_triv_left)
  show "unat n < unat (piece_round n)" "unat (piece_round n) \<le> unat n + 64"
    using unat_piece_round [OF assms] mod_less_divisor [of 64 "unat n"] by simp_all
  then show "piece_round n \<noteq> 0" by auto
qed

lemma c_malloc_ok:
  "unat n \<le> PTRDIFF_MAX \<Longrightarrow> assert_ptr (c_malloc n) = Inr (replicate (unat n) None)"
  by (simp add: c_malloc_def assert_ptr_def)

lemma c_realloc_ok:
  "unat n \<le> PTRDIFF_MAX \<Longrightarrow> length blk \<le> unat n \<Longrightarrow>
     assert_ptr (c_realloc blk n) = Inr (blk @ replicate (unat n - length blk) None)"
  by (simp add: c_realloc_def assert_ptr_def)

lemma unat_add_small:
  "unat (a :: size_t) + unat b < 2 ^ 64 \<Longrightarrow> unat (a + b) = unat a + unat b"
  using unat_add_lem [of a b] by simp

lemma unat_of_nat_small: "n < 2 ^ 64 \<Longrightarrow> unat (of_nat n :: size_t) = n"
  by (simp add: unat_of_nat)

lemma unat_Suc_small: "n + 1 < 2 ^ 64 \<Longrightarrow> unat (of_nat n + 1 :: size_t) = Suc n"
  using unat_of_nat_small [of "n + 1"] by (simp add: add.commute)

section \<open>Preparing a copy or an append\<close>

lemma buffer_prepare_copy_ok:
  assumes r: "buf_repr b t" and n: "unat n \<le> TEXT_LIMIT + 1"
  shows "\<exists>b' blk. buffer_prepare_copy (Some b) n = Inr (0, Some b') \<and> buf_len b' = 0
    \<and> buf_ptr b' = Some blk \<and> length blk = unat (buf_capacity b') \<and> unat n \<le> length blk
    \<and> buf_capacity b' \<noteq> 0
    \<and> unat (buf_capacity b') \<le> max (unat (buf_capacity b)) (unat n + 64)"
proof (cases "buf_capacity b = 0 \<or> n > buf_capacity b")
  case True
  have small: "unat n + 64 < 2 ^ 64" using n by (simp add: TEXT_LIMIT_def)
  have cap: "unat (piece_round n) \<le> PTRDIFF_MAX"
    using piece_round_bounds(2) [OF small] n by (simp add: TEXT_LIMIT_def PTRDIFF_MAX_def)
  show ?thesis
    using True piece_round_bounds [OF small]
    by (auto simp: buffer_prepare_copy_def Let_def c_malloc_ok [OF cap] max_def)
next
  case False
  then have "n \<le> buf_capacity b" by (simp add: not_less)
  then have "unat n \<le> unat (buf_capacity b)" by (simp add: word_le_nat_alt)
  with False r show ?thesis
    by (auto simp: buffer_prepare_copy_def buf_repr_def split: option.splits)
qed

text \<open>The block is too small: \<open>realloc\<close> keeps the text.\<close>

lemma grow_repr:
  assumes r: "buf_repr b t" and blk: "buf_ptr b = Some blk" "length blk = unat (buf_capacity b)"
    and small: "unat (buf_capacity b) + unat n + 64 < 2 ^ 63"
  defines "cap \<equiv> piece_round (buf_capacity b + n)"
  shows "assert_ptr (c_realloc blk cap) = Inr (blk @ replicate (unat cap - length blk) None)"
    "buf_repr (b\<lparr>buf_ptr := Some (blk @ replicate (unat cap - length blk) None), buf_capacity := cap\<rparr>) t"
    "unat (buf_capacity b) + unat n \<le> unat cap" "unat cap \<le> unat (buf_capacity b) + unat n + 64" "cap \<noteq> 0"
proof -
  have c: "unat (buf_capacity b + n) = unat (buf_capacity b) + unat n"
    using small by (intro unat_add_small) simp
  have "unat (buf_capacity b + n) + 64 < 2 ^ 64" using small by (simp add: c)
  note bounds = piece_round_bounds [OF this, unfolded c, folded cap_def]
  have lim: "unat cap \<le> PTRDIFF_MAX" using bounds(2) small by (simp add: PTRDIFF_MAX_def)
  have old: "length blk \<le> unat cap" using blk(2) bounds(1) by simp
  have lc: "unat (buf_len b) \<le> unat (buf_capacity b)"
    using r blk by (cases "buf_len b = 0") (auto elim: buf_reprE)
  show "assert_ptr (c_realloc blk cap) = Inr (blk @ replicate (unat cap - length blk) None)" by (rule c_realloc_ok [OF lim old])
  show "buf_repr (b\<lparr>buf_ptr := Some (blk @ replicate (unat cap - length blk) None), buf_capacity := cap\<rparr>) t"
    using r blk old bounds(4) lc by (auto simp: buf_repr_def split: if_splits)
  show "unat (buf_capacity b) + unat n \<le> unat cap" "unat cap \<le> unat (buf_capacity b) + unat n + 64" "cap \<noteq> 0"
    using bounds by auto
qed

lemma buffer_prepare_append_ok:
  assumes r: "buf_repr b t" and n: "unat n \<noteq> 0"
    and fit: "length t + 2 * unat n + unat (buf_capacity b) \<le> 8 * TEXT_LIMIT - 128"
  shows "\<exists>b' blk. buffer_prepare_append (Some b) n = Inr (0, Some b') \<and> buf_repr b' t
    \<and> buf_len b' = buf_len b
    \<and> buf_ptr b' = Some blk \<and> length blk = unat (buf_capacity b') \<and> buf_capacity b' \<noteq> 0
    \<and> length t + unat n \<le> length blk
    \<and> unat (buf_capacity b') \<le> max (unat (buf_capacity b)) (length t + 2 * unat n + 65)"
proof (cases "buf_capacity b = 0")
  case True
  have e: "t = []" "buf_len b = 0"
    using True r by (auto simp: buf_repr_def split: option.splits)
  have small: "unat n + 64 < 2 ^ 64" using fit by (simp add: TEXT_LIMIT_def)
  have cap: "unat (piece_round n) \<le> PTRDIFF_MAX"
    using piece_round_bounds(2) [OF small] fit by (simp add: TEXT_LIMIT_def PTRDIFF_MAX_def)
  show ?thesis
    using True e piece_round_bounds [OF small]
    by (auto simp: buffer_prepare_append_def Let_def c_malloc_ok [OF cap] buf_repr_def max_def)
next
  case False
  then obtain blk where blk: "buf_ptr b = Some blk" "length blk = unat (buf_capacity b)"
    using r by (auto simp: buf_repr_def split: option.splits)
  have l: "unat (buf_len b) \<le> Suc (length t)" and l0: "length t \<le> unat (buf_len b)"
    using r blk by (auto simp: buf_repr_def split: if_splits)
  have s: "unat (buf_len b + n) = unat (buf_len b) + unat n"
    using fit l by (intro unat_add_small) (simp add: TEXT_LIMIT_def)
  show ?thesis
  proof (cases "buf_len b + n > buf_capacity b")
    case True
    then have lt: "unat (buf_capacity b) < unat (buf_len b) + unat n" by (simp add: word_less_nat_alt s)
    have "unat (buf_capacity b) + unat n + 64 < 2 ^ 63" using fit by (simp add: TEXT_LIMIT_def)
    note grow = grow_repr [OF r blk this]
    have lc: "unat (buf_len b) \<le> unat (buf_capacity b)"
      using r blk by (cases "buf_len b = 0") (auto elim: buf_reprE)
    show ?thesis
      using False True blk lt l l0 lc grow(2-5)
      by (auto simp: buffer_prepare_append_def Let_def grow(1))
  next
    case noreal: False
    then have "unat (buf_len b) + unat n \<le> unat (buf_capacity b)"
      by (simp add: word_less_nat_alt s)
    with False noreal r blk l0 show ?thesis
      by (auto simp: buffer_prepare_append_def)
  qed
qed

section \<open>Copying\<close>

lemma store_terminator:
  "length blk = m \<Longrightarrow> length s < m \<Longrightarrow> take (length s) blk = map Some s \<Longrightarrow>
     take (Suc (length s)) (blk[length s := Some NUL]) = cstr s"
  by (simp add: take_Suc_conv_app_nth cstr_def)

lemma buffer_copy_string_ok:
  assumes r: "buf_repr b t" and s: "NUL \<notin> set s" and n: "length s \<le> TEXT_LIMIT"
  shows "\<exists>b'. buffer_copy_string (Some b) (Some (cstr s @ rest)) = Inr (0, Some b')
    \<and> buf_repr b' s \<and> buf_len b' \<noteq> 0 \<and> unat (buf_capacity b') \<le> max (unat (buf_capacity b)) (length s + 65)"
proof -
  have sl: "unat (of_nat (length s) + 1 :: size_t) = Suc (length s)"
    using n by (intro unat_Suc_small) (simp add: TEXT_LIMIT_def)
  then have "unat (of_nat (length s) + 1 :: size_t) \<le> TEXT_LIMIT + 1"
    using n by simp
  from buffer_prepare_copy_ok [OF r this] obtain b' blk where
    b': "buffer_prepare_copy (Some b) (of_nat (length s) + 1) = Inr (0, Some b')"
      "buf_ptr b' = Some blk" "length blk = unat (buf_capacity b')" "Suc (length s) \<le> length blk"
      "buf_capacity b' \<noteq> 0"
      "unat (buf_capacity b') \<le> max (unat (buf_capacity b)) (length s + 65)"
    by (auto simp: sl)
  moreover have "of_nat (length s) + (1 :: size_t) \<noteq> 0"
    using sl by auto
  ultimately show ?thesis
    by (simp add: buffer_copy_string_def cstr_simps s sl mem_simps Let_def buf_repr_def)
qed

lemma buffer_copy_string_len_ok:
  assumes r: "buf_repr b t" and n: "length s \<le> TEXT_LIMIT"
  shows "\<exists>b'. buffer_copy_string_len (Some b) (Some (map Some s @ rest)) (of_nat (length s))
      = Inr (0, Some b')
    \<and> buf_repr b' s \<and> unat (buf_capacity b') \<le> max (unat (buf_capacity b)) (length s + 65)"
proof -
  have sl: "unat (of_nat (length s) + 1 :: size_t) = Suc (length s)"
    using n by (intro unat_Suc_small) (simp add: TEXT_LIMIT_def)
  have sl0: "unat (of_nat (length s) :: size_t) = length s"
    using n by (intro unat_of_nat_small) (simp add: TEXT_LIMIT_def)
  from sl have "unat (of_nat (length s) + 1 :: size_t) \<le> TEXT_LIMIT + 1"
    using n by simp
  from buffer_prepare_copy_ok [OF r this] obtain b' blk where
    b': "buffer_prepare_copy (Some b) (of_nat (length s) + 1) = Inr (0, Some b')"
      "buf_ptr b' = Some blk" "length blk = unat (buf_capacity b')" "Suc (length s) \<le> length blk"
      "buf_capacity b' \<noteq> 0"
      "unat (buf_capacity b') \<le> max (unat (buf_capacity b)) (length s + 65)"
    by (auto simp: sl)
  let ?blk = "map Some s @ drop (length s) blk"
  have m: "c_memcpy blk 0 (map Some s @ rest) (length s) = Inr ?blk"
    using b'(4) by (simp add: mem_simps)
  have "length ?blk = length blk" using b'(4) by simp
  moreover have "take (Suc (length s)) (?blk[length s := Some NUL]) = cstr s"
    using b'(4) by (intro store_terminator) auto
  moreover have "of_nat (length s) + (1 :: size_t) \<noteq> 0"
    using sl by auto
  ultimately show ?thesis using b'
    by (simp add: buffer_copy_string_len_def m sl sl0 mem_simps buf_repr_def)
qed

lemma buffer_reset_small:
  assumes "buf_repr b t" and "\<not> buf_capacity b > 256"
  shows "\<exists>b'. buffer_reset (Some b) = Inr (Some b') \<and> buf_repr b' []
    \<and> buf_capacity b' = buf_capacity b"
proof (cases "buf_ptr b")
  case None
  with assms show ?thesis
    by (auto simp: buffer_reset_def BUFFER_MAX_REUSE_SIZE_def buf_repr_def)
next
  case (Some blk)
  with assms(1) have "length blk = unat (buf_capacity b)" "buf_capacity b \<noteq> 0"
    by (auto simp: buf_repr_def)
  moreover from this have "blk \<noteq> []" by (auto simp: unat_eq_zero)
  ultimately show ?thesis using Some assms(2)
    by (simp add: buffer_reset_def BUFFER_MAX_REUSE_SIZE_def buf_repr_def store_cell_def)
qed

lemma buffer_reset_ok:
  assumes r: "buf_repr b t"
  shows "\<exists>b'. buffer_reset (Some b) = Inr (Some b') \<and> buf_holds b' []"
proof (cases "buf_capacity b > 256")
  case True
  then show ?thesis
    by (auto simp: buffer_reset_def BUFFER_MAX_REUSE_SIZE_def buf_holds_def buf_repr_def)
next
  case False
  then have "unat (buf_capacity b) \<le> 256"
    by (simp add: word_less_nat_alt)
  with buffer_reset_small [OF r False] show ?thesis
    by (auto simp: buf_holds_def)
qed

lemma buffer_init_string_ok:
  assumes "NUL \<notin> set s" "length s \<le> TEXT_LIMIT"
  shows "\<exists>b'. buffer_init_string (Some (cstr s @ rest)) = Inr b' \<and> buf_cstr b' s"
  using buffer_copy_string_ok [OF buf_repr_init assms, of rest]
  by (auto simp: buffer_init_string_def buf_cstr_def buf_holds_def) (simp add: buffer_init_def)

lemma buffer_init_string_len_ok:
  assumes "length s \<le> TEXT_LIMIT"
  shows "\<exists>b'. buffer_init_string_len (Some (map Some s @ rest)) (of_nat (length s)) = Inr b'
    \<and> buf_holds b' s"
  using buffer_copy_string_len_ok [OF buf_repr_init assms, of rest]
  by (auto simp: buffer_init_string_len_def buf_holds_def) (simp add: buffer_init_def)

lemma buffer_copy_string_buffer_ok:
  assumes b: "buf_repr b t" and src: "buf_repr src s" and n: "length s \<le> TEXT_LIMIT"
  shows "\<exists>b'. buffer_copy_string_buffer (Some b) (Some src) = Inr (0, Some b') \<and> buf_repr b' s
    \<and> unat (buf_capacity b') \<le> max (unat (buf_capacity b)) (length s + 65)"
proof (cases "buf_len src = 0")
  case True
  then have s: "s = []"
    using src by (auto simp: buf_repr_def split: option.splits)
  have "\<exists>b'. buffer_reset (Some b) = Inr (Some b') \<and> buf_repr b' []
      \<and> unat (buf_capacity b') \<le> unat (buf_capacity b)"
  proof (cases "buf_capacity b > 256")
    case True
    then show ?thesis
      by (auto simp: buffer_reset_def BUFFER_MAX_REUSE_SIZE_def buf_repr_def)
  next
    case False
    from buffer_reset_small [OF b False] show ?thesis by auto
  qed
  with True s show ?thesis by (auto simp: buffer_copy_string_buffer_def)
next
  case False
  with src obtain blk where blk: "buf_ptr src = Some blk"
    "unat (buf_len src) = Suc (length s)" "take (Suc (length s)) blk = cstr s"
    by (elim buf_reprE)
  have "blk = map Some s @ drop (length s) blk"
    using take_cstr_eq_map [OF blk(3)] append_take_drop_id [of "length s" blk] by simp
  moreover have "buf_len src - 1 = of_nat (length s)"
  proof -
    have "of_nat (unat (buf_len src)) = (of_nat (Suc (length s)) :: size_t)"
      by (simp only: blk(2))
    then have "buf_len src = of_nat (length s) + 1" by (simp add: add.commute)
    then show ?thesis by simp
  qed
  ultimately show ?thesis
    using buffer_copy_string_len_ok [OF b n, of "drop (length s) blk"] False blk(1)
    by (simp add: buffer_copy_string_buffer_def)
qed

lemma buffer_init_buffer_ok:
  assumes "buf_repr src s" "length s \<le> TEXT_LIMIT"
  shows "\<exists>b'. buffer_init_buffer (Some src) = Inr b' \<and> buf_holds b' s"
  using buffer_copy_string_buffer_ok [OF buf_repr_init assms]
  by (auto simp: buffer_init_buffer_def buf_holds_def) (simp add: buffer_init_def)

section \<open>Appending\<close>

text \<open>Where an append writes: over the old terminator.\<close>

definition append_at :: "buffer \<Rightarrow> size_t" where
  "append_at b = (if buf_len b = 0 then buf_len b + 1 else buf_len b)"

lemma append_at_repr:
  assumes "buf_repr b t" "buf_ptr b = Some blk" "length t \<le> TEXT_LIMIT"
  shows "unat (append_at b) = Suc (length t)" "unat (append_at b - 1) = length t"
    "take (length t) blk = map Some t"
proof -
  show a: "unat (append_at b) = Suc (length t)"
    using assms(1,2) by (auto simp: append_at_def buf_repr_def split: if_splits)
  then have "append_at b \<noteq> 0" by auto
  then show "unat (append_at b - 1) = length t"
    using a by (simp add: unat_minus_one)
  show "take (length t) blk = map Some t"
    using assms(1,2) by (cases "buf_len b = 0") (auto simp: buf_repr_def take_cstr_eq_map)
qed

lemma unat_append_len:
  assumes "unat (l :: size_t) = Suc m" "m + n \<le> 2 * TEXT_LIMIT"
  shows "unat (l + of_nat n) = Suc (m + n)" "l + of_nat n \<noteq> 0" "unat (l + of_nat n - 1) = m + n"
proof -
  have n: "unat (of_nat n :: size_t) = n"
    using assms(2) by (intro unat_of_nat_small) (simp add: TEXT_LIMIT_def)
  show u: "unat (l + of_nat n) = Suc (m + n)"
    using assms unat_add_small [of l "of_nat n"] by (simp add: n TEXT_LIMIT_def)
  then show nz: "l + of_nat n \<noteq> 0" by auto
  then show "unat (l + of_nat n - 1) = m + n"
    using u by (simp add: unat_minus_one)
qed

lemma buffer_append_string_ok:
  assumes r: "buf_repr b t" and s: "NUL \<notin> set s"
    and fit: "length t + length s \<le> TEXT_LIMIT" "unat (buf_capacity b) \<le> 4 * TEXT_LIMIT"
  shows "\<exists>b'. buffer_append_string (Some b) (Some (cstr s @ rest)) = Inr (0, Some b')
    \<and> buf_repr b' (t @ s) \<and> buf_len b' \<noteq> 0
    \<and> unat (buf_capacity b') \<le> max (unat (buf_capacity b)) (length t + 2 * length s + 67)"
proof -
  have sl: "unat (of_nat (length s) + 1 :: size_t) = Suc (length s)"
    using fit by (intro unat_Suc_small) (simp add: TEXT_LIMIT_def)
  have "unat (of_nat (length s) + 1 :: size_t) \<noteq> 0"
    and "length t + 2 * unat (of_nat (length s) + 1 :: size_t) + unat (buf_capacity b)
      \<le> 8 * TEXT_LIMIT - 128"
    using fit unfolding sl by (simp_all add: TEXT_LIMIT_def)
  from buffer_prepare_append_ok [OF r this] obtain b1 blk where
    b1: "buffer_prepare_append (Some b) (of_nat (length s) + 1) = Inr (0, Some b1)"
      "buf_repr b1 t" "buf_ptr b1 = Some blk" "length blk = unat (buf_capacity b1)"
      "buf_capacity b1 \<noteq> 0" "length t + Suc (length s) \<le> length blk"
      "unat (buf_capacity b1) \<le> max (unat (buf_capacity b)) (length t + 2 * length s + 67)"
    by (auto simp: sl)
  have "length t \<le> TEXT_LIMIT" using fit by simp
  note at = append_at_repr [OF b1(2,3) this]
  note ln = unat_append_len [OF at(1), of "length s"]
  let ?blk = "take (length t) blk @ cstr s @ drop (length t + Suc (length s)) blk"
  have m: "c_memcpy blk (length t) (cstr s @ rest) (Suc (length s)) = Inr ?blk"
    using b1(6) by (simp add: mem_simps cstr_simps)
  have "take (Suc (length t + length s)) ?blk = cstr (t @ s)"
    using at(3) b1(6) by (simp add: cstr_def min_absorb1)
  moreover have "length ?blk = length blk" using b1(6) by simp
  ultimately show ?thesis
    using b1(1,3,4,5,7) at ln fit
    by (simp add: buffer_append_string_def cstr_simps s Let_def append_at_def [symmetric] sl m
        buf_repr_def TEXT_LIMIT_def)
qed

lemma buffer_append_string_len_ok:
  assumes r: "buf_repr b t"
    and fit: "length t + length s \<le> TEXT_LIMIT" "unat (buf_capacity b) \<le> 4 * TEXT_LIMIT"
  shows "\<exists>b'. buffer_append_string_len (Some b) (Some (map Some s @ rest)) (of_nat (length s))
      = Inr (0, Some b')
    \<and> buf_repr b' (t @ s)
    \<and> unat (buf_capacity b') \<le> max (unat (buf_capacity b)) (length t + 2 * length s + 67)"
proof (cases "s = []")
  case True
  with r show ?thesis by (simp add: buffer_append_string_len_def)
next
  case False
  have sl: "unat (of_nat (length s) + 1 :: size_t) = Suc (length s)"
    using fit by (intro unat_Suc_small) (simp add: TEXT_LIMIT_def)
  have sl0: "unat (of_nat (length s) :: size_t) = length s"
    using fit by (intro unat_of_nat_small) (simp add: TEXT_LIMIT_def)
  then have nz: "of_nat (length s) \<noteq> (0 :: size_t)" using False by auto
  have "unat (of_nat (length s) + 1 :: size_t) \<noteq> 0"
    and "length t + 2 * unat (of_nat (length s) + 1 :: size_t) + unat (buf_capacity b)
      \<le> 8 * TEXT_LIMIT - 128"
    using fit unfolding sl by (simp_all add: TEXT_LIMIT_def)
  from buffer_prepare_append_ok [OF r this] obtain b1 blk where
    b1: "buffer_prepare_append (Some b) (of_nat (length s) + 1) = Inr (0, Some b1)"
      "buf_repr b1 t" "buf_ptr b1 = Some blk" "length blk = unat (buf_capacity b1)"
      "buf_capacity b1 \<noteq> 0" "length t + Suc (length s) \<le> length blk"
      "unat (buf_capacity b1) \<le> max (unat (buf_capacity b)) (length t + 2 * length s + 67)"
    by (auto simp: sl)
  have "length t \<le> TEXT_LIMIT" using fit by simp
  note at = append_at_repr [OF b1(2,3) this]
  note ln = unat_append_len [OF at(1), of "length s"]
  let ?blk = "take (length t) blk @ map Some s @ drop (length t + length s) blk"
  have m: "c_memcpy blk (length t) (map Some s @ rest) (length s) = Inr ?blk"
    using b1(6) by (simp add: mem_simps)
  have "length ?blk = length blk" using b1(6) by simp
  moreover have "take (Suc (length (t @ s))) (?blk[length (t @ s) := Some NUL]) = cstr (t @ s)"
    using b1(6) at(3) by (intro store_terminator [OF refl]) auto
  ultimately show ?thesis
    using b1(1,3,4,5,6,7) at ln fit
    by (simp add: buffer_append_string_len_def nz Let_def append_at_def [symmetric] sl0 m
        buf_repr_def TEXT_LIMIT_def store_cell_def)
qed

lemma buf_holds_append_string:
  assumes "buf_holds b t" "NUL \<notin> set s" "length t + length s \<le> TEXT_LIMIT"
  shows "\<exists>b'. buffer_append_string (Some b) (Some (cstr s @ rest)) = Inr (0, Some b')
    \<and> buf_cstr b' (t @ s)"
  using buffer_append_string_ok [of b t s rest] assms
  by (fastforce simp: buf_cstr_def buf_holds_def TEXT_LIMIT_def)

lemma buf_holds_append_string_len:
  assumes "buf_holds b t" "length t + length s \<le> TEXT_LIMIT"
  shows "\<exists>b'. buffer_append_string_len (Some b) (Some (map Some s @ rest)) (of_nat (length s))
      = Inr (0, Some b') \<and> buf_holds b' (t @ s)"
  using buffer_append_string_len_ok [of b t s rest] assms
  by (fastforce simp: buf_holds_def TEXT_LIMIT_def)

section \<open>The interface the callers rely on\<close>

text \<open>
  \<open>plugin_load\<close> builds a file name and a symbol name by one \<open>buffer_init_string\<close> and a
  run of \<open>buffer_append_string\<close>.  What such a client needs of a text builder:
\<close>

locale text_builder =
  fixes start :: "block \<Rightarrow> 'b c_result"
    and append :: "'b \<Rightarrow> block \<Rightarrow> 'b c_result"
    and holds :: "'b \<Rightarrow> string \<Rightarrow> bool"
    and limit :: nat
  assumes start_ok: "NUL \<notin> set s \<Longrightarrow> length s \<le> limit \<Longrightarrow> \<exists>b. start (cstr s) = Inr b \<and> holds b s"
    and append_ok: "holds b t \<Longrightarrow> NUL \<notin> set s \<Longrightarrow> length t + length s \<le> limit \<Longrightarrow>
      \<exists>b'. append b (cstr s) = Inr b' \<and> holds b' (t @ s)"
begin

lemma append_all_ok:
  "holds b t \<Longrightarrow> NUL \<notin> set (concat ss) \<Longrightarrow> length t + length (concat ss) \<le> limit \<Longrightarrow>
     \<exists>b'. c_fold append b (map cstr ss) = Inr b' \<and> holds b' (t @ concat ss)"
proof (induction ss arbitrary: b t)
  case Nil
  then show ?case by simp
next
  case (Cons s ss)
  then obtain b1 where b1: "append b (cstr s) = Inr b1" "holds b1 (t @ s)"
    using append_ok [of b t s] by auto
  with Cons.IH [OF b1(2)] Cons.prems show ?case by auto
qed

lemma build_ok:
  assumes "NUL \<notin> set (concat (s # ss))" "length (concat (s # ss)) \<le> limit"
  shows "\<exists>b. c_bind (start (cstr s)) (\<lambda>b. c_fold append b (map cstr ss)) = Inr b
    \<and> holds b (concat (s # ss))"
proof -
  obtain b where "start (cstr s) = Inr b" "holds b s"
    using start_ok [of s] assms by auto
  with append_all_ok [of b s ss] assms show ?thesis by auto
qed

end

text \<open>The statement \<open>buffer_append_string (b, s);\<close> with its return code dropped.\<close>

definition append_stmt :: "buffer \<Rightarrow> block \<Rightarrow> buffer c_result" where
  "append_stmt b s = c_bind (buffer_append_string (Some b) (Some s)) (\<lambda>(_, bo). c_deref bo)"

interpretation bb: text_builder "\<lambda>s. buffer_init_string (Some s)" append_stmt buf_cstr TEXT_LIMIT
proof unfold_locales
  show "\<exists>b. buffer_init_string (Some (cstr s)) = Inr b \<and> buf_cstr b s"
    if "NUL \<notin> set s" "length s \<le> TEXT_LIMIT" for s
    using buffer_init_string_ok [OF that, of "[]"] by simp
  show "\<exists>b'. append_stmt b (cstr s) = Inr b' \<and> buf_cstr b' (t @ s)"
    if "buf_cstr b t" "NUL \<notin> set s" "length t + length s \<le> TEXT_LIMIT" for b t s
    using buf_holds_append_string [OF buf_cstrD(1) [OF that(1)] that(2,3), of "[]"]
    by (auto simp: append_stmt_def)
qed

section \<open>Arbitrary runs of operations\<close>

text \<open>
  The operations a caller applies to a buffer it owns, what they do to the text, and the
  run of a sequence of them.
\<close>

datatype buf_op =
    CopyString string | CopyStringLen string | AppendString string | AppendStringLen string | Reset

fun buf_step :: "buffer \<Rightarrow> buf_op \<Rightarrow> buffer c_result" where
  "buf_step b (CopyString s) =
     c_bind (buffer_copy_string (Some b) (Some (cstr s))) (\<lambda>(_, bo). c_deref bo)"
| "buf_step b (CopyStringLen s) =
     c_bind (buffer_copy_string_len (Some b) (Some (map Some s)) (of_nat (length s))) (\<lambda>(_, bo). c_deref bo)"
| "buf_step b (AppendString s) =
     c_bind (buffer_append_string (Some b) (Some (cstr s))) (\<lambda>(_, bo). c_deref bo)"
| "buf_step b (AppendStringLen s) =
     c_bind (buffer_append_string_len (Some b) (Some (map Some s)) (of_nat (length s))) (\<lambda>(_, bo). c_deref bo)"
| "buf_step b Reset = c_bind (buffer_reset (Some b)) c_deref"

fun text_step :: "string \<Rightarrow> buf_op \<Rightarrow> string" where
  "text_step t (CopyString s) = s"
| "text_step t (CopyStringLen s) = s"
| "text_step t (AppendString s) = t @ s"
| "text_step t (AppendStringLen s) = t @ s"
| "text_step t Reset = []"

fun op_size :: "buf_op \<Rightarrow> nat" where
  "op_size (CopyString s) = length s"
| "op_size (CopyStringLen s) = length s"
| "op_size (AppendString s) = length s"
| "op_size (AppendStringLen s) = length s"
| "op_size Reset = 0"

fun op_ok :: "buf_op \<Rightarrow> bool" where
  "op_ok (CopyString s) = (NUL \<notin> set s)"
| "op_ok (AppendString s) = (NUL \<notin> set s)"
| "op_ok _ = True"

lemma length_text_step: "length (text_step t x) \<le> length t + op_size x"
  by (cases x) auto

lemma buf_step_ok:
  assumes r: "buf_repr b t" and cap: "unat (buf_capacity b) \<le> 2 * TEXT_LIMIT + 67"
    and sz: "length t + op_size x \<le> TEXT_LIMIT" and ok: "op_ok x"
  shows "\<exists>b'. buf_step b x = Inr b' \<and> buf_repr b' (text_step t x)
    \<and> unat (buf_capacity b') \<le> 2 * TEXT_LIMIT + 67"
proof -
  have c4: "unat (buf_capacity b) \<le> 4 * TEXT_LIMIT" using cap by (simp add: TEXT_LIMIT_def)
  show ?thesis
  proof (cases x)
    case (CopyString s)
    with buffer_copy_string_ok [OF r, of s "[]"] sz ok cap show ?thesis by fastforce
  next
    case (CopyStringLen s)
    with buffer_copy_string_len_ok [OF r, of s "[]"] sz cap show ?thesis by fastforce
  next
    case (AppendString s)
    with buffer_append_string_ok [OF r _ _ c4, of s "[]"] sz ok cap show ?thesis by fastforce
  next
    case (AppendStringLen s)
    with buffer_append_string_len_ok [OF r _ c4, of s "[]"] sz cap show ?thesis by fastforce
  next
    case Reset
    with buffer_reset_ok [OF r] show ?thesis by (auto simp: buf_holds_def TEXT_LIMIT_def)
  qed
qed

text \<open>
  C14: a buffer behaves as the string it stands for.  Any sequence of copies, appends (with
  and without an explicit length) and resets, applied to a fresh buffer, runs without a
  fault (no access outside the block, no indeterminate byte read, no failed assertion) and
  leaves a well-formed buffer whose text is what the same operations give on strings,
  as long as the operations together pass at most \<open>TEXT_LIMIT\<close> characters.
\<close>

theorem buffer_runs_as_text:
  assumes "list_all op_ok xs" and "sum_list (map op_size xs) \<le> TEXT_LIMIT"
  shows "\<exists>b. c_fold buf_step buffer_init xs = Inr b \<and> buf_repr b (foldl text_step [] xs)
    \<and> buf_text b = foldl text_step [] xs"
proof -
  have "\<exists>b'. c_fold buf_step b xs = Inr b' \<and> buf_repr b' (foldl text_step t xs)"
    if "buf_repr b t" "unat (buf_capacity b) \<le> 2 * TEXT_LIMIT + 67"
      "length t + sum_list (map op_size xs) \<le> TEXT_LIMIT" for b t
    using that assms(1)
  proof (induction xs arbitrary: b t)
    case Nil
    then show ?case by simp
  next
    case (Cons x xs)
    then obtain b1 where b1: "buf_step b x = Inr b1" "buf_repr b1 (text_step t x)"
      "unat (buf_capacity b1) \<le> 2 * TEXT_LIMIT + 67"
      using buf_step_ok [of b t x] by auto
    moreover have "length (text_step t x) + sum_list (map op_size xs) \<le> TEXT_LIMIT"
      using Cons.prems(3) length_text_step [of t x] by simp
    ultimately show ?case using Cons.IH [of b1 "text_step t x"] Cons.prems(4) by auto
  qed
  from this [OF buf_repr_init] assms(2) obtain b where
    "c_fold buf_step buffer_init xs = Inr b" "buf_repr b (foldl text_step [] xs)"
    by (auto simp: buffer_init_def)
  then show ?thesis using buf_repr_text by blast
qed

theorem buffer_runs_as_text_witness:
  "\<exists>b. c_fold buf_step buffer_init [CopyString ''ab'', AppendString ''cd'', AppendStringLen [NUL]] = Inr b
    \<and> buf_text b = ''abcd'' @ [NUL]"
  using buffer_runs_as_text [of "[CopyString ''ab'', AppendString ''cd'', AppendStringLen [NUL]]"]
  by (auto simp: TEXT_LIMIT_def)

end
