(* ===== verification/Text_Utils.thy ===== *)
theory Text_Utils
  imports Prelude
begin

text \<open>
  The in-place text functions at the end of \<open>src/core/webcontrol_buffer.c\<close>: \<open>strtoupper\<close>,
  \<open>strtolower\<close> and \<open>truncate_string\<close>.  They work on the cells of the caller's array.
  Indices are natural numbers: every one of them stays below the length of that array.
\<close>

unbundle bit_operations_syntax

section \<open>Case conversion\<close>

abbreviation byte :: "char \<Rightarrow> int" where "byte c \<equiv> of_char c"

definition upper_char :: "char \<Rightarrow> char" where
  "upper_char c = (if byte c \<ge> byte CHR ''a'' \<and> byte c \<le> byte CHR ''z''
     then char_of (byte c AND NOT 32) else c)"

definition lower_char :: "char \<Rightarrow> char" where
  "lower_char c = (if byte c \<ge> byte CHR ''A'' \<and> byte c \<le> byte CHR ''Z''
     then char_of (byte c OR 32) else c)"

fun strtoupper :: "block \<Rightarrow> block c_result" where
  "strtoupper [] = Inl OutOfBounds"
| "strtoupper (None # r) = Inl Uninitialised"
| "strtoupper (Some c # r) =
     (if c = NUL then Inr (Some c # r)
      else c_bind (strtoupper r) (\<lambda>r'. Inr (Some (upper_char c) # r')))"

fun strtolower :: "block \<Rightarrow> block c_result" where
  "strtolower [] = Inl OutOfBounds"
| "strtolower (None # r) = Inl Uninitialised"
| "strtolower (Some c # r) =
     (if c = NUL then Inr (Some c # r)
      else c_bind (strtolower r) (\<lambda>r'. Inr (Some (lower_char c) # r')))"

lemma byte_range: "0 \<le> byte c" "byte c < 256"
  by (cases c; simp add: of_char_def horner_sum_bit_eq_take_bit)+

lemma clear_bit5:
  assumes "97 \<le> n" "n \<le> 122"
  shows "n AND NOT 32 = n - (32 :: int)"
proof -
  have all: "\<forall>m \<in> set [97..122]. m AND NOT 32 = m - (32 :: int)"
    by (simp add: upto_rec1)
  have "n \<in> set [97..122]" using assms by (simp only: set_upto atLeastAtMost_iff)
  with all show ?thesis by (rule bspec)
qed

lemma set_bit5:
  assumes "65 \<le> n" "n \<le> 90"
  shows "n OR 32 = n + (32 :: int)"
proof -
  have all: "\<forall>m \<in> set [65..90]. m OR 32 = m + (32 :: int)"
    by (simp add: upto_rec1)
  have "n \<in> set [65..90]" using assms by (simp only: set_upto atLeastAtMost_iff)
  with all show ?thesis by (rule bspec)
qed

lemma byte_upper: "byte (upper_char c) = (if 97 \<le> byte c \<and> byte c \<le> 122 then byte c - 32 else byte c)"
  using byte_range [of c] by (simp add: upper_char_def clear_bit5 [simplified])

lemma byte_lower: "byte (lower_char c) = (if 65 \<le> byte c \<and> byte c \<le> 90 then byte c + 32 else byte c)"
  using byte_range [of c] by (simp add: lower_char_def set_bit5)

lemma char_eq_byte: "c = d \<longleftrightarrow> byte c = byte d"
  by simp

lemma upper_upper [simp]: "upper_char (upper_char c) = upper_char c"
  unfolding char_eq_byte [of "upper_char (upper_char c)"] byte_upper by auto

lemma lower_upper [simp]: "lower_char (upper_char c) = lower_char c"
  unfolding char_eq_byte [of "lower_char (upper_char c)"] byte_upper byte_lower by auto

lemma upper_lower [simp]: "upper_char (lower_char c) = upper_char c"
  unfolding char_eq_byte [of "upper_char (lower_char c)"] byte_upper byte_lower by auto

lemma upper_char_NUL [simp]: "upper_char c = NUL \<longleftrightarrow> c = NUL"
  unfolding char_eq_byte [of "upper_char c"] char_eq_byte [of c NUL] byte_upper by auto

lemma lower_char_NUL [simp]: "lower_char c = NUL \<longleftrightarrow> c = NUL"
  unfolding char_eq_byte [of "lower_char c"] char_eq_byte [of c NUL] byte_lower by auto

lemma strtoupper_cstr [cstr_simps]:
  "NUL \<notin> set s \<Longrightarrow> strtoupper (cstr s @ r) = Inr (cstr (map upper_char s) @ r)"
  by (induction s) (auto simp: cstr_def)

lemma strtolower_cstr [cstr_simps]:
  "NUL \<notin> set s \<Longrightarrow> strtolower (cstr s @ r) = Inr (cstr (map lower_char s) @ r)"
  by (induction s) (auto simp: cstr_def)

lemma NUL_map_upper [simp]: "NUL \<in> set (map upper_char s) \<longleftrightarrow> NUL \<in> set s"
proof (induction s)
  case (Cons c s)
  then show ?case using upper_char_NUL [of c] by (auto simp del: upper_char_NUL)
qed simp

text \<open>
  Case folding is total on strings and loses nothing but case.  On every array that
  holds a terminated string, \<open>strtoupper\<close> succeeds, rewrites the string in place (same
  length, the cells after the terminator untouched) and leaves no lower-case letter; doing
  it again changes nothing, and \<open>strtolower\<close> afterwards gives what \<open>strtolower\<close> gives on
  the original.
\<close>

theorem strtoupper_correct:
  assumes "c_string blk = Inr s"
  shows "\<exists>blk'. strtoupper blk = Inr blk' \<and> length blk' = length blk
    \<and> drop (Suc (length s)) blk' = drop (Suc (length s)) blk
    \<and> c_string blk' = Inr (map upper_char s)
    \<and> (\<forall>c \<in> set (map upper_char s). \<not> (byte CHR ''a'' \<le> byte c \<and> byte c \<le> byte CHR ''z''))
    \<and> strtoupper blk' = Inr blk' \<and> strtolower blk' = strtolower blk"
proof -
  from c_string_InrD [OF assms] obtain r where s: "NUL \<notin> set s" and blk: "blk = cstr s @ r"
    by auto
  have s': "NUL \<notin> set (map upper_char s)" using s by (simp del: set_map)
  have 1: "strtoupper blk = Inr (cstr (map upper_char s) @ r)"
    using s by (simp add: blk cstr_simps)
  have 2: "strtoupper (cstr (map upper_char s) @ r) = Inr (cstr (map upper_char s) @ r)"
    using strtoupper_cstr [OF s'] by (simp add: comp_def)
  have 3: "strtolower (cstr (map upper_char s) @ r) = strtolower blk"
    using strtolower_cstr [OF s'] s by (simp add: blk cstr_simps comp_def)
  have 4: "c_string (cstr (map upper_char s) @ r) = Inr (map upper_char s)"
    by (rule c_string_cstr [OF s'])
  have 5: "\<forall>c \<in> set (map upper_char s). \<not> (byte CHR ''a'' \<le> byte c \<and> byte c \<le> byte CHR ''z'')"
    using byte_upper by auto
  show ?thesis
    using 1 2 3 4 5 by (intro exI [of _ "cstr (map upper_char s) @ r"]) (simp add: blk)
qed

theorem strtoupper_correct_witness:
  "\<exists>blk'. strtoupper (cstr ''aLLow'' @ [None]) = Inr blk' \<and> c_string blk' = Inr ''ALLOW''"
proof -
  have "c_string (cstr ''aLLow'' @ [None]) = Inr ''aLLow''"
    by (rule c_string_cstr) simp
  from strtoupper_correct [OF this] show ?thesis by (auto simp: upper_char_def char_of_def)
qed

section \<open>Truncation\<close>

text \<open>The body of the \<open>for\<close> loop from index \<open>i\<close> on; \<open>x\<close> is the read position.\<close>

function truncate_loop ::
  "block \<Rightarrow> block \<Rightarrow> nat \<Rightarrow> nat \<Rightarrow> nat \<Rightarrow> nat \<Rightarrow> nat \<Rightarrow> block c_result" where
  "truncate_loop str sep start sep_len max_len i x =
     (if i < max_len then
        (let sep_pos = i - start in
         if sep_pos < sep_len then
           c_bind (load_cell sep sep_pos) (\<lambda>c.
           c_bind (store_cell str i c) (\<lambda>str'.
           truncate_loop str' sep start sep_len max_len (Suc i) x))
         else
           c_bind (load_cell str x) (\<lambda>c.
           c_bind (store_cell str i c) (\<lambda>str'.
           truncate_loop str' sep start sep_len max_len (Suc i) (Suc x))))
      else Inr str)"
  by pat_completeness auto
termination
  by (relation "measure (\<lambda>(str, sep, start, sep_len, max_len, i, x). max_len - i)") auto

declare truncate_loop.simps [simp del]

definition truncate_string :: "block \<Rightarrow> nat \<Rightarrow> block \<Rightarrow> block c_result" where
  "truncate_string str max_len sep =
     c_bind (c_strlen str) (\<lambda>len.
     if len \<le> max_len then Inr str
     else
       c_bind (c_strlen sep) (\<lambda>sep_len.
       c_bind (c_assert (max_len \<ge> sep_len)) (\<lambda>_.
       let start = (max_len - sep_len) div 2;
           x = len - start;
           x' = (if max_len mod 2 \<noteq> 0 then x - 1 else x)
       in c_bind (truncate_loop str sep start sep_len max_len start x') (\<lambda>str'.
          store_cell str' max_len NUL))))"

text \<open>The second phase of the loop moves the tail down.\<close>

lemma truncate_loop_tail:
  assumes "start + sep_len \<le> i" "i \<le> max_len" "i \<le> x" "x + (max_len - i) \<le> length str"
    "None \<notin> set (take (max_len - i) (drop x str))"
  shows "truncate_loop str sep start sep_len max_len i x
    = Inr (take i str @ take (max_len - i) (drop x str) @ drop max_len str)"
  using assms
proof (induction "max_len - i" arbitrary: str i x)
  case 0
  then show ?case by (subst truncate_loop.simps) simp
next
  case (Suc n)
  from Suc.hyps Suc.prems have lt: "i < max_len" "x < length str" "i < length str"
    by auto
  have ns: "\<not> i - start < sep_len" using Suc.prems(1) by simp
  from lt have tk: "take (max_len - i) (drop x str) = str ! x # take n (drop (Suc x) str)"
    by (simp add: Cons_nth_drop_Suc [symmetric] Suc.hyps(2) [symmetric])
  with Suc.prems(5) obtain c where c: "str ! x = Some c" by (cases "str ! x") auto
  have str': "length (str[i := Some c]) = length str"
    "drop (Suc x) (str[i := Some c]) = drop (Suc x) str"
    "drop max_len (str[i := Some c]) = drop max_len str"
    "take (Suc i) (str[i := Some c]) = take i str @ [Some c]"
    using lt Suc.prems(3) by (simp_all add: take_Suc_conv_app_nth)
  have n: "max_len - Suc i = n" using Suc.hyps(2) by simp
  have "truncate_loop (str[i := Some c]) sep start sep_len max_len (Suc i) (Suc x)
    = Inr (take (Suc i) (str[i := Some c]) @ take (max_len - Suc i) (drop (Suc x) (str[i := Some c]))
        @ drop max_len (str[i := Some c]))"
    using Suc.prems Suc.hyps(2) lt tk by (intro Suc.hyps(1)) (auto simp: n str')
  then show ?case
    using lt c tk ns by (subst truncate_loop.simps) (simp add: mem_simps str' n Let_def)
qed

text \<open>The first phase writes the separator.\<close>

lemma truncate_loop_sep:
  assumes "start \<le> i" "i \<le> start + length p" "start + length p \<le> max_len" "max_len \<le> length str"
  shows "truncate_loop str (cstr p @ r) start (length p) max_len i x
    = truncate_loop (take i str @ map Some (drop (i - start) p) @ drop (start + length p) str)
        (cstr p @ r) start (length p) max_len (start + length p) x"
  using assms
proof (induction "start + length p - i" arbitrary: str i)
  case 0
  then have "i = start + length p" by simp
  then show ?case by simp
next
  case (Suc n)
  then have lt: "i < max_len" "i - start < length p" "i < length str" by auto
  have cell: "load_cell (cstr p @ r) (i - start) = Inr (p ! (i - start))"
    using lt(2) by (simp add: load_cell_def cstr_def nth_append)
  let ?str = "str[i := Some (p ! (i - start))]"
  have "truncate_loop ?str (cstr p @ r) start (length p) max_len (Suc i) x
    = truncate_loop (take (Suc i) ?str @ map Some (drop (Suc i - start) p) @ drop (start + length p) ?str)
        (cstr p @ r) start (length p) max_len (start + length p) x"
    using Suc.hyps Suc.prems lt by (intro Suc.hyps(1)) auto
  moreover have "take (Suc i) ?str = take i str @ [Some (p ! (i - start))]"
    using lt by (simp add: take_Suc_conv_app_nth)
  moreover have "drop (i - start) p = p ! (i - start) # drop (Suc i - start) p"
    using lt Suc.prems(1) by (metis Cons_nth_drop_Suc Suc_diff_le)
  moreover have "drop (start + length p) ?str = drop (start + length p) str"
    using lt Suc.prems by simp
  ultimately show ?case
    using lt by (subst truncate_loop.simps) (simp add: cell mem_simps Let_def)
qed

text \<open>What the function computes on a string longer than \<open>max_len\<close>, cell by cell.\<close>

lemma truncate_string_cells:
  fixes s p :: string and m :: nat
  defines "h \<equiv> (m - length p) div 2"
  defines "x \<equiv> length s - h - m mod 2"
  assumes s: "NUL \<notin> set s" and p: "NUL \<notin> set p" and m: "length p \<le> m" "m < length s"
  shows "truncate_string (cstr s @ r) m (cstr p @ r')
    = Inr ((map Some (take h s @ p) @ take (m - length p - h) (drop x (cstr s)) @ Some NUL #
        drop (Suc m) (cstr s @ r)))"
proof -
  let ?str = "cstr s @ r"
  have h: "h + length p \<le> m" "h + (m - length p - h) = m - length p"
    using m by (auto simp: h_def)
  have x: "h + length p \<le> x" "x + (m - length p - h) \<le> Suc (length s)"
    using m by (auto simp: x_def h_def)
  have xm: "m mod 2 = Suc 0 \<Longrightarrow> length s - Suc h = x" "m mod 2 = 0 \<Longrightarrow> length s - h = x"
    by (auto simp: x_def)
  define str1 where "str1 = take h ?str @ map Some p @ drop (h + length p) ?str"
  have d1: "drop k str1 = drop k ?str" if "h + length p \<le> k" for k
    using that m h by (simp add: str1_def min_absorb2)
  have t1: "take (h + length p) str1 = map Some (take h s @ p)"
    using m h by (simp add: str1_def cstr_def take_map)
  have tk: "take (m - length p - h) (drop x ?str) = take (m - length p - h) (drop x (cstr s))"
    using x by simp
  have mid: "m - h - length p = m - length p - h" by simp
  have len1: "length str1 = length ?str" using m h by (simp add: str1_def)
  have "truncate_loop ?str (cstr p @ r') h (length p) m h x
    = truncate_loop str1 (cstr p @ r') h (length p) m (h + length p) x"
    using truncate_loop_sep [of h h p m ?str r' x] m h by (simp add: str1_def)
  also have "\<dots> = Inr (take (h + length p) str1 @ take (m - (h + length p)) (drop x str1) @ drop m str1)"
  proof (rule truncate_loop_tail)
    have "set (take (m - (h + length p)) (drop x str1)) \<subseteq> set (cstr s)"
      using x h(1) d1 [OF x(1)] tk by (metis add.commute diff_diff_left in_set_dropD in_set_takeD subsetI)
    then show "None \<notin> set (take (m - (h + length p)) (drop x str1))"
      by (auto simp: cstr_def)
  qed (use h x len1 in auto)
  finally have loop: "truncate_loop ?str (cstr p @ r') h (length p) m h x
    = Inr (map Some (take h s @ p) @ take (m - length p - h) (drop x (cstr s)) @ drop m ?str)"
    by (simp only: t1 d1 [OF x(1)] d1 [OF h(1)] tk diff_diff_left [symmetric] mid append_assoc)
  let ?pre = "map Some (take h s @ p) @ take (m - length p - h) (drop x (cstr s))"
  have lp: "length ?pre = m" using h x m by simp
  have "store_cell (?pre @ drop m ?str) m NUL = Inr (?pre @ Some NUL # drop (Suc m) ?str)"
  proof -
    have "drop m ?str = ?str ! m # drop (Suc m) ?str"
      using m by (intro Cons_nth_drop_Suc [symmetric]) simp
    then show ?thesis by (simp only: store_cell_at [OF lp])
  qed
  then show ?thesis
    using m s p loop xm
    by (simp add: truncate_string_def cstr_simps Let_def h_def [symmetric])
qed

lemma half_even: "even q \<Longrightarrow> q \<le> m \<Longrightarrow> m - q = 2 * ((m - q) div 2) + m mod (2 :: nat)"
  by presburger

lemma half_odd: "odd q \<Longrightarrow> q \<le> m \<Longrightarrow> m - q = 2 * ((m - q) div 2) + (1 - m mod (2 :: nat))"
  by presburger

lemma take_drop_cstr:
  "k \<le> length s \<Longrightarrow> take k (drop (length s - k) (cstr s)) = map Some (drop (length s - k) s)"
  by (simp add: cstr_def drop_map)

text \<open>
  C39: truncation with a separator of even length is what its name says.  A string of at
  most \<open>max_len\<close> characters is left alone; a longer one becomes its first \<open>h\<close> characters,
  the separator, and its last characters, exactly \<open>max_len\<close> characters in all, with the
  array as long as before and every access inside it.
\<close>

theorem truncate_string_correct:
  assumes s: "NUL \<notin> set s" and p: "NUL \<notin> set p" and even: "even (length p)" and m: "length p \<le> m"
  defines "h \<equiv> (m - length p) div 2"
  defines "k \<equiv> m - length p - h"
  shows "\<exists>blk'. truncate_string (cstr s @ r) m (cstr p @ r') = Inr blk'
    \<and> length blk' = length (cstr s @ r)
    \<and> c_string blk' = Inr (if length s \<le> m then s else take h s @ p @ drop (length s - k) s)
    \<and> (length s > m \<longrightarrow> length (take h s @ p @ drop (length s - k) s) = m)"
proof (cases "length s \<le> m")
  case True
  with s show ?thesis by (simp add: truncate_string_def cstr_simps)
next
  case False
  then have ms: "m < length s" by simp
  have k: "k = h + m mod 2" "k \<le> length s" "h + length p + k = m"
    using half_even [OF even m] ms m by (simp_all add: k_def h_def [symmetric])
  let ?t = "take h s @ p @ drop (length s - k) s"
  have "length s - h - m mod 2 = length s - k" using k(1) by simp
  then have "truncate_string (cstr s @ r) m (cstr p @ r')
    = Inr (map Some ?t @ Some NUL # drop (Suc m) (cstr s @ r))"
    using truncate_string_cells [OF s p m ms, of r r'] take_drop_cstr [OF k(2)]
    by (simp add: h_def [symmetric] k_def [symmetric] del: diff_diff_left)
  moreover have "NUL \<notin> set ?t" using s p by (auto dest: in_set_takeD in_set_dropD)
  moreover have "length ?t = m" using k ms by simp
  moreover from this have "length (map Some ?t @ Some NUL # drop (Suc m) (cstr s @ r)) = length (cstr s @ r)"
    using ms by simp
  ultimately show ?thesis using ms by (simp add: c_string_until_nul del: map_append set_append length_append)
qed

theorem truncate_string_correct_witness:
  "\<exists>blk'. truncate_string (cstr ''abcdefgh'') 5 (cstr ''..'') = Inr blk' \<and> c_string blk' = Inr ''a..gh''"
  using truncate_string_correct [of "''abcdefgh''" "''..''" 5 "[]" "[]"] by auto

text \<open>
  C40: with a separator of odd length the read position is off by one, because the code
  corrects it by the parity of \<open>max_len\<close> and not by that of \<open>max_len - sep_len\<close>.  For an odd
  \<open>max_len\<close> the tail stops one character before the end of the string; for an even
  one the terminator is copied into the text and the result is one character short.
\<close>

theorem truncate_string_odd_separator:
  assumes s: "NUL \<notin> set s" and p: "NUL \<notin> set p" and odd: "odd (length p)"
    and m: "length p \<le> m" "m < length s"
  defines "h \<equiv> (m - length p) div 2"
  shows "\<exists>blk'. truncate_string (cstr s @ r) m (cstr p @ r') = Inr blk'
    \<and> c_string blk' = Inr (if odd m then take h s @ p @ take h (drop (length s - h - 1) s)
        else take h s @ p @ drop (length s - h) s)
    \<and> (even m \<longrightarrow> length (take h s @ p @ drop (length s - h) s) = m - 1)"
proof (cases "odd m")
  case True
  have k: "m - length p - h = h" "m mod 2 = 1"
    using True half_odd [OF odd m(1)] by (simp_all add: h_def [symmetric] odd_iff_mod_2_eq_one)
  let ?t = "take h s @ p @ take h (drop (length s - h - 1) s)"
  have "take h (drop (length s - h - 1) (cstr s)) = map Some (take h (drop (length s - h - 1) s))"
    using m by (simp add: cstr_def drop_map take_map h_def)
  then have "truncate_string (cstr s @ r) m (cstr p @ r')
    = Inr (map Some ?t @ Some NUL # drop (Suc m) (cstr s @ r))"
    using truncate_string_cells [OF s p m, of r r'] by (simp add: h_def [symmetric] k del: diff_diff_left)
  moreover have "NUL \<notin> set ?t" using s p by (auto dest: in_set_takeD in_set_dropD)
  ultimately show ?thesis using True
    by (simp add: c_string_until_nul del: map_append set_append length_append)
next
  case False
  have k: "m - length p - h = Suc h" "m mod 2 = 0" "2 * h + length p + 1 = m"
    using False half_odd [OF odd m(1)] m by (simp_all add: h_def [symmetric] even_iff_mod_2_eq_zero)
  let ?t = "take h s @ p @ drop (length s - h) s"
  have "take (Suc h) (drop (length s - h) (cstr s)) = map Some (drop (length s - h) s) @ [Some NUL]"
    using k(3) m by (simp add: cstr_def drop_map)
  then have "truncate_string (cstr s @ r) m (cstr p @ r')
    = Inr (map Some ?t @ Some NUL # Some NUL # drop (Suc m) (cstr s @ r))"
    using truncate_string_cells [OF s p m, of r r'] by (simp add: h_def [symmetric] k del: diff_diff_left)
  moreover have "NUL \<notin> set ?t" using s p by (auto dest: in_set_takeD in_set_dropD)
  ultimately show ?thesis using False k(3) m
    by (simp add: c_string_until_nul del: map_append set_append)
qed

theorem truncate_string_odd_separator_witness:
  "\<exists>blk'. truncate_string (cstr ''abcdefgh'') 5 (cstr ''...'') = Inr blk' \<and> c_string blk' = Inr ''a...g''"
  using truncate_string_odd_separator [of "''abcdefgh''" "''...''" 5 "[]" "[]"] by auto

end
