(* ===== verification/Ring_Queue.thy ===== *)
theory Ring_Queue
  imports Prelude
begin

text \<open>
  The bounded buffer of \<open>src/thirdparty/c-pthread-queue\<close>: the \<open>queue_t\<close> struct and what
  \<open>queue_enqueue\<close>, \<open>queue_dequeue\<close> and \<open>queue_size\<close> do to it while they hold its mutex.
  The array's slots are \<open>None\<close> until first written (\<open>QUEUE_INITIALIZER\<close> is given an
  uninitialised array).  The counters are natural numbers: they never exceed the
  capacity, which is 256 and 8 for the two queues of the program.

  The waiting, the mutex and the condition variables are in the theory \<open>Queue_Monitor\<close>.
\<close>

section \<open>The struct and its operations\<close>

record 'a queue =
  q_buffer :: "'a option list"
  q_capacity :: nat
  q_size :: nat
  q_in :: nat
  q_out :: nat

definition queue_initializer :: "nat \<Rightarrow> 'a queue" where
  "queue_initializer n =
     \<lparr>q_buffer = replicate n None, q_capacity = n, q_size = 0, q_in = 0, q_out = 0\<rparr>"

definition queue_full :: "'a queue \<Rightarrow> bool" where
  "queue_full q \<longleftrightarrow> q_size q = q_capacity q"

definition queue_empty :: "'a queue \<Rightarrow> bool" where
  "queue_empty q \<longleftrightarrow> q_size q = 0"

text \<open>The bodies after the waiting loop and before the mutex is released.\<close>

definition enqueue_body :: "'a \<Rightarrow> 'a queue \<Rightarrow> 'a queue c_result" where
  "enqueue_body v q =
     (if q_in q < length (q_buffer q)
      then Inr (q\<lparr>q_buffer := (q_buffer q)[q_in q := Some v],
                  q_size := q_size q + 1,
                  q_in := (q_in q + 1) mod q_capacity q\<rparr>)
      else Inl OutOfBounds)"

definition dequeue_body :: "'a queue \<Rightarrow> ('a \<times> 'a queue) c_result" where
  "dequeue_body q =
     (if q_out q < length (q_buffer q)
      then (case q_buffer q ! q_out q of
              None \<Rightarrow> Inl Uninitialised
            | Some v \<Rightarrow> Inr (v, q\<lparr>q_size := q_size q - 1, q_out := (q_out q + 1) mod q_capacity q\<rparr>))
      else Inl OutOfBounds)"

section \<open>Abstraction to a list\<close>

definition slot :: "'a queue \<Rightarrow> nat \<Rightarrow> 'a option" where
  "slot q k = q_buffer q ! ((q_out q + k) mod q_capacity q)"

definition queue_list :: "'a queue \<Rightarrow> 'a list" where
  "queue_list q = map (\<lambda>k. the (slot q k)) [0..<q_size q]"

definition queue_wf :: "'a queue \<Rightarrow> bool" where
  "queue_wf q \<longleftrightarrow>
     0 < q_capacity q \<and> length (q_buffer q) = q_capacity q \<and> q_size q \<le> q_capacity q \<and>
     q_out q < q_capacity q \<and> q_in q = (q_out q + q_size q) mod q_capacity q \<and>
     (\<forall>k < q_size q. slot q k \<noteq> None)"

lemma queue_wf_initializer: "0 < n \<Longrightarrow> queue_wf (queue_initializer n)"
  by (simp add: queue_wf_def queue_initializer_def)

lemma queue_list_initializer [simp]: "queue_list (queue_initializer n) = []"
  by (simp add: queue_list_def queue_initializer_def)

lemma length_queue_list [simp]: "length (queue_list q) = q_size q"
  by (simp add: queue_list_def)

lemma queue_empty_list: "queue_empty q \<longleftrightarrow> queue_list q = []"
  by (simp add: queue_empty_def queue_list_def)

lemma ring_index_inj:
  assumes "k < c" "j < c" "(p + k) mod c = (p + j) mod (c :: nat)"
  shows "k = j"
  using assms
proof (induction k j rule: linorder_wlog)
  case (le k j)
  then have "c dvd (p + j) - (p + k)"
    by (metis add_le_cancel_left mod_eq_dvd_iff_nat)
  then have "c dvd j - k" by simp
  with le show ?case by (metis diff_is_0_eq dvd_imp_le le_antisym less_imp_diff_less not_gr_zero not_less)
qed simp

lemma enqueue_body_ok:
  assumes wf: "queue_wf q" and room: "q_size q < q_capacity q"
  shows "\<exists>q'. enqueue_body v q = Inr q' \<and> queue_wf q' \<and> queue_list q' = queue_list q @ [v]
    \<and> q_capacity q' = q_capacity q \<and> q_size q' = Suc (q_size q)"
proof -
  let ?c = "q_capacity q" and ?p = "q_out q" and ?n = "q_size q"
  have c: "0 < ?c" and len: "length (q_buffer q) = ?c" and i: "q_in q = (?p + ?n) mod ?c"
    using wf by (auto simp: queue_wf_def)
  then have lt: "q_in q < length (q_buffer q)" by simp
  define q' where "q' = q\<lparr>q_buffer := (q_buffer q)[q_in q := Some v], q_size := ?n + 1,
    q_in := (q_in q + 1) mod ?c\<rparr>"
  have new: "slot q' ?n = Some v"
    using lt by (simp add: slot_def q'_def i)
  have old: "slot q' k = slot q k" if "k < ?n" for k
  proof -
    have "(?p + k) mod ?c \<noteq> (?p + ?n) mod ?c"
      using ring_index_inj [of k ?c ?n ?p] that room by auto
    then show ?thesis by (simp add: slot_def q'_def i)
  qed
  have "queue_list q' = queue_list q @ [v]"
    using new old by (simp add: queue_list_def q'_def [symmetric]) (simp add: q'_def old)
  moreover have "queue_wf q'"
  proof -
    have "slot q' k \<noteq> None" if "k < Suc ?n" for k
      using that wf new old [of k] by (cases "k = ?n") (auto simp: queue_wf_def)
    moreover have "(q_in q + 1) mod ?c = (?p + Suc ?n) mod ?c"
      by (simp add: i mod_Suc_eq)
    ultimately show ?thesis
      using wf room by (simp add: queue_wf_def) (simp add: q'_def)
  qed
  ultimately show ?thesis
    using lt by (simp add: enqueue_body_def q'_def)
qed

lemma dequeue_body_ok:
  assumes wf: "queue_wf q" and ne: "queue_list q = v # vs"
  shows "\<exists>q'. dequeue_body q = Inr (v, q') \<and> queue_wf q' \<and> queue_list q' = vs
    \<and> q_capacity q' = q_capacity q \<and> Suc (q_size q') = q_size q"
proof -
  let ?c = "q_capacity q" and ?p = "q_out q" and ?n = "q_size q"
  have n: "?n = Suc (length vs)" using ne by (metis length_Cons length_queue_list)
  have c: "0 < ?c" and len: "length (q_buffer q) = ?c" and p: "?p < ?c"
    using wf by (auto simp: queue_wf_def)
  have s0: "slot q 0 = q_buffer q ! ?p" using p by (simp add: slot_def)
  moreover have "slot q 0 \<noteq> None" using wf n by (simp add: queue_wf_def)
  moreover have "the (slot q 0) = v"
    using ne n by (simp add: queue_list_def upt_conv_Cons del: upt_Suc)
  ultimately have v: "q_buffer q ! ?p = Some v" by auto
  define q' where "q' = q\<lparr>q_size := ?n - 1, q_out := (?p + 1) mod ?c\<rparr>"
  have shift: "slot q' k = slot q (Suc k)" for k
    by (simp add: slot_def q'_def mod_simps)
  have "queue_list q = v # map (\<lambda>k. the (slot q (Suc k))) [0..<length vs]"
    using n \<open>the (slot q 0) = v\<close>
    by (simp add: queue_list_def upt_conv_Cons map_Suc_upt [symmetric] comp_def del: upt_Suc)
  then have "queue_list q' = vs"
    using ne n by (simp add: queue_list_def shift) (simp add: q'_def)
  moreover have "queue_wf q'"
  proof -
    have "slot q' k \<noteq> None" if "k < ?n - 1" for k
      using that wf n by (simp add: shift queue_wf_def)
    moreover have "((?p + 1) mod ?c + (?n - 1)) mod ?c = (?p + ?n) mod ?c"
      using n by (simp add: mod_simps)
    ultimately show ?thesis
      using wf c by (simp add: queue_wf_def) (auto simp: q'_def)
  qed
  ultimately show ?thesis
    using v p len n by (simp add: dequeue_body_def q'_def)
qed

section \<open>The interface of a bounded FIFO\<close>

text \<open>
  What the waiting loops of the monitor and the threads of the program rely on: a
  non-full queue takes a value at its end, a non-empty one gives up the value at its front.
\<close>

fun take_many :: "('q \<Rightarrow> ('a \<times> 'q) c_result) \<Rightarrow> nat \<Rightarrow> 'q \<Rightarrow> ('a list \<times> 'q) c_result" where
  "take_many get 0 q = Inr ([], q)"
| "take_many get (Suc n) q =
     c_bind (get q) (\<lambda>(v, q'). c_bind (take_many get n q') (\<lambda>(vs, q''). Inr (v # vs, q'')))"

locale bounded_fifo =
  fixes put :: "'a \<Rightarrow> 'q \<Rightarrow> 'q c_result"
    and get :: "'q \<Rightarrow> ('a \<times> 'q) c_result"
    and items :: "'q \<Rightarrow> 'a list"
    and room :: "'q \<Rightarrow> nat"
    and inv :: "'q \<Rightarrow> bool"
  assumes put_ok: "inv q \<Longrightarrow> length (items q) < room q \<Longrightarrow>
      \<exists>q'. put v q = Inr q' \<and> inv q' \<and> items q' = items q @ [v] \<and> room q' = room q"
    and get_ok: "inv q \<Longrightarrow> items q = v # vs \<Longrightarrow>
      \<exists>q'. get q = Inr (v, q') \<and> inv q' \<and> items q' = vs \<and> room q' = room q"
begin

lemma put_result:
  assumes "inv q" "length (items q) < room q" "put v q = Inr q'"
  shows "inv q' \<and> items q' = items q @ [v] \<and> room q' = room q"
  using put_ok [OF assms(1,2), of v] assms(3) by auto

lemma get_result:
  assumes "inv q" "items q \<noteq> []" "get q = Inr (v, q')"
  shows "inv q' \<and> items q = v # items q' \<and> room q' = room q"
  using get_ok [OF assms(1), of "hd (items q)" "tl (items q)"] assms(2,3) by auto

lemma put_never_faults: "inv q \<Longrightarrow> length (items q) < room q \<Longrightarrow> put v q \<noteq> Inl e"
  using put_ok [of q v] by auto

lemma get_never_faults: "inv q \<Longrightarrow> items q \<noteq> [] \<Longrightarrow> get q \<noteq> Inl e"
  using get_ok [of q "hd (items q)" "tl (items q)"] by auto

lemma put_all:
  "inv q \<Longrightarrow> length (items q) + length vs \<le> room q \<Longrightarrow>
     \<exists>q'. c_fold (\<lambda>q v. put v q) q vs = Inr q' \<and> inv q' \<and> items q' = items q @ vs
       \<and> room q' = room q"
proof (induction vs arbitrary: q)
  case Nil
  then show ?case by simp
next
  case (Cons v vs)
  then obtain q1 where "put v q = Inr q1" "inv q1" "items q1 = items q @ [v]" "room q1 = room q"
    using put_ok [of q v] by auto
  with Cons.IH [of q1] Cons.prems(2) show ?case by auto
qed

text \<open>Taking out as many values as were there gives them in order.\<close>

lemma take_many_ok:
  "inv q \<Longrightarrow> items q = xs @ ys \<Longrightarrow>
     \<exists>q'. take_many get (length xs) q = Inr (xs, q') \<and> inv q' \<and> items q' = ys"
proof (induction xs arbitrary: q)
  case Nil
  then show ?case by simp
next
  case (Cons x xs)
  then obtain q1 where "get q = Inr (x, q1)" "inv q1" "items q1 = xs @ ys"
    using get_ok [of q x "xs @ ys"] by auto
  with Cons.IH [of q1] show ?case by auto
qed

end

interpretation ring: bounded_fifo enqueue_body dequeue_body queue_list q_capacity queue_wf
  by unfold_locales (auto dest: enqueue_body_ok dequeue_body_ok)

text \<open>
  C21: the ring buffer is a bounded FIFO list.  On a well-formed queue, enqueueing into a
  queue that is not full appends at the end, dequeueing from one that is not empty removes
  the front, neither faults, both keep the queue well formed and its capacity; and a
  batch of values that fits an empty queue comes out in the order it went in.
\<close>

theorem ring_queue_refines_list:
  shows "queue_wf q \<Longrightarrow>
    (\<not> queue_full q \<longrightarrow> (\<exists>q'. enqueue_body v q = Inr q' \<and> queue_wf q'
        \<and> queue_list q' = queue_list q @ [v] \<and> q_capacity q' = q_capacity q)) \<and>
    (\<not> queue_empty q \<longrightarrow> (\<exists>q'. dequeue_body q = Inr (hd (queue_list q), q') \<and> queue_wf q'
        \<and> queue_list q' = tl (queue_list q) \<and> q_capacity q' = q_capacity q)) \<and>
    (queue_empty q \<longrightarrow> length vs \<le> q_capacity q \<longrightarrow>
        (\<exists>q1 q2. c_fold (\<lambda>q v. enqueue_body v q) q vs = Inr q1 \<and> q_size q1 = length vs
          \<and> take_many dequeue_body (length vs) q1 = Inr (vs, q2) \<and> queue_empty q2))"
proof (intro conjI impI)
  assume wf: "queue_wf q"
  show "\<exists>q'. enqueue_body v q = Inr q' \<and> queue_wf q' \<and> queue_list q' = queue_list q @ [v]
    \<and> q_capacity q' = q_capacity q" if "\<not> queue_full q"
    using enqueue_body_ok [OF wf, of v] wf that by (auto simp: queue_full_def queue_wf_def)
  show "\<exists>q'. dequeue_body q = Inr (hd (queue_list q), q') \<and> queue_wf q'
    \<and> queue_list q' = tl (queue_list q) \<and> q_capacity q' = q_capacity q" if "\<not> queue_empty q"
    using dequeue_body_ok [OF wf, of "hd (queue_list q)" "tl (queue_list q)"] that
    by (auto simp: queue_empty_list)
  show "\<exists>q1 q2. c_fold (\<lambda>q v. enqueue_body v q) q vs = Inr q1 \<and> q_size q1 = length vs
      \<and> take_many dequeue_body (length vs) q1 = Inr (vs, q2) \<and> queue_empty q2"
    if "queue_empty q" "length vs \<le> q_capacity q"
  proof -
    from that obtain q1 where q1: "c_fold (\<lambda>q v. enqueue_body v q) q vs = Inr q1" "queue_wf q1"
      "queue_list q1 = vs"
      using ring.put_all [OF wf, of vs] by (auto simp: queue_empty_list)
    with ring.take_many_ok [OF q1(2), of vs "[]"] show ?thesis
      by (auto simp: queue_empty_list length_queue_list [symmetric] simp del: length_queue_list)
  qed
qed

theorem ring_queue_refines_list_witness:
  "\<exists>q1 q2. c_fold (\<lambda>q v. enqueue_body v q) (queue_initializer 3) [7, 8, 9 :: nat] = Inr q1
    \<and> q_size q1 = length [7, 8, 9 :: nat]
    \<and> take_many dequeue_body (length [7, 8, 9 :: nat]) q1 = Inr ([7, 8, 9], q2) \<and> queue_empty q2"
proof -
  have wf: "queue_wf (queue_initializer 3 :: nat queue)"
    by (rule queue_wf_initializer) simp
  have "queue_empty (queue_initializer 3 :: nat queue)"
    and "length [7, 8, 9 :: nat] \<le> q_capacity (queue_initializer 3 :: nat queue)"
    by (simp_all add: queue_empty_def queue_initializer_def)
  with ring_queue_refines_list [OF wf, where vs = "[7, 8, 9 :: nat]"]
  show ?thesis by blast
qed

end
