(* ===== verification/Queue_Monitor.thy ===== *)
theory Queue_Monitor
  imports Ring_Queue
begin

text \<open>
  The concurrency of \<open>src/thirdparty/c-pthread-queue/queue.c\<close>: any number of threads call
  \<open>queue_enqueue\<close>, \<open>queue_dequeue\<close> and \<open>queue_size\<close> on one queue.  One step is one thread
  passing one point of the code: calling, taking the mutex, testing the loop condition
  and going to sleep in \<open>pthread_cond_wait\<close> (which releases the mutex in the same step),
  updating the ring, unlocking, and broadcasting after the unlock.  A sleeper woken by a
  broadcast, or spuriously, competes for the mutex again and then re-tests the condition,
  as the \<open>while\<close> loops do.  The two logs are ghost state: the values in the order in which
  they entered and left the ring.
\<close>

section \<open>Threads and steps\<close>

datatype 'a q_op = Enq 'a | Deq | Size

datatype 'a q_pc =
    Outside
  | AtLock "'a q_op"      \<comment> \<open>blocked in \<open>pthread_mutex_lock\<close>, or about to return from a wait\<close>
  | Inside "'a q_op"      \<comment> \<open>holds the mutex, at the test of the loop condition\<close>
  | Asleep "'a q_op"      \<comment> \<open>in \<open>pthread_cond_wait\<close>: \<open>cond_full\<close> for \<open>Enq\<close>, \<open>cond_empty\<close> for \<open>Deq\<close>\<close>
  | Leaving "'a q_op"     \<comment> \<open>ring updated, mutex still held\<close>
  | Signalling "'a q_op"  \<comment> \<open>mutex released, broadcast still to come\<close>

record 'a monitor =
  m_queue :: "'a queue"
  m_mutex :: "nat option"
  m_pc :: "nat \<Rightarrow> 'a q_pc"
  m_entered :: "'a list"
  m_left :: "'a list"

definition set_pc :: "nat \<Rightarrow> 'a q_pc \<Rightarrow> 'a monitor \<Rightarrow> 'a monitor" where
  "set_pc t p s = s\<lparr>m_pc := (m_pc s)(t := p)\<rparr>"

text \<open>\<open>queue_enqueue\<close> broadcasts \<open>cond_empty\<close>, \<open>queue_dequeue\<close> \<open>cond_full\<close>, \<open>queue_size\<close> neither.\<close>

fun wakes :: "'a q_op \<Rightarrow> 'a q_op \<Rightarrow> bool" where
  "wakes (Enq _) Deq = True"
| "wakes Deq (Enq _) = True"
| "wakes _ _ = False"

fun wake :: "'a q_op \<Rightarrow> 'a q_pc \<Rightarrow> 'a q_pc" where
  "wake x (Asleep y) = (if wakes x y then AtLock y else Asleep y)"
| "wake x p = p"

text \<open>The condition of the waiting loop.\<close>

fun must_wait :: "'a q_op \<Rightarrow> 'a queue \<Rightarrow> bool" where
  "must_wait (Enq v) q = queue_full q"
| "must_wait Deq q = queue_empty q"
| "must_wait Size q = False"

inductive mon_step :: "'a monitor \<Rightarrow> 'a monitor \<Rightarrow> bool" where
  call: "m_pc s t = Outside \<Longrightarrow> mon_step s (set_pc t (AtLock x) s)"
| lock: "m_pc s t = AtLock x \<Longrightarrow> m_mutex s = None \<Longrightarrow>
    mon_step s ((set_pc t (Inside x) s)\<lparr>m_mutex := Some t\<rparr>)"
| sleep: "m_pc s t = Inside x \<Longrightarrow> must_wait x (m_queue s) \<Longrightarrow>
    mon_step s ((set_pc t (Asleep x) s)\<lparr>m_mutex := None\<rparr>)"
| enq: "m_pc s t = Inside (Enq v) \<Longrightarrow> \<not> queue_full (m_queue s) \<Longrightarrow>
    enqueue_body v (m_queue s) = Inr q' \<Longrightarrow>
    mon_step s ((set_pc t (Leaving (Enq v)) s)\<lparr>m_queue := q', m_entered := m_entered s @ [v]\<rparr>)"
| deq: "m_pc s t = Inside Deq \<Longrightarrow> \<not> queue_empty (m_queue s) \<Longrightarrow>
    dequeue_body (m_queue s) = Inr (v, q') \<Longrightarrow>
    mon_step s ((set_pc t (Leaving Deq) s)\<lparr>m_queue := q', m_left := m_left s @ [v]\<rparr>)"
| size: "m_pc s t = Inside Size \<Longrightarrow> mon_step s (set_pc t (Leaving Size) s)"
| unlock: "m_pc s t = Leaving x \<Longrightarrow>
    mon_step s ((set_pc t (Signalling x) s)\<lparr>m_mutex := None\<rparr>)"
| broadcast: "m_pc s t = Signalling x \<Longrightarrow>
    mon_step s (s\<lparr>m_pc := (\<lambda>u. if u = t then Outside else wake x (m_pc s u))\<rparr>)"
| spurious: "m_pc s t = Asleep x \<Longrightarrow> mon_step s (set_pc t (AtLock x) s)"

definition mon_init :: "nat \<Rightarrow> 'a monitor" where
  "mon_init n = \<lparr>m_queue = queue_initializer n, m_mutex = None, m_pc = (\<lambda>_. Outside),
     m_entered = [], m_left = []\<rparr>"

inductive mon_reachable :: "nat \<Rightarrow> 'a monitor \<Rightarrow> bool" for n where
  init: "mon_reachable n (mon_init n)"
| step: "mon_reachable n s \<Longrightarrow> mon_step s s' \<Longrightarrow> mon_reachable n s'"

section \<open>Invariant\<close>

definition holds_mutex :: "'a q_pc \<Rightarrow> bool" where
  "holds_mutex p \<longleftrightarrow> (\<exists>x. p = Inside x \<or> p = Leaving x)"

text \<open>A broadcast that will wake the sleepers of \<open>y\<close> is on its way.\<close>

definition wake_pending :: "'a monitor \<Rightarrow> 'a q_op \<Rightarrow> bool" where
  "wake_pending s y \<longleftrightarrow> (\<exists>u x. (m_pc s u = Leaving x \<or> m_pc s u = Signalling x) \<and> wakes x y)"

definition mon_mutex_ok :: "'a monitor \<Rightarrow> bool" where
  "mon_mutex_ok s \<longleftrightarrow> (\<forall>t. holds_mutex (m_pc s t) \<longleftrightarrow> m_mutex s = Some t)"

definition mon_queue_ok :: "nat \<Rightarrow> 'a monitor \<Rightarrow> bool" where
  "mon_queue_ok n s \<longleftrightarrow> queue_wf (m_queue s) \<and> q_capacity (m_queue s) = n
     \<and> m_entered s = m_left s @ queue_list (m_queue s)"

definition mon_wake_ok :: "'a monitor \<Rightarrow> bool" where
  "mon_wake_ok s \<longleftrightarrow>
     (\<forall>t x. m_pc s t = Asleep x \<longrightarrow> must_wait x (m_queue s) \<or> wake_pending s x)"

definition mon_inv :: "nat \<Rightarrow> 'a monitor \<Rightarrow> bool" where
  "mon_inv n s \<longleftrightarrow> mon_mutex_ok s \<and> mon_queue_ok n s \<and> mon_wake_ok s"

lemma holds_mutex_simps [simp]:
  "holds_mutex (Inside x)" "holds_mutex (Leaving x)" "\<not> holds_mutex Outside"
  "\<not> holds_mutex (AtLock x)" "\<not> holds_mutex (Asleep x)" "\<not> holds_mutex (Signalling x)"
  by (simp_all add: holds_mutex_def)

lemma holds_mutex_wake [simp]: "holds_mutex (wake x p) = holds_mutex p"
  by (cases p) auto

lemma wake_eq [simp]:
  "wake x p = Outside \<longleftrightarrow> p = Outside" "wake x p = Inside y \<longleftrightarrow> p = Inside y"
  "wake x p = Leaving y \<longleftrightarrow> p = Leaving y" "wake x p = Signalling y \<longleftrightarrow> p = Signalling y"
  "wake x p = Asleep y \<longleftrightarrow> p = Asleep y \<and> \<not> wakes x y"
  by (cases p; auto)+

lemma set_pc_simps [simp]:
  "m_pc (set_pc t p s) = (m_pc s)(t := p)" "m_queue (set_pc t p s) = m_queue s"
  "m_mutex (set_pc t p s) = m_mutex s" "m_entered (set_pc t p s) = m_entered s"
  "m_left (set_pc t p s) = m_left s"
  by (simp_all add: set_pc_def)

lemma mon_inv_init: "0 < n \<Longrightarrow> mon_inv n (mon_init n)"
  by (simp add: mon_inv_def mon_mutex_ok_def mon_queue_ok_def mon_wake_ok_def mon_init_def
      queue_wf_initializer) (simp add: queue_initializer_def)

lemma mon_step_mutex:
  assumes "mon_step s s'" "mon_mutex_ok s"
  shows "mon_mutex_ok s'"
  using assms by (cases rule: mon_step.cases) (force simp: mon_mutex_ok_def)+

lemma mon_step_queue:
  assumes "mon_step s s'" "mon_queue_ok n s"
  shows "mon_queue_ok n s'"
  using assms
proof (cases rule: mon_step.cases)
  case (enq t v q')
  with assms(2) have "length (queue_list (m_queue s)) < q_capacity (m_queue s)"
    by (auto simp: mon_queue_ok_def queue_wf_def queue_full_def)
  with enq assms(2) show ?thesis
    using ring.put_result [of "m_queue s" v q'] by (auto simp: mon_queue_ok_def)
next
  case (deq t v q')
  with assms(2) show ?thesis
    using ring.get_result [of "m_queue s" v q'] by (auto simp: mon_queue_ok_def queue_empty_list)
qed (auto simp: mon_queue_ok_def)

lemma wakes_iff: "wakes x y \<longleftrightarrow> (\<exists>v. x = Enq v \<and> y = Deq) \<or> (\<exists>v. x = Deq \<and> y = Enq v)"
  by (cases "(x, y)" rule: wakes.cases) auto

lemma wake_pendingI:
  "m_pc s u = Leaving x \<or> m_pc s u = Signalling x \<Longrightarrow> wakes x y \<Longrightarrow> wake_pending s y"
  by (auto simp: wake_pending_def)

lemma mon_wake_okD:
  "mon_wake_ok s \<Longrightarrow> m_pc s t = Asleep x \<Longrightarrow> \<not> must_wait x (m_queue s) \<Longrightarrow>
     \<exists>u y. (m_pc s u = Leaving y \<or> m_pc s u = Signalling y) \<and> wakes y x"
  by (auto simp: mon_wake_ok_def wake_pending_def)

text \<open>A step of a thread that neither wakes anyone nor changes the ring keeps the sleepers' promise.\<close>

lemma mon_wake_ok_move:
  assumes ok: "mon_wake_ok s"
    and q: "m_queue s' = m_queue s" and pc: "m_pc s' = (m_pc s)(t := p)"
    and sleep: "\<And>x. p = Asleep x \<Longrightarrow> must_wait x (m_queue s)"
    and keep: "\<And>y. m_pc s t = Leaving y \<or> m_pc s t = Signalling y \<Longrightarrow> p = Signalling y"
  shows "mon_wake_ok s'"
  unfolding mon_wake_ok_def
proof (intro allI impI)
  fix u x
  assume "m_pc s' u = Asleep x"
  show "must_wait x (m_queue s') \<or> wake_pending s' x"
  proof (cases "u = t \<or> must_wait x (m_queue s)")
    case True
    with \<open>m_pc s' u = Asleep x\<close> sleep show ?thesis by (auto simp: q pc)
  next
    case False
    with \<open>m_pc s' u = Asleep x\<close> mon_wake_okD [OF ok, of u x] obtain w y where
      w: "m_pc s w = Leaving y \<or> m_pc s w = Signalling y" "wakes y x"
      by (auto simp: pc)
    have "m_pc s' w = Leaving y \<or> m_pc s' w = Signalling y"
      using w(1) keep [of y] by (cases "w = t") (auto simp: pc)
    with w(2) show ?thesis by (blast intro: wake_pendingI)
  qed
qed

text \<open>An update wakes every sleeper it may concern; the others' wake-ups are still on their way.\<close>

lemma mon_wake_ok_update:
  assumes ok: "mon_wake_ok s" and t: "m_pc s t = Inside x" and pc: "m_pc s' = (m_pc s)(t := Leaving x)"
    and concerns: "\<And>y. wakes x y \<or> \<not> must_wait y (m_queue s)"
  shows "mon_wake_ok s'"
  unfolding mon_wake_ok_def
proof (intro allI impI)
  fix u y
  assume "m_pc s' u = Asleep y"
  then have su: "m_pc s u = Asleep y" using pc by (auto split: if_splits)
  from concerns [of y] show "must_wait y (m_queue s') \<or> wake_pending s' y"
  proof
    assume "wakes x y"
    with pc show ?thesis using wake_pendingI [of s' t x y] by simp
  next
    assume "\<not> must_wait y (m_queue s)"
    with mon_wake_okD [OF ok su] obtain w z where
      "m_pc s w = Leaving z \<or> m_pc s w = Signalling z" "wakes z y" by blast
    with pc t show ?thesis by - (rule disjI2, rule wake_pendingI [of s' w z y], auto)
  qed
qed

lemma mon_wake_ok_broadcast:
  assumes ok: "mon_wake_ok s" and t: "m_pc s t = Signalling x" and q: "m_queue s' = m_queue s"
    and pc: "m_pc s' = (\<lambda>u. if u = t then Outside else wake x (m_pc s u))"
  shows "mon_wake_ok s'"
  unfolding mon_wake_ok_def
proof (intro allI impI)
  fix u y
  assume "m_pc s' u = Asleep y"
  then have su: "m_pc s u = Asleep y" "\<not> wakes x y" using pc by (auto split: if_splits)
  show "must_wait y (m_queue s') \<or> wake_pending s' y"
  proof (cases "must_wait y (m_queue s)")
    case False
    with mon_wake_okD [OF ok su(1)] obtain w z where
      "m_pc s w = Leaving z \<or> m_pc s w = Signalling z" "wakes z y" by blast
    with pc t su(2) show ?thesis by - (rule disjI2, rule wake_pendingI [of s' w z y], auto)
  qed (simp add: q)
qed

lemma mon_step_wake:
  assumes st: "mon_step s s'" and ok: "mon_wake_ok s"
  shows "mon_wake_ok s'"
  using st
proof (cases rule: mon_step.cases)
  case (enq t v q')
  have "wakes (Enq v) y \<or> \<not> must_wait y (m_queue s)" for y
    using enq by (cases y) auto
  with enq show ?thesis by - (rule mon_wake_ok_update [OF ok, where t = t and x = "Enq v"]; simp)
next
  case (deq t v q')
  have "wakes Deq y \<or> \<not> must_wait y (m_queue s)" for y
    using deq by (cases y) auto
  with deq show ?thesis by - (rule mon_wake_ok_update [OF ok, where t = t and x = Deq]; simp)
next
  case (broadcast t y)
  then show ?thesis by - (rule mon_wake_ok_broadcast [OF ok, where t = t and x = y]; simp)
next
  case (call t x)
  then show ?thesis by - (rule mon_wake_ok_move [OF ok, where t = t and p = "AtLock x"]; simp)
next
  case (lock t x)
  then show ?thesis by - (rule mon_wake_ok_move [OF ok, where t = t and p = "Inside x"]; simp)
next
  case (sleep t x)
  then show ?thesis by - (rule mon_wake_ok_move [OF ok, where t = t and p = "Asleep x"]; simp)
next
  case (size t)
  then show ?thesis by - (rule mon_wake_ok_move [OF ok, where t = t and p = "Leaving Size"]; simp)
next
  case (unlock t x)
  then show ?thesis by - (rule mon_wake_ok_move [OF ok, where t = t and p = "Signalling x"]; simp)
next
  case (spurious t x)
  then show ?thesis by - (rule mon_wake_ok_move [OF ok, where t = t and p = "AtLock x"]; simp)
qed

lemma mon_step_inv: "mon_step s s' \<Longrightarrow> mon_inv n s \<Longrightarrow> mon_inv n s'"
  using mon_step_mutex mon_step_queue mon_step_wake unfolding mon_inv_def by blast

lemma mon_reachable_inv: "mon_reachable n s \<Longrightarrow> 0 < n \<Longrightarrow> mon_inv n s"
  by (induction rule: mon_reachable.induct) (auto intro: mon_inv_init mon_step_inv)

section \<open>A run\<close>

text \<open>
  A taker sleeps on an empty queue of capacity 1, then a putter fills it and has not yet
  unlocked: the state in which the hypotheses of the properties below hold together.
\<close>

definition sleeper_and_putter :: "nat monitor" where
  "sleeper_and_putter =
     \<lparr>m_queue = \<lparr>q_buffer = [Some 5], q_capacity = 1, q_size = 1, q_in = 0, q_out = 0\<rparr>,
      m_mutex = Some 1, m_pc = (\<lambda>_. Outside)(0 := Asleep Deq, 1 := Leaving (Enq 5)),
      m_entered = [5], m_left = []\<rparr>"

lemma sleeper_and_putter_reachable: "mon_reachable 1 sleeper_and_putter"
proof -
  let ?s0 = "mon_init 1 :: nat monitor"
  let ?s1 = "set_pc 0 (AtLock Deq) ?s0"
  let ?s2 = "(set_pc 0 (Inside Deq) ?s1)\<lparr>m_mutex := Some 0\<rparr>"
  let ?s3 = "(set_pc 0 (Asleep Deq) ?s2)\<lparr>m_mutex := None\<rparr>"
  let ?s4 = "set_pc 1 (AtLock (Enq 5)) ?s3"
  let ?s5 = "(set_pc 1 (Inside (Enq 5)) ?s4)\<lparr>m_mutex := Some 1\<rparr>"
  have "mon_reachable 1 ?s0" by (rule mon_reachable.init)
  then have "mon_reachable 1 ?s1"
    by (rule mon_reachable.step) (rule mon_step.call, simp add: mon_init_def)
  then have "mon_reachable 1 ?s2"
    by (rule mon_reachable.step) (rule mon_step.lock; simp add: mon_init_def)
  then have "mon_reachable 1 ?s3"
    by (rule mon_reachable.step)
      (rule mon_step.sleep; simp add: mon_init_def queue_empty_def queue_initializer_def)
  then have "mon_reachable 1 ?s4"
    by (rule mon_reachable.step) (rule mon_step.call, simp add: mon_init_def)
  then have 5: "mon_reachable 1 ?s5"
    by (rule mon_reachable.step) (rule mon_step.lock; simp add: mon_init_def)
  have "mon_step ?s5 ((set_pc 1 (Leaving (Enq 5)) ?s5)\<lparr>m_queue := m_queue sleeper_and_putter,
      m_entered := m_entered ?s5 @ [5]\<rparr>)"
    by (rule mon_step.enq)
      (simp_all add: mon_init_def queue_full_def queue_initializer_def enqueue_body_def
        sleeper_and_putter_def)
  with 5 have "mon_reachable 1 ((set_pc 1 (Leaving (Enq 5)) ?s5)
      \<lparr>m_queue := m_queue sleeper_and_putter, m_entered := m_entered ?s5 @ [5]\<rparr>)"
    by (rule mon_reachable.step)
  moreover have "(set_pc 1 (Leaving (Enq 5)) ?s5)\<lparr>m_queue := m_queue sleeper_and_putter,
      m_entered := m_entered ?s5 @ [5]\<rparr> = sleeper_and_putter"
    by (simp add: mon_init_def sleeper_and_putter_def set_pc_def fun_eq_iff)
  ultimately show ?thesis by simp
qed

section \<open>Properties of every reachable state\<close>

text \<open>
  C15: the queue is a mutual-exclusion, fault-free FIFO channel under any interleaving.  In
  every reachable state at most one thread is between lock and unlock; the values that
  entered are exactly those that left, in the same order, followed by the current content;
  the content never exceeds the capacity; and a thread at the update never faults.
\<close>

theorem monitor_fifo:
  assumes "mon_reachable n s" "0 < n"
  shows "m_entered s = m_left s @ queue_list (m_queue s) \<and> q_size (m_queue s) \<le> n
    \<and> (holds_mutex (m_pc s t) \<longrightarrow> holds_mutex (m_pc s u) \<longrightarrow> t = u)
    \<and> (\<not> queue_full (m_queue s) \<longrightarrow> (\<exists>q'. enqueue_body v (m_queue s) = Inr q'))
    \<and> (\<not> queue_empty (m_queue s) \<longrightarrow> (\<exists>w q'. dequeue_body (m_queue s) = Inr (w, q')))"
proof -
  from mon_reachable_inv [OF assms] have mx: "mon_mutex_ok s" and q: "mon_queue_ok n s"
    by (auto simp: mon_inv_def)
  then have wf: "queue_wf (m_queue s)" by (simp add: mon_queue_ok_def)
  have "\<exists>q'. enqueue_body v (m_queue s) = Inr q'" if "\<not> queue_full (m_queue s)"
    using ring.put_ok [OF wf, of v] that wf by (auto simp: queue_full_def queue_wf_def)
  moreover have "\<exists>w q'. dequeue_body (m_queue s) = Inr (w, q')" if "\<not> queue_empty (m_queue s)"
    using ring.get_ok [OF wf] that by (auto simp: queue_empty_list neq_Nil_conv)
  ultimately show ?thesis
    using mx q by (auto simp: mon_mutex_ok_def mon_queue_ok_def queue_wf_def)
qed

theorem monitor_fifo_witness:
  "m_entered sleeper_and_putter = m_left sleeper_and_putter @ queue_list (m_queue sleeper_and_putter)
    \<and> q_size (m_queue sleeper_and_putter) \<le> 1"
  using monitor_fifo [OF sleeper_and_putter_reachable] by simp

text \<open>
  C19: no wake-up is lost.  Although the broadcasts come after the mutex is released, in
  every reachable state a thread that sleeps in \<open>queue_dequeue\<close> while the queue is not empty
  (or in \<open>queue_enqueue\<close> while it is not full) will be woken: a thread of the opposite
  operation has changed the queue and not yet broadcast.
\<close>

theorem monitor_no_lost_wakeup:
  assumes "mon_reachable n s" "0 < n"
  shows "(m_pc s t = Asleep Deq \<longrightarrow> \<not> queue_empty (m_queue s) \<longrightarrow>
      (\<exists>u v. m_pc s u = Leaving (Enq v) \<or> m_pc s u = Signalling (Enq v)))
    \<and> (m_pc s t = Asleep (Enq w) \<longrightarrow> \<not> queue_full (m_queue s) \<longrightarrow>
      (\<exists>u. m_pc s u = Leaving Deq \<or> m_pc s u = Signalling Deq))"
proof -
  from mon_reachable_inv [OF assms] have "mon_wake_ok s" by (simp add: mon_inv_def)
  from mon_wake_okD [OF this, of t Deq] mon_wake_okD [OF this, of t "Enq w"] show ?thesis
    by (fastforce simp: wakes_iff)
qed

theorem monitor_no_lost_wakeup_witness:
  "\<exists>u v. m_pc sleeper_and_putter u = Leaving (Enq v) \<or> m_pc sleeper_and_putter u = Signalling (Enq v)"
proof -
  have "m_pc sleeper_and_putter 0 = Asleep Deq" "\<not> queue_empty (m_queue sleeper_and_putter)"
    by (simp_all add: sleeper_and_putter_def queue_empty_def)
  with monitor_no_lost_wakeup [OF sleeper_and_putter_reachable, of 0] show ?thesis by simp
qed

definition awake_inside :: "'a q_pc \<Rightarrow> bool" where
  "awake_inside p \<longleftrightarrow> p \<noteq> Outside \<and> (\<forall>x. p \<noteq> Asleep x)"

text \<open>Who is inside, holding the mutex, can go on: wait, or do its operation.\<close>

lemma inside_can_step:
  assumes wf: "queue_wf (m_queue s)" and at: "m_pc s u = Inside x"
  shows "\<exists>s'. mon_step s s' \<and> m_pc s' u \<noteq> m_pc s u"
proof (cases "must_wait x (m_queue s)")
  case True
  from mon_step.sleep [OF at True] at show ?thesis by fastforce
next
  case go: False
  show ?thesis
  proof (cases x)
    case (Enq v)
    with go ring.put_ok [OF wf, of v] wf obtain q' where "enqueue_body v (m_queue s) = Inr q'"
      by (auto simp: queue_full_def queue_wf_def)
    with mon_step.enq [of s u v q'] go at Enq show ?thesis by fastforce
  next
    case Deq
    with go ring.get_ok [OF wf] obtain w q' where "dequeue_body (m_queue s) = Inr (w, q')"
      by (auto simp: queue_empty_list neq_Nil_conv)
    with mon_step.deq [of s u w q'] go at Deq show ?thesis by fastforce
  next
    case Size
    with mon_step.size [of s u] at show ?thesis by fastforce
  qed
qed

lemma awake_can_step:
  assumes inv: "mon_inv n s" and t: "awake_inside (m_pc s t)"
  shows "\<exists>u s'. awake_inside (m_pc s u) \<and> mon_step s s' \<and> m_pc s' u \<noteq> m_pc s u"
proof (cases "m_mutex s")
  case None
  with inv have "\<not> holds_mutex (m_pc s t)"
    by (simp add: mon_inv_def mon_mutex_ok_def)
  with t consider x where "m_pc s t = AtLock x" | x where "m_pc s t = Signalling x"
    by (cases "m_pc s t") (auto simp: awake_inside_def)
  then show ?thesis
  proof cases
    case 1
    from mon_step.lock [OF 1 None] t 1 show ?thesis by fastforce
  next
    case 2
    from mon_step.broadcast [OF 2] t 2 show ?thesis by fastforce
  qed
next
  case (Some u)
  with inv have h: "holds_mutex (m_pc s u)" and wf: "queue_wf (m_queue s)"
    by (auto simp: mon_inv_def mon_mutex_ok_def mon_queue_ok_def)
  from h consider x where "m_pc s u = Inside x" | x where "m_pc s u = Leaving x"
    by (auto simp: holds_mutex_def)
  then show ?thesis
  proof cases
    case (1 x)
    then have "awake_inside (m_pc s u)" by (simp add: awake_inside_def)
    with inside_can_step [OF wf 1] show ?thesis by blast
  next
    case (2 x)
    then have "awake_inside (m_pc s u)" by (simp add: awake_inside_def)
    with mon_step.unlock [OF 2] 2 show ?thesis by fastforce
  qed
qed

text \<open>
  C20: the queue never deadlocks by itself.  In every reachable state either some thread that
  is awake inside an operation can take a step of its own, or every thread inside an
  operation sleeps for good reason: takers on an empty queue, putters on a full one (and,
  the capacity being positive, never both kinds).
\<close>

theorem monitor_no_deadlock:
  assumes "mon_reachable n s" "0 < n"
  shows "(\<exists>u s'. awake_inside (m_pc s u) \<and> mon_step s s' \<and> m_pc s' u \<noteq> m_pc s u)
    \<or> (\<forall>t. m_pc s t = Outside \<or> (m_pc s t = Asleep Deq \<and> queue_empty (m_queue s))
          \<or> (\<exists>v. m_pc s t = Asleep (Enq v) \<and> queue_full (m_queue s)))
      \<and> \<not> (queue_empty (m_queue s) \<and> queue_full (m_queue s))"
proof (cases "\<exists>t. awake_inside (m_pc s t)")
  case True
  with awake_can_step [OF mon_reachable_inv [OF assms]] show ?thesis by blast
next
  case False
  from mon_reachable_inv [OF assms] have wk: "mon_wake_ok s" and q: "mon_queue_ok n s"
    by (auto simp: mon_inv_def)
  have "m_pc s t = Outside \<or> (m_pc s t = Asleep Deq \<and> queue_empty (m_queue s))
    \<or> (\<exists>v. m_pc s t = Asleep (Enq v) \<and> queue_full (m_queue s))" for t
  proof (cases "m_pc s t = Outside")
    case out: False
    with False obtain x where x: "m_pc s t = Asleep x" by (auto simp: awake_inside_def)
    have "must_wait x (m_queue s)"
    proof (rule ccontr)
      assume "\<not> must_wait x (m_queue s)"
      with mon_wake_okD [OF wk x] obtain u y where
        "m_pc s u = Leaving y \<or> m_pc s u = Signalling y" by blast
      then have "awake_inside (m_pc s u)" by (auto simp: awake_inside_def)
      with False show False by blast
    qed
    with x show ?thesis by (cases x) auto
  qed simp
  moreover have "\<not> (queue_empty (m_queue s) \<and> queue_full (m_queue s))"
    using q assms(2) by (auto simp: mon_queue_ok_def queue_empty_def queue_full_def)
  ultimately show ?thesis by blast
qed

theorem monitor_no_deadlock_witness:
  "\<exists>u s'. awake_inside (m_pc sleeper_and_putter u) \<and> mon_step sleeper_and_putter s'
    \<and> m_pc s' u \<noteq> m_pc sleeper_and_putter u"
proof -
  have pc: "m_pc sleeper_and_putter 1 = Leaving (Enq 5)"
    by (simp add: sleeper_and_putter_def)
  from monitor_no_deadlock [OF sleeper_and_putter_reachable zero_less_one] show ?thesis
  proof (elim disjE conjE)
    assume "\<forall>t. m_pc sleeper_and_putter t = Outside \<or>
      (m_pc sleeper_and_putter t = Asleep Deq \<and> queue_empty (m_queue sleeper_and_putter)) \<or>
      (\<exists>v. m_pc sleeper_and_putter t = Asleep (Enq v) \<and> queue_full (m_queue sleeper_and_putter))"
    from this [rule_format, of 1] pc show ?thesis by simp
  qed
qed

end
