(* ===== verification/Line_Reader.thy ===== *)
theory Line_Reader
  imports Buffer
begin

text \<open>
  \<open>stdin_read_cb\<close> of \<open>src/core/main.c\<close>: the callback that reads what Squid wrote, cuts it
  into lines and enqueues one job per line, keeping an unfinished line in \<open>tmp_line_buf\<close>.

  The results of \<open>read (2)\<close> are the environment: a list with one entry per call.  The jobs
  are collected in the order in which \<open>queue_enqueue\<close> is called (waiting for room in the
  queue is the matter of \<open>Queue_Monitor\<close>).  Diagnostics on stderr are left out; what the
  callback prints on stdout, the channel to Squid, is kept.
\<close>

section \<open>State and environment\<close>

definition STDIN_BUF_CHUNKSIZE :: nat where "STDIN_BUF_CHUNKSIZE = 4096"

text \<open>One \<open>read\<close>: the bytes it delivered (none at the end of the input) or an \<open>errno\<close>.\<close>

datatype read_result = ReadBytes string | ReadError int

record reader =
  tmp_line_buf :: "buffer option"
  jobs :: "buffer list"
  rd_stdout :: string
  stdin_watched :: bool

section \<open>The callback\<close>

text \<open>The line that ends at a newline; its NUL is already in place.\<close>

definition take_line :: "block \<Rightarrow> nat \<Rightarrow> buffer option \<Rightarrow> (buffer \<times> buffer option) c_result" where
  "take_line readbuf line_start tmp =
     c_bind (c_deref tmp) (\<lambda>tb.
     if buf_len tb > 0 then
       c_bind (buffer_init_buffer tmp) (\<lambda>line.
       c_bind (buffer_append_string (Some line) (Some (drop line_start readbuf))) (\<lambda>(_, lo).
       c_bind (c_deref lo) (\<lambda>line'.
       c_bind (buffer_reset tmp) (\<lambda>tmp'. Inr (line', tmp')))))
     else
       c_bind (buffer_init_string (Some (drop line_start readbuf))) (\<lambda>line. Inr (line, tmp)))"

text \<open>
  The \<open>for\<close> loop.  After a newline, \<open>line_start = ++i\<close> and the \<open>++i\<close> of the loop header both
  advance \<open>i\<close>: the first character of the next line is not inspected.
\<close>

function scan_loop ::
  "nat \<Rightarrow> nat \<Rightarrow> nat \<Rightarrow> block \<Rightarrow> buffer option \<Rightarrow> buffer list \<Rightarrow>
     (nat \<times> block \<times> buffer option \<times> buffer list) c_result" where
  "scan_loop bytes i line_start readbuf tmp q =
     (if i < bytes then
        c_bind (load_cell readbuf i) (\<lambda>c.
        if c = NL then
          c_bind (store_cell readbuf i NUL) (\<lambda>readbuf'.
          c_bind (take_line readbuf' line_start tmp) (\<lambda>(line, tmp').
          scan_loop bytes (Suc (Suc i)) (Suc i) readbuf' tmp' (q @ [line])))
        else scan_loop bytes (Suc i) line_start readbuf tmp q)
      else Inr (line_start, readbuf, tmp, q))"
  by pat_completeness auto
termination
  by (relation "measure (\<lambda>(bytes, i, line_start, readbuf, tmp, q). bytes - i)") auto

declare scan_loop.simps [simp del]

text \<open>The branch \<open>bytes > 0\<close>; the result says whether the \<open>while\<close> loop goes round again.\<close>

definition read_chunk :: "string \<Rightarrow> block \<Rightarrow> reader \<Rightarrow> (block \<times> reader \<times> bool) c_result" where
  "read_chunk data readbuf s =
     (let bytes = length data in
      c_bind (c_memcpy readbuf 0 (map Some data) bytes) (\<lambda>rb.
      c_bind (c_assert (bytes \<le> STDIN_BUF_CHUNKSIZE - 1)) (\<lambda>_.
      c_bind (store_cell rb bytes NUL) (\<lambda>rb.
      c_bind (scan_loop bytes 0 0 rb (tmp_line_buf s) (jobs s)) (\<lambda>(line_start, rb, tmp, q).
      c_bind (load_cell rb line_start) (\<lambda>c.
      if c \<noteq> NUL then
        c_bind (buffer_append_string_len tmp (Some (drop line_start rb)) (of_nat (bytes - line_start)))
          (\<lambda>(_, tmp'). Inr (rb, s\<lparr>tmp_line_buf := tmp', jobs := q\<rparr>, True))
      else
        c_bind (buffer_reset tmp) (\<lambda>tmp'. Inr (rb, s\<lparr>tmp_line_buf := tmp', jobs := q\<rparr>, False))))))))"

definition eof_message :: string where
  "eof_message = ''GOT 0 BYTES. TERMINATE?'' @ [NL]"

fun read_step :: "read_result \<Rightarrow> block \<Rightarrow> reader \<Rightarrow> (block \<times> reader \<times> bool) c_result" where
  "read_step (ReadBytes data) readbuf s =
     (if data \<noteq> [] then read_chunk data readbuf s
      else Inr (readbuf, s\<lparr>rd_stdout := rd_stdout s @ eof_message, stdin_watched := False\<rparr>, False))"
| "read_step (ReadError err) readbuf s = Inr (readbuf, s, False)"

text \<open>The \<open>while (true)\<close> loop; the flag says whether the callback returned.\<close>

fun read_loop :: "read_result list \<Rightarrow> block \<Rightarrow> reader \<Rightarrow> (reader \<times> read_result list \<times> bool) c_result" where
  "read_loop [] readbuf s = Inr (s, [], False)"
| "read_loop (r # rs) readbuf s =
     c_bind (read_step r readbuf s) (\<lambda>(readbuf', s', again).
     if again then read_loop rs readbuf' s' else Inr (s', rs, True))"

definition stdin_read_cb :: "read_result list \<Rightarrow> reader \<Rightarrow> (reader \<times> read_result list \<times> bool) c_result" where
  "stdin_read_cb rs s =
     c_bind (c_assert (tmp_line_buf s \<noteq> None)) (\<lambda>_.
     read_loop rs (replicate STDIN_BUF_CHUNKSIZE None) s)"

text \<open>The reader as \<open>main\<close> sets it up.\<close>

definition reader_init :: reader where
  "reader_init = \<lparr>tmp_line_buf = Some buffer_init, jobs = [], rd_stdout = [], stdin_watched = True\<rparr>"

lemma read_step_rest: "read_loop rs rb s = Inr (s', rest, True) \<Longrightarrow> length rest < length rs"
proof (induction rs arbitrary: rb s)
  case (Cons r rs)
  then show ?case
    by (auto simp: c_bind_eq_Inr split: if_splits) (metis less_SucI)
qed simp

text \<open>
  The event loop on standard input: while there is something to read and the watcher is
  active, the callback runs again.
\<close>

function stdin_events :: "read_result list \<Rightarrow> reader \<Rightarrow> reader c_result" where
  "stdin_events rs s =
     (if rs = [] \<or> \<not> stdin_watched s then Inr s
      else (case stdin_read_cb rs s of
              Inl e \<Rightarrow> Inl e
            | Inr (s', rest, returned) \<Rightarrow> if returned then stdin_events rest s' else Inr s'))"
  by pat_completeness auto
termination
  by (relation "measure (\<lambda>(rs, s). length rs)")
    (auto simp: stdin_read_cb_def c_bind_eq_Inr dest: read_step_rest)

declare stdin_events.simps [simp del]

section \<open>What one chunk is cut into\<close>

text \<open>
  \<open>scan cur rest\<close>: the current segment has collected \<open>cur\<close>, the bytes \<open>rest\<close> are to come.
  The result are the finished segments and the unfinished one.  The first character of
  a segment that follows a newline belongs to it whatever it is.
\<close>

fun scan :: "string \<Rightarrow> string \<Rightarrow> string list \<times> string" where
  "scan cur [] = ([], cur)"
| "scan cur [c] = (if c = NL then ([cur], []) else ([], cur @ [c]))"
| "scan cur (c # d # ds) =
     (if c = NL then (let (segs, r) = scan [d] ds in (cur # segs, r))
      else scan (cur @ [c]) (d # ds))"

text \<open>The texts of the jobs: the carried-over text \<open>t\<close> comes before the first segment.\<close>

fun line_texts :: "string \<Rightarrow> string list \<Rightarrow> string list" where
  "line_texts t [] = []"
| "line_texts t (s # segs) = (t @ until_nul s) # map until_nul segs"

lemma take_line_ok:
  assumes tb: "buf_holds tb t" and d: "drop ls rb = map Some cur @ Some NUL # junk"
    and sz: "length t + length cur \<le> TEXT_LIMIT"
  shows "\<exists>line tb'. take_line rb ls (Some tb) = Inr (line, Some tb')
    \<and> buf_cstr line (t @ until_nul cur) \<and> buf_holds tb' []"
proof -
  obtain r where r: "drop ls rb = cstr (until_nul cur) @ r"
    using cstr_split [of cur junk] d by auto
  have nn: "NUL \<notin> set (until_nul cur)" by (rule until_nul_no_nul)
  have le: "length (until_nul cur) \<le> length cur" by (rule length_takeWhile_le)
  have repr: "buf_repr tb t" using tb by (simp add: buf_holds_def)
  show ?thesis
  proof (cases "buf_len tb = 0")
    case True
    then have "t = []" using repr by (auto simp: buf_repr_def split: option.splits)
    then show ?thesis
      using True buffer_init_string_ok [OF nn, of r] le sz tb by (auto simp: take_line_def r)
  next
    case False
    then have pos: "buf_len tb > 0" by (simp add: word_gt_0)
    obtain line where line: "buffer_init_buffer (Some tb) = Inr line" "buf_holds line t"
      using buffer_init_buffer_ok [OF repr] sz by auto
    from buf_holds_append_string [OF line(2) nn, of r] le sz obtain line' where
      "buffer_append_string (Some line) (Some (drop ls rb)) = Inr (0, Some line')"
      "buf_cstr line' (t @ until_nul cur)" by (auto simp: r)
    with line pos buffer_reset_ok [OF repr] show ?thesis by (auto simp: take_line_def)
  qed
qed

lemma cell_at:
  assumes "drop ls rb = map Some cur @ c # ys"
  shows "ls + length cur < length rb" "rb ! (ls + length cur) = c"
    "drop (Suc (ls + length cur)) rb = ys"
    "drop ls (rb[ls + length cur := x]) = map Some cur @ x # ys"
    "drop (Suc (ls + length cur)) (rb[ls + length cur := x]) = ys"
proof -
  have "length (drop ls rb) = length (map Some cur @ c # ys)" using assms by (rule arg_cong)
  then show len: "ls + length cur < length rb" by simp
  then have ls: "ls \<le> length rb" by simp
  show "rb ! (ls + length cur) = c"
    using arg_cong [OF assms, of "\<lambda>xs. xs ! length cur"] ls by (simp add: nth_append)
  show d: "drop (Suc (ls + length cur)) rb = ys"
    using arg_cong [OF assms, of "drop (Suc (length cur))"] by (simp add: add.commute)
  show "drop ls (rb[ls + length cur := x]) = map Some cur @ x # ys"
    by (simp add: drop_update_swap assms list_update_append)
  show "drop (Suc (ls + length cur)) (rb[ls + length cur := x]) = ys"
    using d by simp
qed

text \<open>The character the loop looks at, and the line that ends there if it is a newline.\<close>

lemma load_at: "drop ls rb = map Some cur @ Some c # ys \<Longrightarrow> load_cell rb (ls + length cur) = Inr c"
  using cell_at(1,2) [of ls rb cur "Some c" ys] by (simp add: load_cell_def)

lemma newline_step:
  assumes d: "drop ls rb = map Some cur @ Some c # ys" and tb: "buf_holds tb t"
    and sz: "length t + length cur \<le> TEXT_LIMIT"
  defines "rb' \<equiv> rb[ls + length cur := Some NUL]"
  obtains line tb' where "store_cell rb (ls + length cur) NUL = Inr rb'"
    "take_line rb' ls (Some tb) = Inr (line, Some tb')" "buf_cstr line (t @ until_nul cur)" "buf_holds tb' []"
    "drop (Suc (ls + length cur)) rb' = ys"
proof -
  note cell = cell_at [OF d]
  have "store_cell rb (ls + length cur) NUL = Inr rb'"
    using cell(1) by (simp add: store_cell_def rb'_def)
  with take_line_ok [OF tb cell(4) sz] cell(5) that show ?thesis unfolding rb'_def by blast
qed

lemma scan_loop_ok:
  assumes "buf_holds tb t" "drop ls rb = map Some cur @ map Some rest @ Some NUL # junk"
    and "length t + length cur + length rest \<le> TEXT_LIMIT" and "scan cur rest = (segs, rem)"
  shows "\<exists>ls' rb' tb' lines.
    scan_loop (ls + length cur + length rest) (ls + length cur) ls rb (Some tb) q
      = Inr (ls', rb', Some tb', q @ lines)
    \<and> drop ls' rb' = map Some rem @ Some NUL # junk \<and> ls' + length rem = ls + length cur + length rest
    \<and> length rb' = length rb \<and> list_all2 buf_cstr lines (line_texts t segs)
    \<and> buf_holds tb' (if segs = [] then t else [])"
  using assms
proof (induction cur rest arbitrary: ls rb tb t q segs rem rule: scan.induct)
  case (1 cur)
  then show ?case by (subst scan_loop.simps) auto
next
  case (2 cur c)
  then have d: "drop ls rb = map Some cur @ Some c # Some NUL # junk" by simp
  show ?case
  proof (cases "c = NL")
    case True
    obtain line tb' where nl: "store_cell rb (ls + length cur) NUL = Inr (rb[ls + length cur := Some NUL])"
      "take_line (rb[ls + length cur := Some NUL]) ls (Some tb) = Inr (line, Some tb')"
      "buf_cstr line (t @ until_nul cur)" "buf_holds tb' []"
      "drop (Suc (ls + length cur)) (rb[ls + length cur := Some NUL]) = Some NUL # junk"
      using newline_step [OF d "2.prems"(1)] "2.prems"(3) by auto
    show ?thesis
      using True 2 load_at [OF d] nl cell_at(1) [OF d]
      by (subst scan_loop.simps, subst scan_loop.simps) auto
  next
    case False
    then show ?thesis
      using 2 load_at [OF d] by (subst scan_loop.simps, subst scan_loop.simps) auto
  qed
next
  case (3 cur c e ds)
  then have d: "drop ls rb = map Some cur @ Some c # Some e # map Some ds @ Some NUL # junk" by simp
  show ?case
  proof (cases "c = NL")
    case True
    let ?rb = "rb[ls + length cur := Some NUL]"
    obtain line tb' where nl: "store_cell rb (ls + length cur) NUL = Inr ?rb"
      "take_line ?rb ls (Some tb) = Inr (line, Some tb')" "buf_cstr line (t @ until_nul cur)" "buf_holds tb' []"
      "drop (Suc (ls + length cur)) ?rb = map Some [e] @ map Some ds @ Some NUL # junk"
      using newline_step [OF d "3.prems"(1)] "3.prems"(3) by auto
    obtain segs' where segs: "scan [e] ds = (segs', rem)" "segs = cur # segs'"
      using "3.prems"(4) True by (auto split: prod.splits)
    have "line_texts [] segs' = map until_nul segs'" by (cases segs') auto
    then show ?thesis
      using "3.IH"(1) [OF True nl(4,5) _ segs(1), of "q @ [line]"] "3.prems"(3) True load_at [OF d] nl segs(2)
      by (subst scan_loop.simps) (auto split: if_splits)
  next
    case False
    then show ?thesis
      using "3.IH"(2) [OF False "3.prems"(1), of ls rb segs rem q] 3 load_at [OF d]
      by (subst scan_loop.simps) auto
  qed
qed

section \<open>The callback on texts\<close>

text \<open>One chunk: the jobs' texts, the text carried over, and whether the loop reads again.\<close>

definition chunk_text :: "string \<Rightarrow> string \<Rightarrow> string list \<times> string \<times> bool" where
  "chunk_text t data =
     (let (segs, rem) = scan [] data;
          again = (rem \<noteq> [] \<and> hd rem \<noteq> NUL)
      in (line_texts t segs, if again then (if segs = [] then t else []) @ rem else [], again))"

definition reader_holds :: "reader \<Rightarrow> string \<Rightarrow> string list \<Rightarrow> bool" where
  "reader_holds s t ls \<longleftrightarrow>
     (\<exists>tb. tmp_line_buf s = Some tb \<and> buf_holds tb t) \<and> list_all2 buf_cstr (jobs s) ls"

lemma length_scan: "length (snd (scan cur rest)) \<le> length cur + length rest"
  by (induction cur rest rule: scan.induct) (auto simp: Let_def split: prod.splits)

lemma length_chunk_text: "chunk_text t data = (ls, t', again) \<Longrightarrow> length t' \<le> length t + length data"
  using length_scan [of "[]" data] by (auto simp: chunk_text_def Let_def split: prod.splits if_splits)

lemma read_chunk_scan:
  assumes tb: "tmp_line_buf s = Some tb" "buf_holds tb t" and d: "length data < STDIN_BUF_CHUNKSIZE"
    and rb: "length rb = STDIN_BUF_CHUNKSIZE" and sz: "length t + length data \<le> TEXT_LIMIT"
    and sc: "scan [] data = (segs, rem)"
  obtains k rb' tb' lines where
    "read_chunk data rb s =
      (if rem \<noteq> [] \<and> hd rem \<noteq> NUL then
         c_bind (buffer_append_string_len (Some tb') (Some (map Some rem @ Some NUL # drop (Suc (length data)) rb))
             (of_nat (length rem)))
           (\<lambda>(_, tmp'). Inr (rb', s\<lparr>tmp_line_buf := tmp', jobs := jobs s @ lines\<rparr>, True))
       else c_bind (buffer_reset (Some tb'))
           (\<lambda>tmp'. Inr (rb', s\<lparr>tmp_line_buf := tmp', jobs := jobs s @ lines\<rparr>, False)))"
    "length rb' = STDIN_BUF_CHUNKSIZE" "list_all2 buf_cstr lines (line_texts t segs)"
    "buf_holds tb' (if segs = [] then t else [])"
proof -
  let ?n = "length data"
  let ?rb1 = "map Some data @ drop ?n rb" and ?rb2 = "map Some data @ Some NUL # drop (Suc ?n) rb"
  have 1: "c_memcpy rb 0 (map Some data) ?n = Inr ?rb1"
    using d rb by (simp add: c_memcpy_def)
  have "drop ?n rb = rb ! ?n # drop (Suc ?n) rb"
    using d rb by (intro Cons_nth_drop_Suc [symmetric]) simp
  then have 2: "store_cell ?rb1 ?n NUL = Inr ?rb2" by (simp add: store_cell_at)
  from scan_loop_ok [of tb t 0 ?rb2 "[]" data "drop (Suc ?n) rb" segs rem "jobs s"] tb(2) sz sc
  obtain k rb' tb' lines where
    3: "scan_loop ?n 0 0 ?rb2 (Some tb) (jobs s) = Inr (k, rb', Some tb', jobs s @ lines)"
    and k: "drop k rb' = map Some rem @ Some NUL # drop (Suc ?n) rb" "k + length rem = ?n"
    and len: "length rb' = length ?rb2" and lines: "list_all2 buf_cstr lines (line_texts t segs)"
    and tb': "buf_holds tb' (if segs = [] then t else [])"
    by auto
  have load: "load_cell rb' k = Inr (if rem = [] then NUL else hd rem)"
    using k(1) load_at [of k rb' "[]"] by (cases rem) auto
  have asrt: "c_assert (?n \<le> STDIN_BUF_CHUNKSIZE - Suc 0) = Inr ()"
    using d by (simp add: STDIN_BUF_CHUNKSIZE_def)
  have "?n - k = length rem" using k(2) by simp
  then have "read_chunk data rb s =
      (if rem \<noteq> [] \<and> hd rem \<noteq> NUL then
         c_bind (buffer_append_string_len (Some tb') (Some (map Some rem @ Some NUL # drop (Suc ?n) rb))
             (of_nat (length rem)))
           (\<lambda>(_, tmp'). Inr (rb', s\<lparr>tmp_line_buf := tmp', jobs := jobs s @ lines\<rparr>, True))
       else c_bind (buffer_reset (Some tb'))
           (\<lambda>tmp'. Inr (rb', s\<lparr>tmp_line_buf := tmp', jobs := jobs s @ lines\<rparr>, False)))"
    by (simp add: read_chunk_def Let_def 1 2 3 tb(1) load asrt k(1))
  from that [OF this _ lines tb'] len d rb show ?thesis by simp
qed

lemma read_chunk_ok:
  assumes s: "reader_holds s t ls" and d: "length data < STDIN_BUF_CHUNKSIZE"
    and rb: "length rb = STDIN_BUF_CHUNKSIZE" and sz: "length t + length data \<le> TEXT_LIMIT"
    and c: "chunk_text t data = (ls', t', again)"
  shows "\<exists>rb' s'. read_chunk data rb s = Inr (rb', s', again) \<and> length rb' = STDIN_BUF_CHUNKSIZE
    \<and> reader_holds s' t' (ls @ ls') \<and> rd_stdout s' = rd_stdout s \<and> stdin_watched s' = stdin_watched s"
proof -
  from s obtain tb where tb: "tmp_line_buf s = Some tb" "buf_holds tb t"
    and js: "list_all2 buf_cstr (jobs s) ls" by (auto simp: reader_holds_def)
  obtain segs rem where sc: "scan [] data = (segs, rem)" by fastforce
  have out: "ls' = line_texts t segs" "again = (rem \<noteq> [] \<and> hd rem \<noteq> NUL)"
    "t' = (if again then (if segs = [] then t else []) @ rem else [])"
    using c sc by (auto simp: chunk_text_def Let_def)
  show ?thesis
  proof (rule read_chunk_scan [OF tb d rb sz sc])
    fix rb' tb' lines
    assume run: "read_chunk data rb s =
      (if rem \<noteq> [] \<and> hd rem \<noteq> NUL then
         c_bind (buffer_append_string_len (Some tb') (Some (map Some rem @ Some NUL # drop (Suc (length data)) rb))
             (of_nat (length rem)))
           (\<lambda>(_, tmp'). Inr (rb', s\<lparr>tmp_line_buf := tmp', jobs := jobs s @ lines\<rparr>, True))
       else c_bind (buffer_reset (Some tb'))
           (\<lambda>tmp'. Inr (rb', s\<lparr>tmp_line_buf := tmp', jobs := jobs s @ lines\<rparr>, False)))"
      and len: "length rb' = STDIN_BUF_CHUNKSIZE" and lines: "list_all2 buf_cstr lines (line_texts t segs)"
      and tb': "buf_holds tb' (if segs = [] then t else [])"
    have jobs': "list_all2 buf_cstr (jobs s @ lines) (ls @ ls')"
      using js lines out(1) by (simp add: list_all2_appendI)
    show ?thesis
    proof (cases again)
      case True
      from length_scan [of "[]" data] sc have "length (if segs = [] then t else []) + length rem \<le> TEXT_LIMIT"
        using sz by auto
      from buf_holds_append_string_len [OF tb' this, of "Some NUL # drop (Suc (length data)) rb"]
      obtain b2 where "buffer_append_string_len (Some tb')
          (Some (map Some rem @ Some NUL # drop (Suc (length data)) rb)) (of_nat (length rem)) = Inr (0, Some b2)"
        and "buf_holds b2 ((if segs = [] then t else []) @ rem)" by blast
      with True run out jobs' len show ?thesis by (simp add: reader_holds_def)
    next
      case False
      from tb' obtain tb2 where "buffer_reset (Some tb') = Inr (Some tb2)" "buf_holds tb2 []"
        using buffer_reset_ok by (auto simp: buf_holds_def)
      with False run out jobs' len show ?thesis by (auto simp: reader_holds_def)
    qed
  qed
qed

text \<open>All reads up to the end of the input: the jobs' texts and the text carried over.\<close>

fun text_reads :: "read_result list \<Rightarrow> string \<Rightarrow> string list \<times> string" where
  "text_reads [] t = ([], t)"
| "text_reads (ReadError e # rs) t = text_reads rs t"
| "text_reads (ReadBytes data # rs) t =
     (if data = [] then ([], t)
      else (let (ls, t', _) = chunk_text t data; (ls', t'') = text_reads rs t' in (ls @ ls', t'')))"

fun read_size :: "read_result \<Rightarrow> nat" where
  "read_size (ReadBytes data) = length data"
| "read_size (ReadError e) = 0"

text \<open>\<open>read\<close> never returns more than it was asked for.\<close>

fun read_fits :: "read_result \<Rightarrow> bool" where
  "read_fits (ReadBytes data) = (length data < STDIN_BUF_CHUNKSIZE)"
| "read_fits (ReadError e) = True"

definition reads_ok :: "read_result list \<Rightarrow> string \<Rightarrow> bool" where
  "reads_ok rs t \<longleftrightarrow> list_all read_fits rs \<and> length t + sum_list (map read_size rs) \<le> TEXT_LIMIT"

text \<open>
  One callback consumes the reads \<open>used\<close>: what it does to the jobs is what \<open>text_reads\<close>
  says of them, and the reads that are left may be handed to the next callback.
\<close>

definition loop_result ::
  "read_result list \<Rightarrow> reader \<Rightarrow> string \<Rightarrow> reader \<Rightarrow> read_result list \<Rightarrow> bool \<Rightarrow> string \<Rightarrow> string list \<Rightarrow> bool" where
  "loop_result rs s t s' rest returned t' ls' \<longleftrightarrow>
     (if stdin_watched s'
      then rd_stdout s' = rd_stdout s \<and> (\<not> returned \<longrightarrow> rest = [])
        \<and> text_reads rs t = (ls' @ fst (text_reads rest t'), snd (text_reads rest t'))
        \<and> (ReadBytes [] \<in> set rs \<longleftrightarrow> ReadBytes [] \<in> set rest)
      else rd_stdout s' = rd_stdout s @ eof_message \<and> returned \<and> ReadBytes [] \<in> set rs
        \<and> text_reads rs t = (ls', t'))"

lemma loop_result_chunk:
  assumes "data \<noteq> []" "chunk_text t data = (ls1, t1, again)" "rd_stdout s1 = rd_stdout s"
    and "loop_result rs s1 t1 s' rest returned t' ls'"
  shows "loop_result (ReadBytes data # rs) s t s' rest returned t' (ls1 @ ls')"
  using assms by (auto simp: loop_result_def split: if_splits prod.splits)

lemma read_loop_ok:
  assumes "reader_holds s t ls" "reads_ok rs t" "length rb = STDIN_BUF_CHUNKSIZE" "stdin_watched s"
  shows "\<exists>s' rest returned t' ls'. read_loop rs rb s = Inr (s', rest, returned)
    \<and> reader_holds s' t' (ls @ ls') \<and> reads_ok rest t' \<and> loop_result rs s t s' rest returned t' ls'"
  using assms
proof (induction rs arbitrary: rb s t ls)
  case Nil
  then show ?case
    by (intro exI [of _ s] exI [of _ "[]"] exI [of _ False] exI [of _ t]) (simp add: loop_result_def)
next
  case (Cons r rs)
  show ?case
  proof (cases r)
    case (ReadError e)
    with Cons.prems show ?thesis
      by (intro exI [of _ s] exI [of _ rs] exI [of _ True] exI [of _ t] exI [of _ "[]"])
        (simp add: reads_ok_def loop_result_def)
  next
    case (ReadBytes data)
    show ?thesis
    proof (cases "data = []")
      case True
      with ReadBytes Cons.prems show ?thesis
        by (intro exI [of _ "s\<lparr>rd_stdout := rd_stdout s @ eof_message, stdin_watched := False\<rparr>"]
            exI [of _ rs] exI [of _ True] exI [of _ t] exI [of _ "[]"])
          (simp add: reads_ok_def reader_holds_def loop_result_def)
    next
      case False
      obtain ls1 t1 again where c: "chunk_text t data = (ls1, t1, again)" by (metis prod_cases3)
      from Cons.prems ReadBytes have "length data < STDIN_BUF_CHUNKSIZE" "length t + length data \<le> TEXT_LIMIT"
        by (simp_all add: reads_ok_def)
      from read_chunk_ok [OF Cons.prems(1) this(1) Cons.prems(3) this(2) c] obtain rb' s1 where
        step: "read_step r rb s = Inr (rb', s1, again)" and rb': "length rb' = STDIN_BUF_CHUNKSIZE"
        and s1: "reader_holds s1 t1 (ls @ ls1)" "rd_stdout s1 = rd_stdout s" "stdin_watched s1"
        using ReadBytes False Cons.prems(4) by auto
      have ok1: "reads_ok rs t1"
        using Cons.prems(2) ReadBytes length_chunk_text [OF c] by (simp add: reads_ok_def)
      note chunk = loop_result_chunk [OF False c s1(2), folded ReadBytes]
      show ?thesis
      proof (cases again)
        case True
        from Cons.IH [OF s1(1) ok1 rb' s1(3)] obtain s' rest returned t' ls' where
          "read_loop rs rb' s1 = Inr (s', rest, returned)" "reader_holds s' t' ((ls @ ls1) @ ls')"
          "reads_ok rest t'" "loop_result rs s1 t1 s' rest returned t' ls'" by blast
        with step True chunk show ?thesis
          by (intro exI [of _ s'] exI [of _ rest] exI [of _ returned] exI [of _ t'] exI [of _ "ls1 @ ls'"]) simp
      next
        case False
        have "loop_result rs s1 t1 s1 rs True t1 []" using s1(3) by (simp add: loop_result_def)
        from chunk [OF this] step False s1(1) ok1 show ?thesis by auto
      qed
    qed
  qed
qed

text \<open>One callback.\<close>

lemma stdin_read_cb_ok:
  assumes "reader_holds s t ls" "reads_ok rs t" "stdin_watched s" "rs \<noteq> []"
  obtains s' rest returned t' ls' where "stdin_read_cb rs s = Inr (s', rest, returned)"
    "reader_holds s' t' (ls @ ls')" "reads_ok rest t'" "loop_result rs s t s' rest returned t' ls'"
    "length rest < length rs"
proof -
  let ?rb = "replicate STDIN_BUF_CHUNKSIZE None :: block"
  obtain s' rest returned t' ls' where
    run: "read_loop rs ?rb s = Inr (s', rest, returned)"
    and s': "reader_holds s' t' (ls @ ls')" "reads_ok rest t'" and res: "loop_result rs s t s' rest returned t' ls'"
    using read_loop_ok [OF assms(1,2) _ assms(3), of ?rb] by auto
  have "stdin_read_cb rs s = Inr (s', rest, returned)"
    using run assms(1) by (auto simp: stdin_read_cb_def reader_holds_def)
  moreover have "length rest < length rs"
    using run res assms(4) by (cases returned) (auto dest: read_step_rest simp: loop_result_def split: if_splits)
  ultimately show ?thesis using that s' res by blast
qed

lemma stdin_events_ok:
  assumes "reader_holds s t ls" "reads_ok rs t" "stdin_watched s"
  shows "\<exists>s'. stdin_events rs s = Inr s'
    \<and> reader_holds s' (snd (text_reads rs t)) (ls @ fst (text_reads rs t))
    \<and> rd_stdout s' = rd_stdout s @ (if ReadBytes [] \<in> set rs then eof_message else [])
    \<and> (stdin_watched s' \<longleftrightarrow> ReadBytes [] \<notin> set rs)"
  using assms
proof (induction "length rs" arbitrary: rs s t ls rule: less_induct)
  case less
  show ?case
  proof (cases "rs = []")
    case True
    with less.prems show ?thesis by (subst stdin_events.simps) simp
  next
    case False
    from stdin_read_cb_ok [OF less.prems False] obtain s' rest returned t' ls' where
      cb: "stdin_read_cb rs s = Inr (s', rest, returned)"
      and s': "reader_holds s' t' (ls @ ls')" "reads_ok rest t'"
      and res: "loop_result rs s t s' rest returned t' ls'" "length rest < length rs" by blast
    have ev: "stdin_events rs s = (if returned then stdin_events rest s' else Inr s')"
      using False less.prems(3) cb by (subst stdin_events.simps) simp
    consider "\<not> stdin_watched s'" | "stdin_watched s'" "\<not> returned" | "stdin_watched s'" "returned" by blast
    then show ?thesis
    proof cases
      case 1
      then have "stdin_events rest s' = Inr s'" by (subst stdin_events.simps) simp
      with 1 res(1) ev s' show ?thesis by (simp add: loop_result_def)
    next
      case 2
      with res(1) ev s' show ?thesis by (auto simp: loop_result_def)
    next
      case 3
      from less.hyps [OF res(2) s' 3(1)] 3 ev res(1) show ?thesis by (auto simp: loop_result_def)
    qed
  qed
qed

lemma reader_holds_init: "reader_holds reader_init [] []"
  by (simp add: reader_holds_def reader_init_def)

definition job_texts :: "reader \<Rightarrow> string list" where
  "job_texts s = map buf_text (jobs s)"

lemma job_texts_holds: "reader_holds s t ls \<Longrightarrow> job_texts s = ls"
proof -
  assume "reader_holds s t ls"
  then have "list_all2 buf_cstr (jobs s) ls" by (simp add: reader_holds_def)
  then show ?thesis unfolding job_texts_def
    by (induction rule: list_all2_induct) (auto dest: buf_cstrD buf_repr_text)
qed

lemma reader_run:
  assumes "list_all read_fits rs" and "sum_list (map read_size rs) \<le> TEXT_LIMIT"
  obtains s tb where "stdin_events rs reader_init = Inr s" "job_texts s = fst (text_reads rs [])"
    "tmp_line_buf s = Some tb" "buf_text tb = snd (text_reads rs [])"
    "rd_stdout s = (if ReadBytes [] \<in> set rs then eof_message else [])"
    "stdin_watched s \<longleftrightarrow> ReadBytes [] \<notin> set rs" "list_all2 buf_cstr (jobs s) (fst (text_reads rs []))"
proof -
  have "reads_ok rs []" using assms by (simp add: reads_ok_def)
  from stdin_events_ok [OF reader_holds_init this] obtain s where
    s: "stdin_events rs reader_init = Inr s"
      "reader_holds s (snd (text_reads rs [])) (fst (text_reads rs []))"
      "rd_stdout s = (if ReadBytes [] \<in> set rs then eof_message else [])"
      "stdin_watched s \<longleftrightarrow> ReadBytes [] \<notin> set rs"
    by (auto simp: reader_init_def)
  from s(2) obtain tb where "tmp_line_buf s = Some tb" "buf_text tb = snd (text_reads rs [])"
    by (auto simp: reader_holds_def buf_holds_def dest: buf_repr_text)
  moreover have "list_all2 buf_cstr (jobs s) (fst (text_reads rs []))"
    using s(2) by (simp add: reader_holds_def)
  ultimately show ?thesis using s job_texts_holds [OF s(2)] that by blast
qed

text \<open>
  C13: the reader is memory safe and does what its text-level description says, on every
  input.  Whatever bytes arrive (NULs and blank lines included) in whatever chunks of at
  most 4095 bytes, interleaved with read errors and perhaps ended by an end of file, the
  callback invoked by the event loop never faults: no access outside \<open>readbuf\<close> or a buffer,
  no indeterminate byte used, no failed assertion.  The texts of the jobs and the text
  carried over are those of \<open>text_reads\<close>; the end of file prints one line on stdout and
  stops the watcher, and nothing else is printed.
\<close>

theorem reader_refines_text:
  assumes "list_all read_fits rs" and "sum_list (map read_size rs) \<le> TEXT_LIMIT"
  shows "\<exists>s. stdin_events rs reader_init = Inr s \<and> job_texts s = fst (text_reads rs [])
    \<and> (\<exists>tb. tmp_line_buf s = Some tb \<and> buf_text tb = snd (text_reads rs []))
    \<and> rd_stdout s = (if ReadBytes [] \<in> set rs then eof_message else [])
    \<and> (stdin_watched s \<longleftrightarrow> ReadBytes [] \<notin> set rs)"
  by (rule reader_run [OF assms]) blast

theorem reader_refines_text_witness:
  "\<exists>s. stdin_events [ReadBytes (''1 a'' @ [NL] @ ''2''), ReadError 11, ReadBytes ('' b'' @ [NL]), ReadBytes []]
      reader_init = Inr s
    \<and> job_texts s = [''1 a'', ''2 b''] \<and> rd_stdout s = eof_message"
  using reader_refines_text
    [of "[ReadBytes (''1 a'' @ [NL] @ ''2''), ReadError 11, ReadBytes ('' b'' @ [NL]), ReadBytes []]"]
  by (auto simp: STDIN_BUF_CHUNKSIZE_def TEXT_LIMIT_def chunk_text_def)

section \<open>Lines, independently of how the input arrives\<close>

fun split_lines :: "string \<Rightarrow> string \<Rightarrow> string list \<times> string" where
  "split_lines cur [] = ([], cur)"
| "split_lines cur (c # cs) =
     (if c = NL then (let (ls, r) = split_lines [] cs in (cur # ls, r))
      else split_lines (cur @ [c]) cs)"

abbreviation no_blank_line :: "string \<Rightarrow> bool" where
  "no_blank_line s \<equiv> successively (\<lambda>a b. \<not> (a = NL \<and> b = NL)) s"

lemma split_lines_append:
  "split_lines cur (xs @ ys) =
     (let (l1, t1) = split_lines cur xs; (l2, t2) = split_lines t1 ys in (l1 @ l2, t2))"
  by (induction cur xs rule: split_lines.induct) (auto simp: Let_def split: prod.splits)

lemma split_lines_prefix:
  "split_lines (t @ cur) data =
     (case split_lines cur data of (segs, r) \<Rightarrow>
        (case segs of [] \<Rightarrow> ([], t @ r) | s # ss \<Rightarrow> ((t @ s) # ss, r)))"
  by (induction cur data rule: split_lines.induct)
    (auto simp: Let_def append_assoc [symmetric] simp del: append_assoc split: prod.splits list.splits)

lemma scan_split_lines: "no_blank_line rest \<Longrightarrow> scan cur rest = split_lines cur rest"
  by (induction cur rest rule: scan.induct) (auto simp: successively_Cons Let_def)

lemma set_split_lines:
  "split_lines cur data = (segs, r) \<Longrightarrow>
     (\<Union>s \<in> set segs. set s) \<union> set r \<subseteq> set cur \<union> set data"
  by (induction cur data arbitrary: segs r rule: split_lines.induct)
    (force split: if_splits prod.splits)+

lemma split_lines_no_line: "split_lines cur data = ([], r) \<Longrightarrow> r = cur @ data"
  by (induction cur data rule: split_lines.induct) (auto split: if_splits prod.splits)

lemma chunk_text_split_lines:
  assumes "data \<noteq> []" "NUL \<notin> set data" "no_blank_line data"
  shows "\<exists>again. chunk_text t data = (fst (split_lines t data), snd (split_lines t data), again)"
proof -
  obtain segs r where sl: "split_lines [] data = (segs, r)" by fastforce
  have nn: "NUL \<notin> set s" if "s \<in> set segs" for s
    using set_split_lines [OF sl] that assms(2) by auto
  have nr: "r = [] \<or> hd r \<noteq> NUL"
    using set_split_lines [OF sl] assms(2) by (cases r) auto
  have ne: "segs = [] \<longrightarrow> r \<noteq> []"
    using split_lines_no_line [of "[]" data r] sl assms(1) by auto
  have "map until_nul segs = segs" using nn by (intro map_idI) simp
  then show ?thesis
    using split_lines_prefix [of t "[]" data] sl nr ne nn scan_split_lines [OF assms(3), of "[]"]
    by (cases segs) (auto simp: chunk_text_def Let_def)
qed

fun read_data :: "read_result \<Rightarrow> string" where
  "read_data (ReadBytes data) = data"
| "read_data (ReadError e) = []"

lemma text_reads_split_lines:
  assumes "ReadBytes [] \<notin> set rs" "NUL \<notin> set (concat (map read_data rs))"
    "no_blank_line (concat (map read_data rs))"
  shows "text_reads rs t = split_lines t (concat (map read_data rs))"
  using assms
proof (induction rs t rule: text_reads.induct)
  case (3 data rs t)
  then have d: "data \<noteq> []" "NUL \<notin> set data" "no_blank_line data"
    by (auto simp: successively_append_iff)
  obtain again where c: "chunk_text t data = (fst (split_lines t data), snd (split_lines t data), again)"
    using chunk_text_split_lines [OF d] by blast
  have "text_reads rs (snd (split_lines t data))
    = split_lines (snd (split_lines t data)) (concat (map read_data rs))"
    using 3 d c by (intro "3.IH" [OF d(1) c [symmetric] refl refl]) (auto simp: successively_append_iff)
  then show ?case
    using d(1) c by (simp add: split_lines_append split_beta Let_def)
qed auto

lemma sum_read_size: "sum_list (map read_size rs) = length (concat (map read_data rs))"
proof (induction rs)
  case (Cons r rs)
  then show ?case by (cases r) auto
qed simp

definition lines_stream :: "string list \<Rightarrow> string \<Rightarrow> string" where
  "lines_stream ls r = concat (map (\<lambda>l. l @ [NL]) ls) @ r"

definition plain_line :: "string \<Rightarrow> bool" where
  "plain_line l \<longleftrightarrow> l \<noteq> [] \<and> NL \<notin> set l \<and> NUL \<notin> set l"

lemma split_lines_plain: "NL \<notin> set l \<Longrightarrow> split_lines cur l = ([], cur @ l)"
  by (induction l arbitrary: cur) auto

lemma split_lines_stream:
  "list_all plain_line ls \<Longrightarrow> NL \<notin> set r \<Longrightarrow> split_lines [] (lines_stream ls r) = (ls, r)"
proof (induction ls)
  case Nil
  then show ?case by (simp add: lines_stream_def split_lines_plain)
next
  case (Cons l ls)
  have "lines_stream (l # ls) r = l @ [NL] @ lines_stream ls r" by (simp add: lines_stream_def)
  with Cons show ?case by (simp add: split_lines_append split_lines_plain plain_line_def)
qed

lemma successively_no_NL: "NL \<notin> set l \<Longrightarrow> no_blank_line l"
  by (induction l rule: induct_list012) auto

lemma no_blank_stream:
  "list_all plain_line ls \<Longrightarrow> NL \<notin> set r \<Longrightarrow>
     no_blank_line (lines_stream ls r) \<and> (lines_stream ls r \<noteq> [] \<longrightarrow> hd (lines_stream ls r) \<noteq> NL)"
proof (induction ls)
  case Nil
  then show ?case
    using successively_no_NL [of r] by (cases r) (auto simp: lines_stream_def)
next
  case (Cons l ls)
  have "lines_stream (l # ls) r = l @ [NL] @ lines_stream ls r" by (simp add: lines_stream_def)
  moreover from Cons.prems have l: "l \<noteq> []" "NL \<notin> set l" by (auto simp: plain_line_def)
  moreover from l have "hd l \<noteq> NL" "last l \<noteq> NL" by (metis hd_in_set, metis last_in_set)
  moreover from l have "no_blank_line l" by (intro successively_no_NL)
  ultimately show ?case
    using Cons by (auto simp: successively_append_iff successively_Cons)
qed

lemma NUL_lines_stream:
  "list_all plain_line ls \<Longrightarrow> NUL \<notin> set r \<Longrightarrow> NUL \<notin> set (lines_stream ls r)"
  by (induction ls) (auto simp: lines_stream_def plain_line_def)

lemma reader_lines_run:
  assumes "list_all plain_line ls" "plain_line r \<or> r = []"
    and "concat (map read_data rs) = lines_stream ls r"
    and "list_all read_fits rs" "ReadBytes [] \<notin> set rs" "length (lines_stream ls r) \<le> TEXT_LIMIT"
  shows "\<exists>s. stdin_events rs reader_init = Inr s \<and> job_texts s = ls
    \<and> (\<exists>tb. tmp_line_buf s = Some tb \<and> buf_text tb = r) \<and> list_all2 buf_cstr (jobs s) ls"
proof -
  have r: "NL \<notin> set r" "NUL \<notin> set r" using assms(2) by (auto simp: plain_line_def)
  have "sum_list (map read_size rs) = length (concat (map read_data rs))" by (rule sum_read_size)
  then have "sum_list (map read_size rs) \<le> TEXT_LIMIT" using assms(3,6) by simp
  moreover have "text_reads rs [] = (ls, r)"
    using text_reads_split_lines [of rs "[]"] assms r NUL_lines_stream no_blank_stream
      split_lines_stream by auto
  ultimately show ?thesis by (auto intro: reader_run [OF assms(4)])
qed

text \<open>
  C22: lines do not depend on how the input is cut into reads.  When Squid sends the
  non-empty lines \<open>ls\<close> (free of NUL), each ended by a newline, followed by an unfinished
  line \<open>r\<close>, then however the operating system hands the stream out (any chunks, any
  number of \<open>EAGAIN\<close>s in between), exactly the lines \<open>ls\<close> are enqueued, in order, and \<open>r\<close>
  is carried over.
\<close>

theorem reader_lines_any_chunking:
  assumes "list_all plain_line ls" "plain_line r \<or> r = []"
    and "concat (map read_data rs) = lines_stream ls r"
    and "list_all read_fits rs" "ReadBytes [] \<notin> set rs" "length (lines_stream ls r) \<le> TEXT_LIMIT"
  shows "\<exists>s. stdin_events rs reader_init = Inr s \<and> job_texts s = ls
    \<and> (\<exists>tb. tmp_line_buf s = Some tb \<and> buf_text tb = r)"
  using reader_lines_run [OF assms] by blast

theorem reader_lines_any_chunking_witness:
  "\<exists>s. stdin_events [ReadBytes ''1 10.0'', ReadError 11, ReadBytes (''.0.1'' @ [NL] @ ''2 ::1'' @ [NL] @ ''3'')]
      reader_init = Inr s
    \<and> job_texts s = [''1 10.0.0.1'', ''2 ::1'']
    \<and> (\<exists>tb. tmp_line_buf s = Some tb \<and> buf_text tb = ''3'')"
  by (rule reader_lines_any_chunking)
    (simp_all add: plain_line_def lines_stream_def STDIN_BUF_CHUNKSIZE_def TEXT_LIMIT_def)

text \<open>
  A blank line inside one chunk is not seen as a line.  The newline that follows a
  newline is taken into the next line: for two lines \<open>a\<close> and \<open>b\<close> sent with a blank line
  between them in one read, the jobs are \<open>a\<close> and \<open>b\<close> with a newline in front, two jobs
  where three lines were sent; a blank line that ends the chunk is carried over into the
  next line.
\<close>

theorem reader_blank_line:
  assumes "NL \<notin> set a" "NL \<notin> set b" "NUL \<notin> set a" "NUL \<notin> set b"
    and "length a + length b + 3 < STDIN_BUF_CHUNKSIZE"
  shows "(\<exists>s. stdin_events [ReadBytes (a @ [NL, NL] @ b @ [NL])] reader_init = Inr s
      \<and> job_texts s = [a, NL # b])
    \<and> (\<exists>s tb. stdin_events [ReadBytes (a @ [NL, NL])] reader_init = Inr s
      \<and> job_texts s = [a] \<and> tmp_line_buf s = Some tb \<and> buf_text tb = [NL])"
proof -
  have last: "scan cur (x @ [NL]) = ([cur @ x], [])" if "NL \<notin> set x" for cur x
    using that
  proof (induction x arbitrary: cur)
    case (Cons c x)
    then show ?case by (cases x) auto
  qed simp
  have mid: "scan cur (x @ NL # d # ds) = ((cur @ x) # fst (scan [d] ds), snd (scan [d] ds))"
    if "NL \<notin> set x" for cur x d ds
    using that
  proof (induction x arbitrary: cur)
    case (Cons c x)
    then show ?case by (cases x) auto
  qed (simp add: split_beta)
  have sz: "length a + length b + 3 \<le> TEXT_LIMIT"
    using assms(5) by (simp add: TEXT_LIMIT_def STDIN_BUF_CHUNKSIZE_def)
  have "text_reads [ReadBytes (a @ [NL, NL] @ b @ [NL])] [] = ([a, NL # b], [])"
    using mid [of a "[]" NL "b @ [NL]"] last [of b "[NL]"] assms
    by (simp add: chunk_text_def)
  then have "\<exists>s. stdin_events [ReadBytes (a @ [NL, NL] @ b @ [NL])] reader_init = Inr s
      \<and> job_texts s = [a, NL # b]"
    using assms(5) sz by (auto intro: reader_run [of "[ReadBytes (a @ [NL, NL] @ b @ [NL])]"])
  moreover have "text_reads [ReadBytes (a @ [NL, NL])] [] = ([a], [NL])"
    using mid [of a "[]" NL "[]"] assms by (simp add: chunk_text_def)
  then have "\<exists>s tb. stdin_events [ReadBytes (a @ [NL, NL])] reader_init = Inr s
      \<and> job_texts s = [a] \<and> tmp_line_buf s = Some tb \<and> buf_text tb = [NL]"
    using assms(5) sz by (auto intro: reader_run [of "[ReadBytes (a @ [NL, NL])]"])
  ultimately show ?thesis by blast
qed

theorem reader_blank_line_witness:
  "\<exists>s. stdin_events [ReadBytes (''1 ::1'' @ [NL, NL] @ ''2 ::2'' @ [NL])] reader_init = Inr s
    \<and> job_texts s = [''1 ::1'', NL # ''2 ::2'']"
  using reader_blank_line [of "''1 ::1''" "''2 ::2''"] by (simp add: STDIN_BUF_CHUNKSIZE_def)

end
