(* ===== verification/Request.thy ===== *)
theory Request
  imports Buffer "HOL-Library.Char_ord"
begin

text \<open>
  The types of \<open>src/core/webcontrol_base.h\<close>, \<open>webcontrol_request.h\<close> and
  \<open>webcontrol_plugin.h\<close>: handler results, addresses, requests and the plugin's table of
  hooks, together with the printing and parsing of a channel number (\<open>%zu\<close>).

  \<open>inet_pton\<close> and everything behind the plugins (files, memcached, LDAP) are code outside
  the repository: \<open>inet_pton\<close> is a pair of functions \<open>string \<Rightarrow> word option\<close>, one for each
  address family (\<open>None\<close> for the return value 0), and the hooks are functions on a type
  \<open>'w\<close>, the state of the world the plugins act on.
\<close>

section \<open>Handler results\<close>

datatype handler_status =
  HANDLER_GO_ON | HANDLER_ALLOW | HANDLER_DENY | HANDLER_OK | HANDLER_ERROR

text \<open>The numbering of the C enumeration.\<close>

fun status_code :: "handler_status \<Rightarrow> int" where
  "status_code HANDLER_GO_ON = 0"
| "status_code HANDLER_ALLOW = 1"
| "status_code HANDLER_DENY = 2"
| "status_code HANDLER_OK = 3"
| "status_code HANDLER_ERROR = 4"

lemma status_code_inject [simp]: "status_code a = status_code b \<longleftrightarrow> a = b"
  by (cases a; cases b) auto

instantiation handler_status :: linorder
begin

definition "a \<le> b \<longleftrightarrow> status_code a \<le> status_code b"
definition "a < b \<longleftrightarrow> status_code a < status_code b"

instance
  by standard (auto simp: less_eq_handler_status_def less_handler_status_def)

end

section \<open>Addresses and requests\<close>

datatype sa_family = AF_UNSPEC | AF_INET | AF_INET6

text \<open>
  \<open>sockaddr_storage\<close>, seen as \<open>sockaddr_in\<close> or \<open>sockaddr_in6\<close>: the two address fields do not
  overlap, and each is \<open>None\<close> while its bytes are indeterminate.
\<close>

record sockaddr =
  ss_family :: sa_family
  sin_addr :: "32 word option"
  sin6_addr :: "128 word option"

record ipaddr =
  ip_sockaddr :: sockaddr
  ip_str :: block
  ip_str_len :: "size_t option"

record request =
  response_result :: int
  skip_post_handle_request :: bool
  channel :: size_t
  ip_addr :: ipaddr

text \<open>\<open>WEBCONTROL_IPADDRSTRLEN\<close>, \<open>INET6_ADDRSTRLEN\<close> or \<open>INET_ADDRSTRLEN\<close> by the build's \<open>HAVE_IPV6\<close>.\<close>

definition IPADDRSTRLEN :: "bool \<Rightarrow> nat" where
  "IPADDRSTRLEN have_ipv6 = (if have_ipv6 then 46 else 16)"

text \<open>A request the worker hands to the plugins for the address text \<open>a\<close>.\<close>

definition request_wf :: "request \<Rightarrow> string \<Rightarrow> bool" where
  "request_wf r a \<longleftrightarrow>
     NUL \<notin> set a \<and> length a \<le> 45 \<and>
     (\<exists>rest. ip_str (ip_addr r) = cstr a @ rest) \<and>
     ip_str_len (ip_addr r) = Some (of_nat (length a)) \<and>
     (case ss_family (ip_sockaddr (ip_addr r)) of
        AF_INET \<Rightarrow> sin_addr (ip_sockaddr (ip_addr r)) \<noteq> None
      | AF_INET6 \<Rightarrow> sin6_addr (ip_sockaddr (ip_addr r)) \<noteq> None
      | AF_UNSPEC \<Rightarrow> False)"

section \<open>Parsing addresses\<close>

record net_env =
  pton4 :: "string \<Rightarrow> 32 word option"
  pton6 :: "string \<Rightarrow> 128 word option"

definition valid_address :: "bool \<Rightarrow> net_env \<Rightarrow> string \<Rightarrow> bool" where
  "valid_address v6 env a \<longleftrightarrow> v6 \<and> pton6 env a \<noteq> None \<or> pton4 env a \<noteq> None"

text \<open>The binary address the plugins see: IPv6 is tried first.\<close>

definition sockaddr_of :: "bool \<Rightarrow> net_env \<Rightarrow> string \<Rightarrow> sockaddr \<Rightarrow> bool" where
  "sockaddr_of v6 env a sa \<longleftrightarrow>
     (if v6 \<and> pton6 env a \<noteq> None then ss_family sa = AF_INET6 \<and> sin6_addr sa = pton6 env a
      else ss_family sa = AF_INET \<and> sin_addr sa = pton4 env a \<and> pton4 env a \<noteq> None)"

section \<open>Plugins\<close>

record 'w plugin =
  pl_name :: "buffer option"
  pl_plugin_free :: "('w \<Rightarrow> 'w c_result) option"
  pl_thread_init :: "('w \<Rightarrow> (int \<times> 'w) c_result) option"
  pl_thread_free :: "('w \<Rightarrow> 'w c_result) option"
  pl_config_file_parsed :: "('w \<Rightarrow> 'w c_result) option"
  pl_pre_handle_request :: "(request \<Rightarrow> 'w \<Rightarrow> (handler_status \<times> request \<times> 'w) c_result) option"
  pl_handle_request :: "(request \<Rightarrow> 'w \<Rightarrow> (handler_status \<times> request \<times> 'w) c_result) option"
  pl_post_handle_request :: "(request \<Rightarrow> 'w \<Rightarrow> (handler_status \<times> request \<times> 'w) c_result) option"
  pl_options :: "string list option"

text \<open>
  What a hook that is called with a request may do: on a well-formed request it returns
  (it does not fault), keeps the invariant of the world, and leaves the channel and the
  address of the request alone.
\<close>

definition hook_ok ::
  "('w \<Rightarrow> bool) \<Rightarrow> (request \<Rightarrow> 'w \<Rightarrow> (handler_status \<times> request \<times> 'w) c_result) \<Rightarrow> bool" where
  "hook_ok wok h \<longleftrightarrow>
     (\<forall>r w a. request_wf r a \<longrightarrow> wok w \<longrightarrow>
        (\<exists>st r' w'. h r w = Inr (st, r', w') \<and> wok w' \<and> channel r' = channel r \<and> ip_addr r' = ip_addr r))"

definition plugin_ok :: "('w \<Rightarrow> bool) \<Rightarrow> 'w plugin \<Rightarrow> bool" where
  "plugin_ok wok p \<longleftrightarrow>
     (\<forall>h. pl_handle_request p = Some h \<or> pl_post_handle_request p = Some h \<longrightarrow> hook_ok wok h) \<and>
     (\<forall>h w. pl_thread_init p = Some h \<longrightarrow> wok w \<longrightarrow> (\<exists>rc w'. h w = Inr (rc, w') \<and> wok w')) \<and>
     (\<forall>h w. pl_thread_free p = Some h \<longrightarrow> wok w \<longrightarrow> (\<exists>w'. h w = Inr w' \<and> wok w'))"

text \<open>
  The weaker contract: the hook that decides a request may also fault, with faults of the
  kind \<open>bad\<close> only.
\<close>

definition hook_guarded ::
  "('w \<Rightarrow> bool) \<Rightarrow> (fault \<Rightarrow> bool)
     \<Rightarrow> (request \<Rightarrow> 'w \<Rightarrow> (handler_status \<times> request \<times> 'w) c_result) \<Rightarrow> bool" where
  "hook_guarded wok bad h \<longleftrightarrow>
     (\<forall>r w a. request_wf r a \<longrightarrow> wok w \<longrightarrow>
        c_guarded bad (\<lambda>(st, r', w'). wok w' \<and> channel r' = channel r \<and> ip_addr r' = ip_addr r) (h r w))"

definition plugin_guarded :: "('w \<Rightarrow> bool) \<Rightarrow> (fault \<Rightarrow> bool) \<Rightarrow> 'w plugin \<Rightarrow> bool" where
  "plugin_guarded wok bad p \<longleftrightarrow>
     (\<forall>h. pl_handle_request p = Some h \<longrightarrow> hook_guarded wok bad h) \<and>
     (\<forall>h. pl_post_handle_request p = Some h \<longrightarrow> hook_ok wok h) \<and>
     (\<forall>h w. pl_thread_init p = Some h \<longrightarrow> wok w \<longrightarrow> (\<exists>rc w'. h w = Inr (rc, w') \<and> wok w')) \<and>
     (\<forall>h w. pl_thread_free p = Some h \<longrightarrow> wok w \<longrightarrow> (\<exists>w'. h w = Inr w' \<and> wok w'))"

lemma hook_guarded_none: "hook_guarded wok (\<lambda>_. False) h \<longleftrightarrow> hook_ok wok h"
  by (auto simp: hook_guarded_def hook_ok_def c_guarded_total)

lemma plugin_guarded_none: "plugin_guarded wok (\<lambda>_. False) p \<longleftrightarrow> plugin_ok wok p"
  by (auto simp: plugin_guarded_def plugin_ok_def hook_guarded_none)

lemma hook_ok_guarded: "hook_ok wok h \<Longrightarrow> hook_guarded wok bad h"
  unfolding hook_ok_def hook_guarded_def by fastforce

lemma plugin_ok_guarded: "plugin_ok wok p \<Longrightarrow> plugin_guarded wok bad p"
  by (simp add: plugin_ok_def plugin_guarded_def hook_ok_guarded)

lemma hook_guardedE:
  assumes "hook_guarded wok bad h" "request_wf r a" "wok w"
  obtains (fault) e where "h r w = Inl e" "bad e"
    | (result) st r' w' where "h r w = Inr (st, r', w')" "wok w'" "channel r' = channel r" "ip_addr r' = ip_addr r"
proof -
  have "c_guarded bad (\<lambda>(st, r', w'). wok w' \<and> channel r' = channel r \<and> ip_addr r' = ip_addr r) (h r w)"
    using assms unfolding hook_guarded_def by blast
  then show ?thesis by (cases rule: c_guardedE) (use that in auto)
qed

lemma hook_okE:
  assumes "hook_ok wok h" "request_wf r a" "wok w"
  obtains st r' w' where "h r w = Inr (st, r', w')" "wok w'" "channel r' = channel r"
    "ip_addr r' = ip_addr r"
  using assms unfolding hook_ok_def by blast

lemma request_wf_cong: "ip_addr r' = ip_addr r \<Longrightarrow> request_wf r' a = request_wf r a"
  by (simp add: request_wf_def cong: sa_family.case_cong)

section \<open>Channel numbers as text\<close>

text \<open>\<open>isspace\<close> in the C locale.\<close>

definition is_space :: "char \<Rightarrow> bool" where
  "is_space c \<longleftrightarrow> c \<in> {CHR 0x20, CHR 0x09, CHR 0x0A, CHR 0x0B, CHR 0x0C, CHR 0x0D}"

definition is_digit :: "char \<Rightarrow> bool" where
  "is_digit c \<longleftrightarrow> CHR ''0'' \<le> c \<and> c \<le> CHR ''9''"

definition digit_val :: "char \<Rightarrow> nat" where
  "digit_val c = of_char c - 48"

definition digit_char :: "nat \<Rightarrow> char" where
  "digit_char d = char_of (48 + d)"

definition digits_val :: "string \<Rightarrow> nat" where
  "digits_val ds = foldl (\<lambda>n c. 10 * n + digit_val c) 0 ds"

text \<open>The number a \<open>%zu\<close> conversion reads: the value saturates at the largest \<open>size_t\<close>, a minus sign negates it.\<close>

definition strtoul :: "bool \<Rightarrow> string \<Rightarrow> size_t" where
  "strtoul neg ds =
     (let n = digits_val ds
      in if n \<ge> 2 ^ 64 then - 1 else if neg then - of_nat n else of_nat n)"

text \<open>\<open>%zu\<close> in \<open>sscanf\<close>: the number and the input after it, or a matching failure.\<close>

definition scan_zu :: "string \<Rightarrow> (size_t \<times> string) option" where
  "scan_zu s =
     (let s1 = dropWhile is_space s;
          neg = (s1 \<noteq> [] \<and> hd s1 = CHR ''-'');
          s2 = (if s1 \<noteq> [] \<and> hd s1 \<in> {CHR ''-'', CHR ''+''} then tl s1 else s1);
          ds = takeWhile is_digit s2
      in if ds = [] then None else Some (strtoul neg ds, dropWhile is_digit s2))"

text \<open>\<open>%zu\<close> in \<open>fprintf\<close>.\<close>

fun show_nat :: "nat \<Rightarrow> string" where
  "show_nat n = (if n < 10 then [digit_char n] else show_nat (n div 10) @ [digit_char (n mod 10)])"

declare show_nat.simps [simp del]

definition show_zu :: "size_t \<Rightarrow> string" where
  "show_zu n = show_nat (unat n)"

lemma of_char_digit [simp]: "d < 10 \<Longrightarrow> (of_char (digit_char d) :: nat) = 48 + d"
  by (simp add: digit_char_def)

lemma is_digit_digit_char [simp]: "d < 10 \<Longrightarrow> is_digit (digit_char d)"
  by (simp add: is_digit_def less_eq_char_def)

lemma digit_val_digit_char [simp]: "d < 10 \<Longrightarrow> digit_val (digit_char d) = d"
  by (simp add: digit_val_def)

lemma digit_not_space: "is_digit c \<Longrightarrow> \<not> is_space c"
  by (auto simp: is_digit_def is_space_def less_eq_char_def)

lemma digit_not_sign: "is_digit c \<Longrightarrow> c \<noteq> CHR ''-'' \<and> c \<noteq> CHR ''+''"
  by (auto simp: is_digit_def less_eq_char_def)

lemma show_nat_digits: "list_all is_digit (show_nat n) \<and> show_nat n \<noteq> [] \<and> digits_val (show_nat n) = n"
proof (induction n rule: show_nat.induct)
  case (1 n)
  show ?case
  proof (cases "n < 10")
    case True
    then show ?thesis by (subst (1 2 3) show_nat.simps) (simp add: digits_val_def)
  next
    case False
    with 1 show ?thesis
      by (subst (1 2 3) show_nat.simps) (simp add: digits_val_def)
  qed
qed

lemma takeWhile_digits:
  "list_all is_digit ds \<Longrightarrow> r = [] \<or> \<not> is_digit (hd r) \<Longrightarrow>
     takeWhile is_digit (ds @ r) = ds \<and> dropWhile is_digit (ds @ r) = r"
  by (induction ds) (cases r; auto)+

lemma scan_zu_show:
  assumes "r = [] \<or> \<not> is_digit (hd r)" "list_all is_space sp"
  shows "scan_zu (sp @ show_zu n @ r) = Some (n, r)"
proof -
  obtain c ds where ds: "show_zu n = c # ds"
    using show_nat_digits [of "unat n"] by (cases "show_zu n") (auto simp: show_zu_def)
  have dig: "list_all is_digit (show_zu n)" and val: "digits_val (show_zu n) = unat n"
    using show_nat_digits [of "unat n"] by (auto simp: show_zu_def)
  have c: "\<not> is_space c" "c \<noteq> CHR ''-''" "c \<noteq> CHR ''+''"
    using dig ds digit_not_space digit_not_sign by auto
  have "dropWhile is_space (sp @ show_zu n @ r) = show_zu n @ r"
    using assms(2) c ds by (induction sp) auto
  moreover have "unat n < 2 ^ 64" by (rule order_less_le_trans [OF unsigned_less]) simp
  ultimately show ?thesis
    using takeWhile_digits [OF dig assms(1)] c val ds
    by (simp add: scan_zu_def strtoul_def Let_def)
qed

end
