(* ===== verification/Worker.thy ===== *)
theory Worker
  imports Request
begin

text \<open>
  The worker thread of \<open>src/core/main.c\<close>: parsing a job line, resolving the address,
  asking the plugins in order, answering Squid, and the post-request hooks; then the
  thread's life from \<open>thread_init\<close> to its termination message.

  What a worker does to stdout is a list of events, one per locking call and per \<open>fprintf\<close>.
  The state of the world behind the plugins is passed through the hooks.
\<close>

section \<open>Answers\<close>

datatype io_event = LockStdout | UnlockStdout | Print string

definition send_response :: "size_t \<Rightarrow> int \<Rightarrow> string option \<Rightarrow> string" where
  "send_response ch status msg =
     (let status_str = (if status = 0 then ''OK'' else ''ERR'')
      in case msg of
           None \<Rightarrow> show_zu ch @ '' '' @ status_str @ [NL]
         | Some m \<Rightarrow> show_zu ch @ '' '' @ status_str @ '' log='' @ m @ [NL])"

section \<open>From a job line to a request\<close>

text \<open>\<open>malloc\<close>, the assignments and the two \<open>bzero\<close>/\<open>memset\<close> calls; the array is one byte longer than what is cleared.\<close>

definition new_request :: "bool \<Rightarrow> request" where
  "new_request have_ipv6 =
     \<lparr>response_result = -1, skip_post_handle_request = False, channel = 0,
      ip_addr = \<lparr>ip_sockaddr = \<lparr>ss_family = AF_UNSPEC, sin_addr = Some 0, sin6_addr = Some 0\<rparr>,
        ip_str = replicate (IPADDRSTRLEN have_ipv6) (Some NUL) @ [None],
        ip_str_len = None\<rparr>\<rparr>"

text \<open>The token \<open>%<width>s\<close> reads.\<close>

definition scan_token :: "nat \<Rightarrow> string \<Rightarrow> string" where
  "scan_token width s = take width (takeWhile (\<lambda>c. \<not> is_space c) (dropWhile is_space s))"

text \<open>\<open>sscanf (line, "%zu %<width>s", &req->channel, req->ip_addr.str)\<close>.\<close>

definition sscanf_line :: "nat \<Rightarrow> string \<Rightarrow> request \<Rightarrow> request c_result" where
  "sscanf_line width s req =
     (case scan_zu s of
        None \<Rightarrow> Inr req
      | Some (n, r) \<Rightarrow>
          (let req1 = req\<lparr>channel := n\<rparr>; tok = scan_token width r
           in if tok = [] then Inr req1
              else c_bind (c_memcpy (ip_str (ip_addr req1)) 0 (cstr tok) (Suc (length tok))) (\<lambda>blk.
                   Inr (req1\<lparr>ip_addr := (ip_addr req1)\<lparr>ip_str := blk\<rparr>\<rparr>))))"

text \<open>The two \<open>inet_pton\<close> attempts; \<open>False\<close> is the branch that answers at once.\<close>

definition resolve_addr :: "bool \<Rightarrow> net_env \<Rightarrow> request \<Rightarrow> (request \<times> bool) c_result" where
  "resolve_addr have_ipv6 env req =
     c_bind (c_string (ip_str (ip_addr req))) (\<lambda>a.
     let set_sa = (\<lambda>sa. req\<lparr>ip_addr := (ip_addr req)\<lparr>ip_sockaddr := sa\<rparr>\<rparr>);
         sa = ip_sockaddr (ip_addr req)
     in if have_ipv6 \<and> pton6 env a \<noteq> None
        then Inr (set_sa (sa\<lparr>sin6_addr := pton6 env a, ss_family := AF_INET6\<rparr>), True)
        else (case pton4 env a of
                None \<Rightarrow> Inr (req, False)
              | Some x \<Rightarrow> Inr (set_sa (sa\<lparr>sin_addr := Some x, ss_family := AF_INET\<rparr>), True)))"

section \<open>Asking the plugins\<close>

fun run_handlers :: "'w plugin list \<Rightarrow> request \<Rightarrow> 'w \<Rightarrow> (request \<times> 'w) c_result" where
  "run_handlers [] req w = Inr (req, w)"
| "run_handlers (p # ps) req w =
     (case pl_handle_request p of
        None \<Rightarrow> run_handlers ps req w
      | Some h \<Rightarrow>
          c_bind (h req w) (\<lambda>(status, req', w').
          let req'' = req'\<lparr>response_result := status_code status\<rparr>
          in if status \<noteq> HANDLER_GO_ON then Inr (req'', w') else run_handlers ps req'' w'))"

text \<open>The \<open>switch\<close>: the answer, and whether the post-request hooks are still considered.\<close>

definition answer :: "bool \<Rightarrow> request \<Rightarrow> string \<times> bool" where
  "answer deny_by_default req =
     (if response_result req = status_code HANDLER_ALLOW
      then (send_response (channel req) 0 None, True)
      else if response_result req = status_code HANDLER_DENY
      then (send_response (channel req) (-1) (Some ''DENIED''), True)
      else (send_response (channel req) (if deny_by_default then -1 else 0) (Some ''UNKNOWN ERR''), False))"

fun run_post_handlers :: "'w plugin list \<Rightarrow> request \<Rightarrow> 'w \<Rightarrow> (request \<times> 'w) c_result" where
  "run_post_handlers [] req w = Inr (req, w)"
| "run_post_handlers (p # ps) req w =
     (case pl_post_handle_request p of
        None \<Rightarrow> run_post_handlers ps req w
      | Some h \<Rightarrow> c_bind (h req w) (\<lambda>(_, req', w'). run_post_handlers ps req' w'))"

record 'w core =
  core_plugins :: "'w plugin list"
  core_deny_by_default :: bool
  core_have_ipv6 :: bool

text \<open>From the line to the request the plugins are asked about, or the one that is refused (\<open>False\<close>).\<close>

definition parse_job :: "bool \<Rightarrow> net_env \<Rightarrow> buffer \<Rightarrow> (request \<times> bool) c_result" where
  "parse_job have_ipv6 env line =
     c_bind (c_deref (buf_ptr line)) (\<lambda>blk.
     c_bind (c_string blk) (\<lambda>s.
     c_bind (sscanf_line (if have_ipv6 then 45 else 15) s (new_request have_ipv6)) (\<lambda>req.
     c_bind (resolve_addr have_ipv6 env req) (\<lambda>(req, valid).
     if \<not> valid then Inr (req, False)
     else
       c_bind (c_strlen (ip_str (ip_addr req))) (\<lambda>n.
       Inr (req\<lparr>ip_addr := (ip_addr req)\<lparr>ip_str_len := Some (of_nat n)\<rparr>\<rparr>, True))))))"

definition refuse :: "request \<Rightarrow> io_event list" where
  "refuse req =
     [LockStdout, Print (send_response (channel req) (-1) (Some ''Valid IP address expected'')), UnlockStdout]"

definition worker_request :: "'w core \<Rightarrow> net_env \<Rightarrow> buffer \<Rightarrow> 'w \<Rightarrow> (io_event list \<times> 'w) c_result" where
  "worker_request core env line w =
     c_bind (parse_job (core_have_ipv6 core) env line) (\<lambda>(req, valid).
     if \<not> valid then Inr (refuse req, w)
     else
       c_bind (run_handlers (core_plugins core) req w) (\<lambda>(req, w).
       let (out, go_on) = answer (core_deny_by_default core) req in
       if go_on \<and> \<not> skip_post_handle_request req then
         c_bind (run_post_handlers (core_plugins core) req w) (\<lambda>(_, w). Inr ([Print out], w))
       else Inr ([Print out], w)))"

section \<open>The life of a worker\<close>

text \<open>The \<open>thread_init\<close> hooks, up to the first one that fails.\<close>

fun run_thread_init :: "'w plugin list \<Rightarrow> 'w \<Rightarrow> (bool \<times> 'w) c_result" where
  "run_thread_init [] w = Inr (True, w)"
| "run_thread_init (p # ps) w =
     (case pl_thread_init p of
        None \<Rightarrow> run_thread_init ps w
      | Some h \<Rightarrow> c_bind (h w) (\<lambda>(rc, w'). if rc \<noteq> 0 then Inr (False, w') else run_thread_init ps w'))"

fun run_thread_free :: "'w plugin list \<Rightarrow> 'w \<Rightarrow> 'w c_result" where
  "run_thread_free [] w = Inr w"
| "run_thread_free (p # ps) w =
     (case pl_thread_free p of
        None \<Rightarrow> run_thread_free ps w
      | Some h \<Rightarrow> c_bind (h w) (\<lambda>w'. run_thread_free ps w'))"

text \<open>
  The \<open>while (1)\<close> loop on the values \<open>queue_dequeue\<close> delivers to this worker; a null pointer
  ends it, running out of values means that it waits in \<open>queue_dequeue\<close> (\<open>False\<close>).
\<close>

fun worker_loop ::
  "'w core \<Rightarrow> net_env \<Rightarrow> buffer option list \<Rightarrow> 'w \<Rightarrow> (io_event list \<times> 'w \<times> bool \<times> buffer option list) c_result" where
  "worker_loop core env [] w = Inr ([], w, False, [])"
| "worker_loop core env (None # js) w = Inr ([], w, True, js)"
| "worker_loop core env (Some line # js) w =
     c_bind (worker_request core env line w) (\<lambda>(out, w').
     c_bind (worker_loop core env js w') (\<lambda>(outs, rest). Inr (out @ outs, rest)))"

text \<open>
  The thread function: the events on stdout, the world, whether the thread terminated (it
  then has sent \<open>WORKER_TERMINATE\<close> and run the \<open>thread_free\<close> hooks), and the jobs not taken.
\<close>

definition worker :: "'w core \<Rightarrow> net_env \<Rightarrow> buffer option list \<Rightarrow> 'w \<Rightarrow>
    (io_event list \<times> 'w \<times> bool \<times> buffer option list) c_result" where
  "worker core env js w =
     c_bind (run_thread_init (core_plugins core) w) (\<lambda>(ready, w1).
     c_bind (if ready then worker_loop core env js w1 else Inr ([], w1, True, js)) (\<lambda>(out, w2, terminated, rest).
     if terminated then c_bind (run_thread_free (core_plugins core) w2) (\<lambda>w3. Inr (out, w3, True, rest))
     else Inr (out, w2, False, rest)))"

section \<open>From the line to the request\<close>

definition line_channel :: "string \<Rightarrow> size_t" where
  "line_channel s = (case scan_zu s of None \<Rightarrow> 0 | Some (n, r) \<Rightarrow> n)"

definition line_address :: "bool \<Rightarrow> string \<Rightarrow> string" where
  "line_address v6 s = (case scan_zu s of None \<Rightarrow> [] | Some (n, r) \<Rightarrow> scan_token (if v6 then 45 else 15) r)"

definition parsed_request :: "bool \<Rightarrow> net_env \<Rightarrow> string \<Rightarrow> request \<Rightarrow> bool" where
  "parsed_request v6 env s req \<longleftrightarrow>
     request_wf req (line_address v6 s) \<and> channel req = line_channel s \<and> response_result req = -1
     \<and> \<not> skip_post_handle_request req
     \<and> sockaddr_of v6 env (line_address v6 s) (ip_sockaddr (ip_addr req))"

text \<open>The post-request hooks are considered after an ALLOW or a DENY only.\<close>

definition wants_post :: "request \<Rightarrow> bool" where
  "wants_post r \<longleftrightarrow>
     response_result r \<in> {status_code HANDLER_ALLOW, status_code HANDLER_DENY}
     \<and> \<not> skip_post_handle_request r"

definition printed :: "io_event list \<Rightarrow> string list" where
  "printed es = concat (map (\<lambda>e. case e of Print s \<Rightarrow> [s] | _ \<Rightarrow> []) es)"

lemma printed_simps [simp]:
  "printed [] = []" "printed (Print s # es) = s # printed es"
  "printed (LockStdout # es) = printed es" "printed (UnlockStdout # es) = printed es"
  "printed (es @ fs) = printed es @ printed fs"
  by (simp_all add: printed_def)

lemma set_scan_zu: "scan_zu s = Some (n, r) \<Longrightarrow> set r \<subseteq> set s"
proof -
  assume "scan_zu s = Some (n, r)"
  then have "r = dropWhile is_digit (dropWhile is_space s) \<or>
      r = dropWhile is_digit (tl (dropWhile is_space s)) \<and> dropWhile is_space s \<noteq> []"
    by (auto simp: scan_zu_def Let_def split: if_splits)
  then show ?thesis by (auto dest!: set_dropWhileD list.set_sel(2) [rotated])
qed

lemma NUL_line_address: "NUL \<notin> set s \<Longrightarrow> NUL \<notin> set (line_address v6 s)"
  unfolding line_address_def scan_token_def
  by (auto split: option.splits dest: set_scan_zu [OF sym] set_scan_zu
      dest!: in_set_takeD set_takeWhileD set_dropWhileD)

lemma length_line_address: "length (line_address v6 s) \<le> (if v6 then 45 else 15)"
  by (auto simp: line_address_def scan_token_def split: option.splits)

lemma sscanf_line_ok:
  "\<exists>req rest. sscanf_line (if v6 then 45 else 15) s (new_request v6) = Inr req
    \<and> channel req = line_channel s \<and> ip_str (ip_addr req) = cstr (line_address v6 s) @ rest
    \<and> skip_post_handle_request req = False \<and> response_result req = -1
    \<and> ip_sockaddr (ip_addr req) = ip_sockaddr (ip_addr (new_request v6))"
proof -
  have blank: "\<exists>rest. ip_str (ip_addr (new_request v6)) = cstr [] @ rest"
    by (simp add: new_request_def IPADDRSTRLEN_def cstr_def numeral_eq_Suc)
  have len: "Suc (if v6 then 45 else 15) \<le> length (ip_str (ip_addr (new_request v6)))"
    by (simp add: new_request_def IPADDRSTRLEN_def)
  show ?thesis
  proof (cases "line_address v6 s = []")
    case True
    with blank show ?thesis
      by (auto simp: sscanf_line_def line_address_def line_channel_def new_request_def split: option.splits)
  next
    case False
    then obtain n r where nr: "scan_zu s = Some (n, r)" "line_address v6 s = scan_token (if v6 then 45 else 15) r"
      by (auto simp: line_address_def split: option.splits)
    let ?tok = "line_address v6 s" and ?blk = "ip_str (ip_addr (new_request v6))"
    have "Suc (length ?tok) \<le> length ?blk"
      using len length_line_address [of v6 s] by simp
    then have "c_memcpy ?blk 0 (cstr ?tok) (Suc (length ?tok)) = Inr (cstr ?tok @ drop (Suc (length ?tok)) ?blk)"
      by (simp add: mem_simps cstr_simps take_cstr [where r = "[]", simplified])
    then show ?thesis
      using nr False by (simp add: sscanf_line_def line_channel_def Let_def new_request_def)
  qed
qed

lemma resolve_addr_ok:
  assumes "NUL \<notin> set a" "ip_str (ip_addr req) = cstr a @ rest"
  shows "\<exists>req'. resolve_addr v6 env req = Inr (req', valid_address v6 env a)
    \<and> channel req' = channel req \<and> ip_str (ip_addr req') = cstr a @ rest
    \<and> skip_post_handle_request req' = skip_post_handle_request req
    \<and> response_result req' = response_result req
    \<and> (valid_address v6 env a \<longrightarrow> sockaddr_of v6 env a (ip_sockaddr (ip_addr req')))"
  using assms
  by (auto simp: resolve_addr_def cstr_simps Let_def valid_address_def sockaddr_of_def split: option.splits)

text \<open>The replies a worker may print for the channel \<open>n\<close>.\<close>

definition squid_reply :: "size_t \<Rightarrow> string \<Rightarrow> bool" where
  "squid_reply n out \<longleftrightarrow>
     out \<in> {send_response n 0 None, send_response n (-1) (Some ''DENIED''),
       send_response n (-1) (Some ''UNKNOWN ERR''), send_response n 0 (Some ''UNKNOWN ERR''),
       send_response n (-1) (Some ''Valid IP address expected'')}"

lemma squid_reply_answer: "squid_reply (channel r) (fst (answer d r))"
  by (simp add: answer_def squid_reply_def)

lemma squid_reply_address: "squid_reply n (send_response n (-1) (Some ''Valid IP address expected''))"
  by (simp add: squid_reply_def)

lemma NL_not_in_show_zu: "NL \<notin> set (show_zu n)"
proof
  assume "NL \<in> set (show_zu n)"
  then have "is_digit NL"
    using show_nat_digits [of "unat n"] by (auto simp: show_zu_def list_all_iff)
  then show False by (simp add: is_digit_def less_eq_char_def)
qed

lemma squid_reply_line:
  assumes "squid_reply n out"
  shows "\<exists>l r. out = l @ [NL] \<and> NL \<notin> set l \<and> scan_zu out = Some (n, r)"
proof -
  from assms obtain body where body: "out = show_zu n @ (CHR '' '' # body) @ [NL]" "NL \<notin> set body"
    by (auto simp: squid_reply_def send_response_def)
  have "scan_zu out = Some (n, (CHR '' '' # body) @ [NL])"
    using scan_zu_show [of "(CHR '' '' # body) @ [NL]" "[]" n] body(1)
    by (simp add: is_digit_def less_eq_char_def)
  moreover have "NL \<notin> set (show_zu n @ CHR '' '' # body)"
    using body(2) NL_not_in_show_zu [of n] by simp
  moreover have "out = (show_zu n @ CHR '' '' # body) @ [NL]" using body(1) by simp
  ultimately show ?thesis by blast
qed

text \<open>What follows once the handlers have run: the answer and the post-request hooks.\<close>

definition respond :: "'w core \<Rightarrow> request \<times> 'w \<Rightarrow> (io_event list \<times> 'w) c_result" where
  "respond core rw =
     (if wants_post (fst rw)
      then c_bind (run_post_handlers (core_plugins core) (fst rw) (snd rw)) (\<lambda>(_, w).
           Inr ([Print (fst (answer (core_deny_by_default core) (fst rw)))], w))
      else Inr ([Print (fst (answer (core_deny_by_default core) (fst rw)))], snd rw))"

text \<open>The request of a line, the same for every chain of plugins.\<close>

lemma parse_job_ok:
  assumes line: "buf_cstr line t"
  defines "s \<equiv> until_nul t"
  shows "\<exists>req. parse_job v6 env line = Inr (req, valid_address v6 env (line_address v6 s))
    \<and> channel req = line_channel s
    \<and> (valid_address v6 env (line_address v6 s) \<longrightarrow> parsed_request v6 env s req)"
proof -
  let ?a = "line_address v6 s"
  obtain blk where blk: "buf_ptr line = Some blk" "c_string blk = Inr s"
    using buf_cstr_string [OF line] unfolding s_def by metis
  have s: "NUL \<notin> set s" unfolding s_def by (rule until_nul_no_nul)
  have a: "NUL \<notin> set ?a" using s by (rule NUL_line_address)
  obtain r0 rest where r0: "sscanf_line (if v6 then 45 else 15) s (new_request v6) = Inr r0"
    "channel r0 = line_channel s" "ip_str (ip_addr r0) = cstr ?a @ rest"
    "\<not> skip_post_handle_request r0" "response_result r0 = -1"
    using sscanf_line_ok [of v6 s] by auto
  obtain r1 where r1: "resolve_addr v6 env r0 = Inr (r1, valid_address v6 env ?a)"
    "channel r1 = line_channel s" "ip_str (ip_addr r1) = cstr ?a @ rest"
    "\<not> skip_post_handle_request r1" "response_result r1 = -1"
    "valid_address v6 env ?a \<longrightarrow> sockaddr_of v6 env ?a (ip_sockaddr (ip_addr r1))"
    using resolve_addr_ok [OF a r0(3), of v6 env] r0 by auto
  show ?thesis
  proof (cases "valid_address v6 env ?a")
    case False
    then show ?thesis
      using blk r0(1) r1 by (simp add: parse_job_def)
  next
    case True
    let ?req = "r1\<lparr>ip_addr := (ip_addr r1)\<lparr>ip_str_len := Some (of_nat (length ?a))\<rparr>\<rparr>"
    have "length ?a \<le> 45" using length_line_address [of v6 s] by (auto split: if_splits)
    then have "parsed_request v6 env s ?req"
      using True r1 a unfolding parsed_request_def request_wf_def
      by (auto simp: sockaddr_of_def split: if_splits)
    then show ?thesis
      using blk r0(1) r1 True by (simp add: parse_job_def c_strlen_cstr [OF a])
  qed
qed

lemma worker_request_run:
  assumes line: "buf_cstr line t"
  defines "s \<equiv> until_nul t"
  shows "if valid_address v6 env (line_address v6 s)
    then \<exists>req. parsed_request v6 env s req
      \<and> (\<forall>(core :: 'w core) w. core_have_ipv6 core = v6 \<longrightarrow>
           worker_request core env line w = c_bind (run_handlers (core_plugins core) req w) (respond core))
    else \<forall>(core :: 'w core) w. core_have_ipv6 core = v6 \<longrightarrow> worker_request core env line w =
      Inr ([LockStdout, Print (send_response (line_channel s) (-1) (Some ''Valid IP address expected'')),
            UnlockStdout], w)"
proof -
  obtain req where req: "parse_job v6 env line = Inr (req, valid_address v6 env (line_address v6 s))"
    "channel req = line_channel s" "valid_address v6 env (line_address v6 s) \<longrightarrow> parsed_request v6 env s req"
    using parse_job_ok [OF line, of v6 env] unfolding s_def by blast
  show ?thesis
  proof (cases "valid_address v6 env (line_address v6 s)")
    case False
    with req show ?thesis by (simp add: worker_request_def refuse_def)
  next
    case True
    have post: "wants_post r \<longleftrightarrow> snd (answer d r) \<and> \<not> skip_post_handle_request r" for r d
      by (auto simp: wants_post_def answer_def)
    have "worker_request core env line w = c_bind (run_handlers (core_plugins core) req w) (respond core)"
      if v6: "core_have_ipv6 core = v6" for core :: "'w core" and w
      unfolding worker_request_def v6 req(1) c_bind.simps prod.case
      using True by (auto simp: respond_def post [where d = "core_deny_by_default core"] split_beta Let_def
          intro!: c_bind_cong)
    with req(3) True show ?thesis by auto
  qed
qed

lemma worker_request_invalid:
  fixes core :: "'w core"
  assumes "buf_cstr line t"
    and "\<not> valid_address (core_have_ipv6 core) env (line_address (core_have_ipv6 core) (until_nul t))"
  shows "worker_request core env line w =
    Inr ([LockStdout, Print (send_response (line_channel (until_nul t)) (-1) (Some ''Valid IP address expected'')),
          UnlockStdout], w)"
  using worker_request_run [where 'w = 'w, OF assms(1), of "core_have_ipv6 core" env] assms(2) by simp

lemma worker_request_valid:
  fixes core :: "'w core"
  assumes "buf_cstr line t"
    and "valid_address (core_have_ipv6 core) env (line_address (core_have_ipv6 core) (until_nul t))"
  obtains req where "parsed_request (core_have_ipv6 core) env (until_nul t) req"
    "\<And>w. worker_request core env line w = c_bind (run_handlers (core_plugins core) req w) (respond core)"
  using worker_request_run [where 'w = 'w, OF assms(1), of "core_have_ipv6 core" env] assms(2) that by auto

section \<open>What the worker relies on\<close>

text \<open>
  The contract between the worker and its plugins: each hook, called on a well-formed
  request in a world that satisfies the plugins' invariant, returns, keeps the invariant
  and leaves the channel and the address alone; the hook that decides may also fault, with
  faults of the kind \<open>bad\<close> only.
\<close>

locale guarded_chain =
  fixes wok :: "'w \<Rightarrow> bool" and plugins :: "'w plugin list" and bad :: "fault \<Rightarrow> bool"
  assumes plugins_guarded: "p \<in> set plugins \<Longrightarrow> plugin_guarded wok bad p"
begin

lemma run_handlers_guarded:
  "set ps \<subseteq> set plugins \<Longrightarrow> request_wf req a \<Longrightarrow> wok w \<Longrightarrow>
     c_guarded bad (\<lambda>(req', w'). wok w' \<and> channel req' = channel req \<and> ip_addr req' = ip_addr req) (run_handlers ps req w)"
proof (induction ps arbitrary: req w)
  case (Cons p ps)
  show ?case
  proof (cases "pl_handle_request p")
    case (Some h)
    with Cons.prems(1) plugins_guarded have "hook_guarded wok bad h" by (auto simp: plugin_guarded_def)
    from this Cons.prems(2,3) show ?thesis
    proof (cases rule: hook_guardedE)
      case (result st r' w')
      let ?r = "r'\<lparr>response_result := status_code st\<rparr>"
      have "request_wf ?r a"
        using Cons.prems(2) result(4) by (simp add: request_wf_cong [of ?r req])
      with Cons.IH [of ?r w'] Cons.prems(1) result Some show ?thesis by (auto simp: Let_def elim: c_guarded_mono)
    qed (simp add: Some)
  qed (use Cons in auto)
qed auto

lemma post_handlers_guarded:
  "set ps \<subseteq> set plugins \<Longrightarrow> request_wf req a \<Longrightarrow> wok w \<Longrightarrow>
     \<exists>req' w'. run_post_handlers ps req w = Inr (req', w') \<and> wok w'"
proof (induction ps arbitrary: req w)
  case (Cons p ps)
  show ?case
  proof (cases "pl_post_handle_request p")
    case (Some h)
    with Cons.prems(1) plugins_guarded have "hook_ok wok h" by (auto simp: plugin_guarded_def)
    from hook_okE [OF this Cons.prems(2,3)] obtain st r' w' where
      h: "h req w = Inr (st, r', w')" "wok w'" "channel r' = channel req" "ip_addr r' = ip_addr req" .
    with Cons.IH [of r' w'] Cons.prems Some show ?thesis
      by (auto simp: request_wf_cong [of r' req])
  qed (use Cons in auto)
qed auto

lemma init_guarded:
  "set ps \<subseteq> set plugins \<Longrightarrow> wok w \<Longrightarrow> \<exists>ready w'. run_thread_init ps w = Inr (ready, w') \<and> wok w'"
proof (induction ps arbitrary: w)
  case (Cons p ps)
  show ?case
  proof (cases "pl_thread_init p")
    case (Some h)
    have "plugin_guarded wok bad p" using Cons.prems(1) plugins_guarded by auto
    then obtain rc w' where h: "h w = Inr (rc, w')" "wok w'"
      using Some Cons.prems(2) unfolding plugin_guarded_def by blast
    with Cons.IH [OF _ h(2)] Cons.prems(1) Some show ?thesis by (cases "rc = 0") auto
  qed (use Cons in auto)
qed auto

lemma free_guarded:
  "set ps \<subseteq> set plugins \<Longrightarrow> wok w \<Longrightarrow> \<exists>w'. run_thread_free ps w = Inr w' \<and> wok w'"
proof (induction ps arbitrary: w)
  case (Cons p ps)
  show ?case
  proof (cases "pl_thread_free p")
    case (Some h)
    have "plugin_guarded wok bad p" using Cons.prems(1) plugins_guarded by auto
    then obtain w' where h: "h w = Inr w'" "wok w'"
      using Some Cons.prems(2) unfolding plugin_guarded_def by blast
    with Cons.IH [OF _ h(2)] Cons.prems(1) Some show ?thesis by auto
  qed (use Cons in auto)
qed auto

lemma respond_guarded:
  assumes "core_plugins core = plugins" "wok w" "request_wf req a"
  shows "\<exists>w'. respond core (req, w) = Inr ([Print (fst (answer (core_deny_by_default core) req))], w') \<and> wok w'"
  using post_handlers_guarded [OF order_refl assms(3,2)] assms(1,2) by (auto simp: respond_def)

lemma worker_request_guarded:
  assumes core: "core_plugins core = plugins" and w: "wok w" and line: "buf_cstr line t"
  shows "c_guarded bad (\<lambda>(es, w'). wok w' \<and> (\<exists>out. printed es = [out] \<and> squid_reply (line_channel (until_nul t)) out))
    (worker_request core env line w)"
proof (cases "valid_address (core_have_ipv6 core) env (line_address (core_have_ipv6 core) (until_nul t))")
  case False
  with squid_reply_address w show ?thesis by (simp add: worker_request_invalid [OF line])
next
  case True
  from worker_request_valid [OF line this] obtain req where
    wf: "parsed_request (core_have_ipv6 core) env (until_nul t) req"
    and run: "worker_request core env line w = c_bind (run_handlers (core_plugins core) req w) (respond core)"
    by metis
  from wf obtain a where a: "request_wf req a" and ch: "channel req = line_channel (until_nul t)"
    unfolding parsed_request_def by blast
  show ?thesis
    unfolding run core
  proof (rule c_guarded_bind [OF run_handlers_guarded [OF order_refl a w]], clarify)
    fix req' :: request and w1 assume h: "wok w1" "channel req' = channel req" "ip_addr req' = ip_addr req"
    with a have "request_wf req' a" by (simp add: request_wf_cong [of req' req])
    from respond_guarded [OF core h(1) this] obtain w' where
      "respond core (req', w1) = Inr ([Print (fst (answer (core_deny_by_default core) req'))], w')" "wok w'" by blast
    with squid_reply_answer [of req'] h(2) ch
    show "c_guarded bad (\<lambda>(es, w'). wok w' \<and> (\<exists>out. printed es = [out] \<and> squid_reply (line_channel (until_nul t)) out))
      (respond core (req', w1))" by simp
  qed
qed

lemma worker_loop_guarded:
  assumes "core_plugins core = plugins" "wok w" "list_all2 buf_cstr bs ts"
  shows "c_guarded bad (\<lambda>(out, w', terminated, js). terminated \<and> js = rest \<and> wok w'
      \<and> list_all2 (\<lambda>t out. squid_reply (line_channel (until_nul t)) out) ts (printed out))
    (worker_loop core env (map Some bs @ None # rest) w)"
  using assms(3,2)
proof (induction bs ts arbitrary: w rule: list_all2_induct)
  case (Cons b bs t ts)
  show ?case
    unfolding list.map append_Cons worker_loop.simps
  proof (rule c_guarded_bind [OF worker_request_guarded [OF assms(1) Cons.prems Cons.hyps(1)]], clarify)
    fix es w1 out assume one: "wok w1" "printed es = [out]" "squid_reply (line_channel (until_nul t)) out"
    show "c_guarded bad (\<lambda>(out, w', terminated, js). terminated \<and> js = rest \<and> wok w'
        \<and> list_all2 (\<lambda>t out. squid_reply (line_channel (until_nul t)) out) (t # ts) (printed out))
      (c_bind (worker_loop core env (map Some bs @ None # rest) w1) (\<lambda>(outs, r). Inr (es @ outs, r)))"
      by (rule c_guarded_bind [OF Cons.IH [OF one(1)]]) (use one in auto)
  qed
qed simp

lemma worker_guarded:
  assumes "core_plugins core = plugins" "wok w" "list_all2 buf_cstr bs ts" "run_thread_init plugins w = Inr (ready, w1)"
  shows "c_guarded bad (\<lambda>(out, w', terminated, js). terminated \<and> wok w'
      \<and> js = (if ready then rest else map Some bs @ None # rest)
      \<and> (if ready then list_all2 (\<lambda>t out. squid_reply (line_channel (until_nul t)) out) ts (printed out) else out = []))
    (worker core env (map Some bs @ None # rest) w)"
proof -
  have w1: "wok w1" using init_guarded [OF order_refl assms(2)] assms(4) by auto
  have loop: "c_guarded bad (\<lambda>(out, w', terminated, js). terminated \<and> wok w'
      \<and> js = (if ready then rest else map Some bs @ None # rest)
      \<and> (if ready then list_all2 (\<lambda>t out. squid_reply (line_channel (until_nul t)) out) ts (printed out) else out = []))
    (if ready then worker_loop core env (map Some bs @ None # rest) w1 else Inr ([], w1, True, map Some bs @ None # rest))"
    using c_guarded_mono [OF worker_loop_guarded [OF assms(1) w1 assms(3), of rest env]] w1 by auto
  show ?thesis
    unfolding worker_def assms(1,4) c_bind.simps prod.case
    by (rule c_guarded_bind [OF loop], clarsimp, drule free_guarded [OF order_refl], auto)
qed

end

text \<open>The contract without any fault.\<close>

locale plugin_chain =
  fixes wok :: "'w \<Rightarrow> bool" and plugins :: "'w plugin list"
  assumes plugins_ok: "p \<in> set plugins \<Longrightarrow> plugin_ok wok p"

sublocale plugin_chain \<subseteq> guarded_chain wok plugins "\<lambda>_. False"
  by unfold_locales (simp add: plugin_guarded_none plugins_ok)

context plugin_chain
begin

lemma run_handlers_ok:
  "set ps \<subseteq> set plugins \<Longrightarrow> request_wf req a \<Longrightarrow> wok w \<Longrightarrow>
     \<exists>req' w'. run_handlers ps req w = Inr (req', w') \<and> wok w'
       \<and> channel req' = channel req \<and> ip_addr req' = ip_addr req"
  using run_handlers_guarded [of ps req a w] by (auto simp: c_guarded_total)

lemma worker_request_ok:
  assumes core: "core_plugins core = plugins" and w: "wok w" and line: "buf_cstr line t"
  defines "v6 \<equiv> core_have_ipv6 core" and "s \<equiv> until_nul t"
  shows "if valid_address v6 env (line_address v6 s)
    then \<exists>req req' w1 w2. parsed_request v6 env s req
      \<and> run_handlers plugins req w = Inr (req', w1) \<and> channel req' = line_channel s
      \<and> (if wants_post req' then \<exists>r. run_post_handlers plugins req' w1 = Inr (r, w2) else w2 = w1)
      \<and> wok w2
      \<and> worker_request core env line w = Inr ([Print (fst (answer (core_deny_by_default core) req'))], w2)
    else worker_request core env line w =
      Inr ([LockStdout, Print (send_response (line_channel s) (-1) (Some ''Valid IP address expected'')),
            UnlockStdout], w)"
proof (cases "valid_address v6 env (line_address v6 s)")
  case False
  with worker_request_run [OF line, of v6 env] show ?thesis
    by (auto simp: s_def v6_def)
next
  case True
  with worker_request_run [OF line, of v6 env] obtain req where
    wf: "parsed_request v6 env s req"
    and run: "worker_request core env line w = c_bind (run_handlers plugins req w) (respond core)"
    using core by (auto simp: s_def v6_def)
  obtain req' w1 where
    h: "run_handlers plugins req w = Inr (req', w1)" "wok w1" "channel req' = channel req"
      "ip_addr req' = ip_addr req"
    using run_handlers_ok [OF order_refl _ w, of req] wf unfolding parsed_request_def by blast
  then obtain r w2 where p: "run_post_handlers plugins req' w1 = Inr (r, w2)" "wok w2"
    using post_handlers_guarded [OF order_refl, of req' _ w1] wf
      request_wf_cong [OF h(4)] unfolding parsed_request_def by blast
  have "channel req' = line_channel s" using h(3) wf by (simp add: parsed_request_def)
  with True run h p wf core show ?thesis
    by (cases "wants_post req'") (auto simp: respond_def)
qed

lemma thread_init_ok:
  "set ps \<subseteq> set plugins \<Longrightarrow> wok w \<Longrightarrow> \<exists>ready w'. run_thread_init ps w = Inr (ready, w') \<and> wok w'"
  by (rule init_guarded)

lemma thread_free_ok:
  "set ps \<subseteq> set plugins \<Longrightarrow> wok w \<Longrightarrow> \<exists>w'. run_thread_free ps w = Inr w' \<and> wok w'"
  by (rule free_guarded)

lemma worker_request_replies:
  assumes "core_plugins core = plugins" "wok w" "buf_cstr line t"
  shows "\<exists>es w' out. worker_request core env line w = Inr (es, w') \<and> wok w' \<and> printed es = [out]
    \<and> squid_reply (line_channel (until_nul t)) out"
  using worker_request_guarded [OF assms, of env] by (auto simp: c_guarded_total)

lemma worker_ok:
  assumes "core_plugins core = plugins" "wok w" "list_all2 buf_cstr bs ts"
  shows "\<exists>ready w1 out w'. run_thread_init plugins w = Inr (ready, w1)
    \<and> worker core env (map Some bs @ None # rest) w =
        Inr (out, w', True, if ready then rest else map Some bs @ None # rest)
    \<and> wok w' \<and> (if ready
         then list_all2 (\<lambda>t out. squid_reply (line_channel (until_nul t)) out) ts (printed out)
         else out = [])"
proof -
  obtain ready w1 where i: "run_thread_init plugins w = Inr (ready, w1)"
    using thread_init_ok [OF order_refl assms(2)] by blast
  from worker_guarded [OF assms i, of rest env] i show ?thesis by (auto simp: c_guarded_total)
qed

end

section \<open>Properties of the worker\<close>

text \<open>
  C16: every job is answered once, in order.  For plugins that keep the contract, any
  number of jobs of any content and the null pointer that ends the thread, the worker
  whose \<open>thread_init\<close> hooks succeed does not fault, prints one of the five replies for each
  job, with the channel read from that job's line, in the order of the jobs, stops at the
  null pointer and leaves what comes after it to the other workers.  When a \<open>thread_init\<close>
  hook fails the worker terminates without taking a job and prints nothing.
\<close>

theorem worker_answers_every_job:
  assumes "plugin_chain wok (core_plugins core)" "wok w" "list_all2 buf_cstr bs ts"
  shows "\<exists>ready w1 out w'. run_thread_init (core_plugins core) w = Inr (ready, w1)
    \<and> worker core env (map Some bs @ None # rest) w =
        Inr (out, w', True, if ready then rest else map Some bs @ None # rest)
    \<and> wok w' \<and> (if ready
         then list_all2 (\<lambda>t out. squid_reply (line_channel (until_nul t)) out) ts (printed out)
         else out = [])"
  by (rule plugin_chain.worker_ok [OF assms(1) refl assms(2,3)])

text \<open>A plugin that denies everything, for the witnesses.\<close>

definition deny_all :: "unit plugin" where
  "deny_all = \<lparr>pl_name = None, pl_plugin_free = None, pl_thread_init = Some (\<lambda>w. Inr (0, w)),
     pl_thread_free = None, pl_config_file_parsed = None, pl_pre_handle_request = None,
     pl_handle_request = Some (\<lambda>r w. Inr (HANDLER_DENY, r, w)), pl_post_handle_request = None,
     pl_options = None\<rparr>"

definition deny_core :: "unit core" where
  "deny_core = \<lparr>core_plugins = [deny_all], core_deny_by_default = True, core_have_ipv6 = True\<rparr>"

definition one_address :: net_env where
  "one_address = \<lparr>pton4 = (\<lambda>a. if a = ''10.0.0.1'' then Some 0x0100000A else None), pton6 = (\<lambda>_. None)\<rparr>"

lemma deny_all_chain: "plugin_chain (\<lambda>_. True) (core_plugins deny_core)"
  by unfold_locales (auto simp: plugin_ok_def hook_ok_def deny_all_def deny_core_def)

lemma line_buffer: obtains b where "buf_cstr b ''7 10.0.0.1''"
  using buffer_init_string_ok [of "''7 10.0.0.1''" "[]"] by (auto simp: TEXT_LIMIT_def)

theorem worker_answers_every_job_witness:
  "\<exists>b out w'. buf_cstr b ''7 10.0.0.1''
     \<and> worker deny_core one_address [Some b, None] () = Inr (out, w', True, [])
     \<and> (\<exists>reply. printed out = [reply] \<and> squid_reply (line_channel ''7 10.0.0.1'') reply)"
proof -
  obtain b where b: "buf_cstr b ''7 10.0.0.1''" by (rule line_buffer)
  then have "list_all2 buf_cstr [b] [''7 10.0.0.1'']" by simp
  from worker_answers_every_job [OF deny_all_chain _ this, of "()" one_address "[]"] b show ?thesis
    by (auto simp: deny_core_def deny_all_def list_all2_Cons1)
qed

text \<open>A handler has answered: \<open>-1\<close> is the initial value and \<open>0\<close> is \<open>HANDLER_GO_ON\<close>.\<close>

definition decided :: "request \<Rightarrow> bool" where
  "decided r \<longleftrightarrow> response_result r \<noteq> -1 \<and> response_result r \<noteq> status_code HANDLER_GO_ON"

lemma decided_status [simp]: "decided (r\<lparr>response_result := status_code st\<rparr>) \<longleftrightarrow> st \<noteq> HANDLER_GO_ON"
  by (cases st) (simp_all add: decided_def)

text \<open>
  C27: the first plugin that decides wins.  Whatever the hooks do (faults included), asking
  the plugins \<open>ps @ qs\<close> is asking \<open>ps\<close>, and then \<open>qs\<close> only if none of \<open>ps\<close> has answered with
  something other than \<open>HANDLER_GO_ON\<close>: later plugins neither run nor change the result or
  the world once one has decided.
\<close>

theorem first_decision_wins:
  assumes "\<not> decided req"
  shows "run_handlers (ps @ qs) req w =
    c_bind (run_handlers ps req w) (\<lambda>(req', w'). if decided req' then Inr (req', w') else run_handlers qs req' w')"
  using assms
proof (induction ps arbitrary: req w)
  case (Cons p ps)
  show ?case
  proof (cases "pl_handle_request p")
    case (Some h)
    show ?thesis
    proof (cases "h req w")
      case (Inr x)
      then obtain st r w' where "h req w = Inr (st, r, w')" by (cases x) auto
      with Some Cons.IH [of "r\<lparr>response_result := status_code st\<rparr>" w'] show ?thesis
        by (cases "st = HANDLER_GO_ON") (simp_all add: Let_def del: status_code.simps)
    qed (simp add: Some)
  qed (use Cons in simp)
qed simp

theorem first_decision_wins_witness:
  "run_handlers ([deny_all] @ [deny_all]) (new_request True) () = run_handlers [deny_all] (new_request True) ()"
  using first_decision_wins [of "new_request True" "[deny_all]" "[deny_all]" "()"]
  by (simp add: decided_def new_request_def deny_all_def)

text \<open>
  C5: the answer to one job, exactly.  If neither \<open>inet_pton\<close> accepts the address (empty
  when the line has none) the reply is an error, no plugin runs and the world is unchanged.
  Otherwise the plugins are asked about a well-formed request with the line's channel and
  the parsed address; OK without a message is sent exactly when the final status is ALLOW,
  \<open>DENIED\<close> exactly when it is DENY, and in all other cases \<open>UNKNOWN ERR\<close>, which refuses
  access if the default is to deny and grants it if not; post-request hooks run exactly
  after an ALLOW or a DENY whose handler did not set \<open>skip_post_handle_request\<close>.
\<close>

theorem worker_decides:
  assumes "plugin_chain wok (core_plugins core)" "wok w" "buf_cstr line s" "NUL \<notin> set s"
  shows "if valid_address (core_have_ipv6 core) env (line_address (core_have_ipv6 core) s)
    then \<exists>req req' w1 w2 msg. parsed_request (core_have_ipv6 core) env s req
      \<and> run_handlers (core_plugins core) req w = Inr (req', w1)
      \<and> (if wants_post req' then \<exists>r. run_post_handlers (core_plugins core) req' w1 = Inr (r, w2) else w2 = w1)
      \<and> worker_request core env line w = Inr ([Print (send_response (line_channel s) (fst msg) (snd msg))], w2)
      \<and> msg = (if response_result req' = status_code HANDLER_ALLOW then (0, None)
          else if response_result req' = status_code HANDLER_DENY then (-1, Some ''DENIED'')
          else (if core_deny_by_default core then -1 else 0, Some ''UNKNOWN ERR''))
    else worker_request core env line w =
      Inr ([LockStdout, Print (send_response (line_channel s) (-1) (Some ''Valid IP address expected'')),
            UnlockStdout], w)"
proof -
  have s: "until_nul s = s" using assms(4) by simp
  note run = plugin_chain.worker_request_ok [OF assms(1) refl assms(2,3), of env, unfolded s]
  show ?thesis
  proof (cases "valid_address (core_have_ipv6 core) env (line_address (core_have_ipv6 core) s)")
    case True
    with run obtain req req' w1 w2 where
      "parsed_request (core_have_ipv6 core) env s req"
      "run_handlers (core_plugins core) req w = Inr (req', w1)" "channel req' = line_channel s"
      "if wants_post req' then \<exists>r. run_post_handlers (core_plugins core) req' w1 = Inr (r, w2) else w2 = w1"
      "worker_request core env line w = Inr ([Print (fst (answer (core_deny_by_default core) req'))], w2)"
      by auto
    with True show ?thesis
      by (intro if_P [THEN iffD2, OF True] exI [of _ req] exI [of _ req'] exI [of _ w1] exI [of _ w2])
        (simp add: answer_def)
  next
    case False
    with run show ?thesis by simp
  qed
qed

theorem worker_decides_witness:
  "\<exists>b. buf_cstr b ''7 10.0.0.1''
     \<and> worker_request deny_core one_address b () =
         Inr ([Print (send_response (line_channel ''7 10.0.0.1'') (-1) (Some ''DENIED''))], ())"
proof -
  obtain b where b: "buf_cstr b ''7 10.0.0.1''" by (rule line_buffer)
  have a: "line_address True ''7 10.0.0.1'' = ''10.0.0.1''"
    by (simp add: line_address_def scan_zu_def scan_token_def is_space_def is_digit_def less_eq_char_def Let_def)
  have r: "response_result r = 2"
    if "run_handlers [deny_all] req () = Inr (r, ())" for req r
    using that by (auto simp: deny_all_def Let_def)
  have "valid_address True one_address (line_address True ''7 10.0.0.1'')"
    unfolding a by (simp add: valid_address_def one_address_def)
  with worker_decides [OF deny_all_chain TrueI b, of one_address] b r show ?thesis
    by (auto simp: deny_core_def)
qed

text \<open>
  The protocol with Squid round-trips.  A request line is a channel number, a blank
  and an address (with anything after it); the reply is one line whose channel number,
  read back as Squid reads it, is the channel of the request, for every \<open>size_t\<close>.
\<close>

theorem reply_echoes_channel:
  assumes "plugin_chain wok (core_plugins core)" "wok w"
    and "buf_cstr line (show_zu n @ CHR '' '' # a)" "NUL \<notin> set a"
  shows "\<exists>es w' l r. worker_request core env line w = Inr (es, w')
    \<and> printed es = [l @ [NL]] \<and> NL \<notin> set l \<and> scan_zu (l @ [NL]) = Some (n, r)"
proof -
  let ?s = "show_zu n @ CHR '' '' # a"
  have "NUL \<notin> set (show_zu n)"
    using show_nat_digits [of "unat n"] by (auto simp: show_zu_def list_all_iff is_digit_def less_eq_char_def)
  then have s: "until_nul ?s = ?s" using assms(4) by (intro until_nul_id) auto
  have "line_channel ?s = n"
    using scan_zu_show [of "CHR '' '' # a" "[]" n] by (simp add: line_channel_def is_digit_def less_eq_char_def)
  with plugin_chain.worker_request_replies [OF assms(1) refl assms(2,3), of env, unfolded s]
  obtain es w' out where "worker_request core env line w = Inr (es, w')" "printed es = [out]"
    "squid_reply n out" by auto
  with squid_reply_line [of n out] show ?thesis by metis
qed

theorem reply_echoes_channel_witness:
  "\<exists>b es w' l r. buf_cstr b ''7 10.0.0.1'' \<and> worker_request deny_core one_address b () = Inr (es, w')
    \<and> printed es = [l @ [NL]] \<and> scan_zu (l @ [NL]) = Some (7, r)"
proof -
  obtain b where b: "buf_cstr b ''7 10.0.0.1''" by (rule line_buffer)
  have "show_zu 7 @ CHR '' '' # ''10.0.0.1'' = ''7 10.0.0.1''"
    by (simp add: show_zu_def show_nat.simps digit_char_def char_of_eq_iff)
  with reply_echoes_channel [OF deny_all_chain TrueI, of b 7 "''10.0.0.1''" one_address] b show ?thesis
    by auto
qed

end
