(* ===== verification/Txtfile.thy ===== *)
theory Txtfile
  imports Request Text_Utils
begin

text \<open>
  The plugin \<open>src/plugins/mod_txtfile/webcontrol_txtfile.c\<close>: the parser of the hosts file
  (\<open>fgets\<close>, \<open>strtok_r\<close>, \<open>inet_pton\<close>), the chain of entries, the lookup, and the hooks.

  The file system is a function from paths to contents (\<open>None\<close> when \<open>fopen\<close> fails).  The
  mutex makes each hook one step; the chain of \<open>next\<close> pointers is a list.  That both are
  sound is shown in \<open>Host_Chain\<close> and \<open>Host_Sharing\<close>.
\<close>

section \<open>Data\<close>

record host_entry =
  he_address :: ipaddr
  he_flag :: handler_status

record plugin_data =
  file_stat :: string
  filename :: string
  entry_chain :: "host_entry list"

definition WEBCONTROL_TXTFILE_DEFAULT_FILENAME :: string where
  "WEBCONTROL_TXTFILE_DEFAULT_FILENAME = ''webcontrol_hosts.txt''"

definition LINE_MAX :: nat where "LINE_MAX = 2048"

fun clear_chain :: "host_entry list \<Rightarrow> host_entry list" where
  "clear_chain [] = []"
| "clear_chain (e # next) = clear_chain next"

definition clear_entries :: "plugin_data \<Rightarrow> plugin_data" where
  "clear_entries pd = pd\<lparr>entry_chain := clear_chain (entry_chain pd)\<rparr>"

section \<open>Parsing\<close>

text \<open>The address of an entry fresh from \<open>malloc\<close>; its family is stored before it is read.\<close>

definition malloc_address :: "bool \<Rightarrow> ipaddr" where
  "malloc_address v6 =
     \<lparr>ip_sockaddr = \<lparr>ss_family = AF_UNSPEC, sin_addr = None, sin6_addr = None\<rparr>,
      ip_str = replicate (Suc (IPADDRSTRLEN v6)) None, ip_str_len = None\<rparr>"

definition parse_address :: "bool \<Rightarrow> net_env \<Rightarrow> string \<Rightarrow> sockaddr \<Rightarrow> sockaddr option" where
  "parse_address v6 env pch sa =
     (if v6 \<and> pton6 env pch \<noteq> None
      then Some (sa\<lparr>sin6_addr := pton6 env pch, ss_family := AF_INET6\<rparr>)
      else (case pton4 env pch of
              None \<Rightarrow> None
            | Some x \<Rightarrow> Some (sa\<lparr>sin_addr := Some x, ss_family := AF_INET\<rparr>)))"

text \<open>\<open>inet_pton\<close> and \<open>strtoupper\<close> dereference the token they are handed, null or not.\<close>

definition parse_line :: "bool \<Rightarrow> net_env \<Rightarrow> block \<Rightarrow> host_entry option c_result" where
  "parse_line v6 env line =
     c_bind (c_string line) (\<lambda>s.
     let (tok, tmp) = c_strtok_r '' '' s in
     c_bind (c_deref tok) (\<lambda>pch.
     case parse_address v6 env pch (ip_sockaddr (malloc_address v6)) of
       None \<Rightarrow> Inr None
     | Some sa \<Rightarrow>
         (let (tok2, _) = c_strtok_r [CHR 0x0D, NL] tmp in
          c_bind (c_deref tok2) (\<lambda>pch.
          c_bind (strtoupper (cstr pch)) (\<lambda>blk.
          c_bind (c_streq blk (cstr ''ALLOW'')) (\<lambda>eq.
          Inr (Some \<lparr>he_address = (malloc_address v6)\<lparr>ip_sockaddr := sa\<rparr>,
            he_flag = (if eq then HANDLER_ALLOW else HANDLER_DENY)\<rparr>)))))))"

text \<open>\<open>fgets (line, n, handle)\<close>: at most \<open>n - 1\<close> characters, up to and including a newline.\<close>

fun fgets_text :: "nat \<Rightarrow> string \<Rightarrow> string" where
  "fgets_text (Suc k) (c # s) = (if c = NL then [c] else c # fgets_text k s)"
| "fgets_text _ _ = []"

definition fgets :: "nat \<Rightarrow> string \<Rightarrow> (string \<times> string) option" where
  "fgets n s = (if s = [] then None
     else (let l = fgets_text (n - 1) s in Some (l, drop (length l) s)))"

lemma fgets_shorter: "fgets LINE_MAX s = Some (l, r) \<Longrightarrow> length r < length s"
  by (cases s) (auto simp: fgets_def LINE_MAX_def Let_def numeral_eq_Suc split: if_splits)

function parse_entries :: "bool \<Rightarrow> net_env \<Rightarrow> string \<Rightarrow> host_entry list \<Rightarrow> host_entry list c_result" where
  "parse_entries v6 env s chain =
     (case fgets LINE_MAX s of
        None \<Rightarrow> Inr chain
      | Some (line, rest) \<Rightarrow>
          c_bind (parse_line v6 env (cstr line)) (\<lambda>current.
          case current of
            None \<Rightarrow> parse_entries v6 env rest chain
          | Some e \<Rightarrow> parse_entries v6 env rest (e # chain)))"
  by pat_completeness auto
termination
  by (relation "measure (\<lambda>(v6, env, s, chain). length s)") (auto dest: fgets_shorter)

declare parse_entries.simps [simp del]

text \<open>What is printed on stdout, and the new data.\<close>

definition parse_file ::
  "bool \<Rightarrow> net_env \<Rightarrow> (string \<Rightarrow> string option) \<Rightarrow> plugin_data \<Rightarrow> (string \<times> plugin_data) c_result" where
  "parse_file v6 env fs pd =
     (case fs (filename pd) of
        None \<Rightarrow> Inr (''ERROR'' @ [NL], pd)
      | Some s \<Rightarrow>
          (let pd = clear_entries pd in
           c_bind (parse_entries v6 env s (entry_chain pd)) (\<lambda>chain.
           Inr ([], pd\<lparr>entry_chain := chain\<rparr>))))"

definition file_change_cb ::
  "bool \<Rightarrow> net_env \<Rightarrow> (string \<Rightarrow> string option) \<Rightarrow> plugin_data \<Rightarrow> (string \<times> plugin_data) c_result" where
  "file_change_cb v6 env fs pd = parse_file v6 env fs pd"

section \<open>Lookup\<close>

definition init_value :: "'a option \<Rightarrow> 'a c_result" where
  "init_value x = (case x of None \<Rightarrow> Inl Uninitialised | Some v \<Rightarrow> Inr v)"

definition compare_addresses :: "ipaddr \<Rightarrow> ipaddr \<Rightarrow> int c_result" where
  "compare_addresses a b =
     (let x = ip_sockaddr a; y = ip_sockaddr b in
      if ss_family x \<noteq> ss_family y then Inr (-1)
      else (case ss_family x of
              AF_INET \<Rightarrow> c_bind (init_value (sin_addr x)) (\<lambda>u. c_bind (init_value (sin_addr y)) (\<lambda>v.
                Inr (if u = v then 1 else 0)))
            | AF_INET6 \<Rightarrow> c_bind (init_value (sin6_addr x)) (\<lambda>u. c_bind (init_value (sin6_addr y)) (\<lambda>v.
                Inr (if u = v then 1 else 0)))
            | _ \<Rightarrow> Inr (-1)))"

fun lookup_entry :: "request \<Rightarrow> host_entry list \<Rightarrow> handler_status c_result" where
  "lookup_entry req [] = Inr HANDLER_GO_ON"
| "lookup_entry req (e # next) =
     c_bind (compare_addresses (ip_addr req) (he_address e)) (\<lambda>r.
     if r = 1 then Inr (he_flag e) else lookup_entry req next)"

definition webcontrol_txtfile_handle_request :: "request \<Rightarrow> plugin_data \<Rightarrow> handler_status c_result" where
  "webcontrol_txtfile_handle_request req pd = lookup_entry req (entry_chain pd)"

section \<open>The plugin\<close>

text \<open>
  Where the plugin's data, the files and stdout are in the state \<open>'w\<close> of the world, and the
  build's and the host's parameters.
\<close>

record 'w txt_access =
  txt_get :: "'w \<Rightarrow> plugin_data"
  txt_put :: "plugin_data \<Rightarrow> 'w \<Rightarrow> 'w"
  txt_files :: "'w \<Rightarrow> string \<Rightarrow> string option"
  txt_print :: "string \<Rightarrow> 'w \<Rightarrow> 'w"
  txt_v6 :: bool
  txt_net :: net_env

definition webcontrol_txtfile_process_config :: "'w txt_access \<Rightarrow> 'w \<Rightarrow> 'w c_result" where
  "webcontrol_txtfile_process_config acc w =
     c_bind (parse_file (txt_v6 acc) (txt_net acc) (txt_files acc w) (txt_get acc w)) (\<lambda>(out, pd).
     Inr (txt_print acc out (txt_put acc pd w)))"

definition webcontrol_txtfile_free :: "'w txt_access \<Rightarrow> 'w \<Rightarrow> 'w c_result" where
  "webcontrol_txtfile_free acc w = Inr (txt_put acc (clear_entries (txt_get acc w)) w)"

definition webcontrol_mod_txtfile_plugin_init ::
  "'w txt_access \<Rightarrow> 'w plugin \<Rightarrow> 'w \<Rightarrow> ('w plugin \<times> 'w) c_result" where
  "webcontrol_mod_txtfile_plugin_init acc p w =
     c_bind (buffer_init_string (Some (cstr ''txtfile''))) (\<lambda>name.
     Inr (p\<lparr>pl_name := Some name,
            pl_plugin_free := Some (webcontrol_txtfile_free acc),
            pl_handle_request := Some (\<lambda>r w.
              c_bind (webcontrol_txtfile_handle_request r (txt_get acc w)) (\<lambda>st. Inr (st, r, w))),
            pl_config_file_parsed := Some (webcontrol_txtfile_process_config acc),
            pl_options := Some [''file'']\<rparr>,
          txt_put acc \<lparr>file_stat = WEBCONTROL_TXTFILE_DEFAULT_FILENAME,
            filename = WEBCONTROL_TXTFILE_DEFAULT_FILENAME, entry_chain = []\<rparr> w))"

section \<open>The file as a list of rules\<close>

text \<open>
  The lines of a hosts file: a rule \<open>address flag\<close>, with either line ending, or a line
  that is not a rule (a comment, an empty line, a name that is not an address).
\<close>

datatype file_line = Rule string string bool | Other string

fun line_body :: "file_line \<Rightarrow> string" where
  "line_body (Rule a f crlf) = a @ CHR '' '' # f @ (if crlf then [CHR 0x0D] else [])"
| "line_body (Other l) = l"

definition render :: "file_line list \<Rightarrow> string" where
  "render ls = concat (map (\<lambda>l. line_body l @ [NL]) ls)"

definition host_token :: "string \<Rightarrow> bool" where
  "host_token a \<longleftrightarrow> a \<noteq> [] \<and> set a \<inter> {CHR '' '', NL, NUL} = {}"

fun file_line_ok :: "bool \<Rightarrow> net_env \<Rightarrow> file_line \<Rightarrow> bool" where
  "file_line_ok v6 env (Rule a f crlf) \<longleftrightarrow>
     host_token a \<and> valid_address v6 env a \<and> f \<noteq> [] \<and> set f \<inter> {CHR 0x0D, NL, NUL} = {}
     \<and> Suc (length (line_body (Rule a f crlf))) < LINE_MAX"
| "file_line_ok v6 env (Other l) \<longleftrightarrow>
     NL \<notin> set l \<and> NUL \<notin> set l \<and> Suc (length l) < LINE_MAX
     \<and> \<not> valid_address v6 env
          (takeWhile (\<lambda>c. c \<noteq> CHR '' '') (dropWhile (\<lambda>c. c = CHR '' '') (l @ [NL])))"

fun rules :: "file_line list \<Rightarrow> (string \<times> string) list" where
  "rules [] = []"
| "rules (Rule a f crlf # ls) = (a, f) # rules ls"
| "rules (Other l # ls) = rules ls"

text \<open>Access is allowed only by the word ALLOW, in any case; everything else denies.\<close>

definition flag_status :: "string \<Rightarrow> handler_status" where
  "flag_status f = (if map upper_char f = ''ALLOW'' then HANDLER_ALLOW else HANDLER_DENY)"

definition rule_matches :: "bool \<Rightarrow> net_env \<Rightarrow> request \<Rightarrow> string \<times> string \<Rightarrow> bool" where
  "rule_matches v6 env req r \<longleftrightarrow> sockaddr_of v6 env (fst r) (ip_sockaddr (ip_addr req))"

text \<open>The last matching rule of the file.\<close>

definition decide :: "bool \<Rightarrow> net_env \<Rightarrow> request \<Rightarrow> file_line list \<Rightarrow> handler_status" where
  "decide v6 env req ls =
     (case find (rule_matches v6 env req) (rev (rules ls)) of
        None \<Rightarrow> HANDLER_GO_ON
      | Some r \<Rightarrow> flag_status (snd r))"

lemma clear_chain_Nil: "clear_chain es = []"
  by (induction es) auto

lemma fgets_text_line:
  "NL \<notin> set l \<Longrightarrow> length l < k \<Longrightarrow> fgets_text k (l @ NL # r) = l @ [NL]"
  by (induction l arbitrary: k) (auto simp: gr0_conv_Suc Suc_less_eq2)

lemma fgets_text_last: "NL \<notin> set l \<Longrightarrow> length l \<le> k \<Longrightarrow> fgets_text k l = l"
proof (induction l arbitrary: k)
  case (Cons c l)
  then show ?case by (cases k) auto
qed (cases k; simp)

lemma fgets_line:
  "NL \<notin> set l \<Longrightarrow> Suc (length l) < LINE_MAX \<Longrightarrow> fgets LINE_MAX (l @ NL # r) = Some (l @ [NL], r)"
  by (simp add: fgets_def fgets_text_line Let_def)

lemma fgets_last:
  "NL \<notin> set l \<Longrightarrow> l \<noteq> [] \<Longrightarrow> length l < LINE_MAX \<Longrightarrow> fgets LINE_MAX l = Some (l, [])"
  by (simp add: fgets_def fgets_text_last Let_def)

lemma parse_address_valid: "parse_address v6 env a sa = None \<longleftrightarrow> \<not> valid_address v6 env a"
  by (auto simp: parse_address_def valid_address_def split: option.split)

lemma parse_address_sockaddr:
  "parse_address v6 env a sa = Some sa' \<Longrightarrow> sockaddr_of v6 env a sa'"
  by (auto simp: parse_address_def sockaddr_of_def split: if_splits option.splits)

text \<open>An entry as \<open>parse_line\<close> makes it of a rule.\<close>

definition entry_of :: "bool \<Rightarrow> net_env \<Rightarrow> string \<times> string \<Rightarrow> host_entry \<Rightarrow> bool" where
  "entry_of v6 env r e \<longleftrightarrow>
     sockaddr_of v6 env (fst r) (ip_sockaddr (he_address e)) \<and> he_flag e = flag_status (snd r)"

lemma parse_line_rule:
  assumes "file_line_ok v6 env (Rule a f crlf)"
  shows "\<exists>e. parse_line v6 env (cstr (line_body (Rule a f crlf) @ [NL])) = Inr (Some e)
    \<and> entry_of v6 env (a, f) e"
proof -
  let ?eol = "(if crlf then [CHR 0x0D] else []) @ [NL]"
  have l: "line_body (Rule a f crlf) @ [NL] = a @ CHR '' '' # f @ ?eol" by simp
  have nn: "NUL \<notin> set (a @ CHR '' '' # f @ ?eol)" "NUL \<notin> set f"
    using assms by (auto simp: host_token_def)
  have 1: "c_strtok_r '' '' (a @ CHR '' '' # f @ ?eol) = (Some a, f @ ?eol)"
    using assms by (intro c_strtok_r_token) (auto simp: host_token_def)
  have 2: "\<exists>r. c_strtok_r [CHR 0x0D, NL] (f @ ?eol) = (Some f, r)"
    using assms c_strtok_r_token [of f "[CHR 0x0D, NL]" "hd ?eol" "tl ?eol"] by (cases crlf) auto
  obtain sa where sa: "parse_address v6 env a (ip_sockaddr (malloc_address v6)) = Some sa"
    using assms parse_address_valid [of v6 env a "ip_sockaddr (malloc_address v6)"]
    by (cases "parse_address v6 env a (ip_sockaddr (malloc_address v6))") auto
  have "NUL \<notin> set (map upper_char f)" using nn(2) NUL_map_upper by blast
  then have 3: "c_streq (cstr (map upper_char f)) (cstr ''ALLOW'') = Inr (map upper_char f = ''ALLOW'')"
    by (simp add: c_streq_def c_string_cstr0 del: set_map)
  have 4: "strtoupper (cstr f) = Inr (cstr (map upper_char f))"
    using strtoupper_cstr [OF nn(2), of "[]"] by simp
  from 2 obtain r where 5: "c_strtok_r [CHR 0x0D, NL] (f @ ?eol) = (Some f, r)" ..
  have "parse_line v6 env (cstr (a @ CHR '' '' # f @ ?eol)) =
      Inr (Some \<lparr>he_address = (malloc_address v6)\<lparr>ip_sockaddr := sa\<rparr>, he_flag = flag_status f\<rparr>)"
    unfolding parse_line_def c_string_cstr0 [OF nn(1)] c_bind.simps 1 Let_def prod.case
      c_deref_simps sa option.case 5 4 3 flag_status_def by simp
  then show ?thesis
    unfolding l by (simp add: entry_of_def parse_address_sockaddr [OF sa])
qed

lemma parse_line_other:
  assumes "file_line_ok v6 env (Other l)"
  shows "parse_line v6 env (cstr (l @ [NL])) = Inr None"
proof -
  let ?s = "l @ [NL]"
  let ?u = "dropWhile (\<lambda>c. c = CHR '' '') ?s"
  have "NUL \<notin> set ?s" using assms by simp
  moreover have "?u \<noteq> []" by (auto simp: dropWhile_eq_Nil_conv)
  moreover have "parse_address v6 env (takeWhile (\<lambda>c. c \<noteq> CHR '' '') ?u) (ip_sockaddr (malloc_address v6)) = None"
    using assms by (simp add: parse_address_valid)
  ultimately show ?thesis
    by (simp add: parse_line_def c_string_cstr0 c_strtok_r_def Let_def)
qed

lemma NL_line_body: "file_line_ok v6 env l \<Longrightarrow> NL \<notin> set (line_body l) \<and> Suc (length (line_body l)) < LINE_MAX"
  by (cases l) (auto simp: host_token_def)

lemma parse_entries_render:
  "list_all (file_line_ok v6 env) ls \<Longrightarrow>
     \<exists>es. list_all2 (entry_of v6 env) (rules ls) es
       \<and> parse_entries v6 env (render ls @ more_text) chain = parse_entries v6 env more_text (rev es @ chain)"
proof (induction ls arbitrary: chain)
  case (Cons l ls)
  then have "fgets LINE_MAX (render (l # ls) @ more_text) = Some (line_body l @ [NL], render ls @ more_text)"
    using NL_line_body [of v6 env l] by (simp add: render_def fgets_line)
  note step = parse_entries.simps [of v6 env "render (l # ls) @ more_text" chain, unfolded this option.case prod.case]
  show ?case
  proof (cases l)
    case (Rule a f crlf)
    with Cons.prems parse_line_rule [of v6 env a f crlf] obtain e where
      e: "parse_line v6 env (cstr (line_body l @ [NL])) = Inr (Some e)" "entry_of v6 env (a, f) e"
      by auto
    from Cons.IH [of "e # chain"] Cons.prems obtain es where
      "list_all2 (entry_of v6 env) (rules ls) es"
      "parse_entries v6 env (render ls @ more_text) (e # chain) = parse_entries v6 env more_text (rev es @ e # chain)"
      by auto
    with step e Rule show ?thesis
      by (intro exI [of _ "e # es"]) simp
  next
    case (Other s)
    with Cons.prems parse_line_other [of v6 env s]
    have "parse_line v6 env (cstr (line_body l @ [NL])) = Inr None" by simp
    with step Cons.IH [of chain] Cons.prems Other show ?thesis by simp
  qed
qed (simp add: render_def)

section \<open>The lookup\<close>

text \<open>Every address that was stored is complete: what comparing relies on.\<close>

definition sockaddr_ok :: "sockaddr \<Rightarrow> bool" where
  "sockaddr_ok sa \<longleftrightarrow>
     (case ss_family sa of
        AF_INET \<Rightarrow> sin_addr sa \<noteq> None
      | AF_INET6 \<Rightarrow> sin6_addr sa \<noteq> None
      | AF_UNSPEC \<Rightarrow> False)"

definition chain_ok :: "plugin_data \<Rightarrow> bool" where
  "chain_ok pd \<longleftrightarrow> list_all (\<lambda>e. sockaddr_ok (ip_sockaddr (he_address e))) (entry_chain pd)"

lemma request_sockaddr_ok: "request_wf r a \<Longrightarrow> sockaddr_ok (ip_sockaddr (ip_addr r))"
  by (simp add: request_wf_def sockaddr_ok_def)

lemma sockaddr_of_ok: "sockaddr_of v6 env a sa \<Longrightarrow> sockaddr_ok sa"
  by (auto simp: sockaddr_of_def sockaddr_ok_def split: if_splits)

lemma compare_ok:
  assumes "sockaddr_ok (ip_sockaddr a)" "sockaddr_ok (ip_sockaddr b)"
  shows "\<exists>r. compare_addresses a b = Inr r"
  using assms by (auto simp: compare_addresses_def sockaddr_ok_def init_value_def Let_def split: sa_family.splits)

lemma compare_match:
  assumes "sockaddr_ok (ip_sockaddr a)" "sockaddr_of v6 env t (ip_sockaddr b)"
  shows "\<exists>r. compare_addresses a b = Inr r \<and> (r = 1 \<longleftrightarrow> sockaddr_of v6 env t (ip_sockaddr a))"
  using assms
  by (auto simp: compare_addresses_def sockaddr_ok_def sockaddr_of_def init_value_def Let_def
      split: sa_family.splits if_splits)

lemma lookup_total:
  assumes "sockaddr_ok (ip_sockaddr (ip_addr req))"
  shows "list_all (\<lambda>e. sockaddr_ok (ip_sockaddr (he_address e))) es \<Longrightarrow> \<exists>st. lookup_entry req es = Inr st"
proof (induction es)
  case (Cons e es)
  then show ?case using compare_ok [OF assms, of "he_address e"] by auto
qed simp

lemma lookup_rules:
  assumes "sockaddr_ok (ip_sockaddr (ip_addr req))" "list_all2 (entry_of v6 env) rs es"
  shows "lookup_entry req es = Inr (case find (rule_matches v6 env req) rs of
      None \<Rightarrow> HANDLER_GO_ON | Some r \<Rightarrow> flag_status (snd r))"
  using assms(2)
proof (induction rs es rule: list_all2_induct)
  case (Cons r rs e es)
  then have "sockaddr_of v6 env (fst r) (ip_sockaddr (he_address e))" "he_flag e = flag_status (snd r)"
    by (simp_all add: entry_of_def)
  with compare_match [OF assms(1), of v6 env "fst r" "he_address e"] Cons.IH show ?case
    by (auto simp: rule_matches_def)
qed simp

lemma parse_file_render:
  assumes "list_all (file_line_ok v6 env) ls" "fs (filename pd) = Some (render ls)"
  shows "\<exists>es. parse_file v6 env fs pd = Inr ([], pd\<lparr>entry_chain := rev es\<rparr>)
    \<and> list_all2 (entry_of v6 env) (rules ls) es"
proof -
  obtain es where "list_all2 (entry_of v6 env) (rules ls) es"
    "parse_entries v6 env (render ls @ []) [] = parse_entries v6 env [] (rev es @ [])"
    using parse_entries_render [OF assms(1)] by blast
  moreover have "parse_entries v6 env [] c = Inr c" for c
    by (subst parse_entries.simps) (simp add: fgets_def)
  ultimately show ?thesis using assms(2)
    by (intro exI [of _ es]) (simp add: parse_file_def clear_entries_def clear_chain_Nil Let_def)
qed

section \<open>Properties of the plugin\<close>

text \<open>
  C12: the last matching line of the hosts file decides.  For every file of rules (either
  line ending) and other lines, reading it never faults and prints nothing, whatever was
  loaded before is gone, and the lookup of a request answers with the flag of the last
  rule whose address parses to the address of the request, ALLOW exactly for the word
  ALLOW in any case and DENY for any other flag, and with \<open>HANDLER_GO_ON\<close> when no rule
  has that address.
\<close>

theorem txtfile_last_rule_decides:
  assumes "list_all (file_line_ok v6 env) ls" "fs (filename pd) = Some (render ls)" "request_wf req a"
  shows "\<exists>pd'. parse_file v6 env fs pd = Inr ([], pd') \<and> filename pd' = filename pd
    \<and> webcontrol_txtfile_handle_request req pd' = Inr (decide v6 env req ls)"
proof -
  obtain es where es: "parse_file v6 env fs pd = Inr ([], pd\<lparr>entry_chain := rev es\<rparr>)"
    "list_all2 (entry_of v6 env) (rules ls) es"
    using parse_file_render [of v6 env ls fs pd] assms(1,2) by auto
  then have "list_all2 (entry_of v6 env) (rev (rules ls)) (rev es)" by (simp add: list_all2_rev)
  with es lookup_rules [OF request_sockaddr_ok [OF assms(3)]] show ?thesis
    by (simp add: webcontrol_txtfile_handle_request_def decide_def)
qed

definition two_hosts :: net_env where
  "two_hosts = \<lparr>pton4 = (\<lambda>a. if a = ''10.0.0.1'' then Some 1 else if a = ''10.0.0.2'' then Some 2 else None),
     pton6 = (\<lambda>_. None)\<rparr>"

definition hosts_file :: "file_line list" where
  "hosts_file = [Other ''# hosts'', Rule ''10.0.0.1'' ''DENY'' True, Rule ''10.0.0.2'' ''ALLOWED'' False,
     Rule ''10.0.0.1'' ''allow'' False]"

definition request_1 :: request where
  "request_1 = \<lparr>response_result = -1, skip_post_handle_request = False, channel = 0,
     ip_addr = \<lparr>ip_sockaddr = \<lparr>ss_family = AF_INET, sin_addr = Some 1, sin6_addr = None\<rparr>,
       ip_str = cstr ''10.0.0.1'', ip_str_len = Some 8\<rparr>\<rparr>"

definition empty_data :: plugin_data where
  "empty_data = \<lparr>file_stat = [], filename = ''h'', entry_chain = []\<rparr>"

lemma hosts_file_ok: "list_all (file_line_ok True two_hosts) hosts_file"
  by (simp add: hosts_file_def two_hosts_def host_token_def valid_address_def LINE_MAX_def)

lemma request_1_wf: "request_wf request_1 ''10.0.0.1''"
  by (simp add: request_1_def request_wf_def)

theorem txtfile_last_rule_decides_witness:
  "\<exists>pd'. parse_file True two_hosts (\<lambda>_. Some (render hosts_file)) empty_data = Inr ([], pd')
    \<and> webcontrol_txtfile_handle_request request_1 pd' = Inr HANDLER_ALLOW"
proof -
  have "decide True two_hosts request_1 hosts_file = HANDLER_ALLOW"
    by (simp add: decide_def hosts_file_def two_hosts_def request_1_def rule_matches_def sockaddr_of_def
        flag_status_def upper_char_def char_of_def)
  with txtfile_last_rule_decides [OF hosts_file_ok _ request_1_wf,
      of "\<lambda>_. Some (render hosts_file)" empty_data] show ?thesis by auto
qed

text \<open>
  What the parser cannot stand in a line: nothing but blanks, or (after any blanks) an
  address that \<open>inet_pton\<close> accepts and after it nothing, or one blank and then only line
  end characters.  The newline is part of the line \<open>fgets\<close> returns and is not a delimiter
  of the first \<open>strtok_r\<close>, so an address with a newline right behind it is no address.
\<close>

definition no_flag :: "bool \<Rightarrow> net_env \<Rightarrow> string \<Rightarrow> bool" where
  "no_flag v6 env l \<longleftrightarrow> (\<exists>n. l = replicate n (CHR '' '')
     \<or> (\<exists>a u. l = replicate n (CHR '' '') @ a @ u \<and> a \<noteq> [] \<and> CHR '' '' \<notin> set a
          \<and> valid_address v6 env a
          \<and> (u = [] \<or> (\<exists>v. u = CHR '' '' # v \<and> set v \<subseteq> {CHR 0x0D, NL}))))"

text \<open>The pieces \<open>fgets\<close> hands out, one after the other.\<close>

function read_lines :: "string \<Rightarrow> string list" where
  "read_lines s = (case fgets LINE_MAX s of None \<Rightarrow> [] | Some (l, r) \<Rightarrow> l # read_lines r)"
  by pat_completeness auto
termination
  by (relation "measure length") (auto dest: fgets_shorter)

declare read_lines.simps [simp del]

lemma dropWhile_replicate [simp]: "dropWhile (\<lambda>c. c = x) (replicate n x @ s) = dropWhile (\<lambda>c. c = x) s"
  by (induction n) auto

lemma strtok_blanks: "c_strtok_r '' '' (replicate n (CHR '' '')) = (None, [])"
  using dropWhile_replicate [of "CHR '' ''" n "[]"] by (simp add: c_strtok_r_def Let_def)

lemma strtok_skip_blanks: "c_strtok_r '' '' (replicate n (CHR '' '') @ s) = c_strtok_r '' '' s"
  by (simp add: c_strtok_r_def)

text \<open>Every line is blank, or one token with what follows it.\<close>

lemma line_shape:
  obtains (blank) n where "l = replicate n (CHR '' '')"
  | (token) n a u where "l = replicate n (CHR '' '') @ a @ u" "a \<noteq> []" "CHR '' '' \<notin> set a"
      "u = [] \<or> (\<exists>v. u = CHR '' '' # v)"
proof -
  define m r where "m = takeWhile (\<lambda>c. c = CHR '' '') l" and "r = dropWhile (\<lambda>c. c = CHR '' '') l"
  define a u where "a = takeWhile (\<lambda>c. c \<noteq> CHR '' '') r" and "u = dropWhile (\<lambda>c. c \<noteq> CHR '' '') r"
  have "m = replicate (length m) (CHR '' '')"
    unfolding m_def by (rule replicate_eqI [OF refl]) (rule set_takeWhileD [THEN conjunct2])
  then have 2: "l = replicate (length m) (CHR '' '') @ r" by (simp add: m_def r_def)
  have 3: "r = a @ u" by (simp add: a_def u_def)
  show thesis
  proof (cases "r = []")
    case True
    with 2 have "l = replicate (length m) (CHR '' '')" by simp
    then show thesis by (rule blank)
  next
    case False
    then have "hd r \<noteq> CHR '' ''" using hd_dropWhile [of "\<lambda>c. c = CHR '' ''" l] by (simp add: r_def)
    with False have "a \<noteq> []" unfolding a_def by (cases r) simp_all
    moreover have "CHR '' '' \<notin> set a"
      unfolding a_def using set_takeWhileD [of "CHR '' ''" "\<lambda>c. c \<noteq> CHR '' ''" r] by blast
    moreover have "u = [] \<or> (\<exists>v. u = CHR '' '' # v)"
    proof (cases u)
      case (Cons c v)
      then have "c = CHR '' ''" using hd_dropWhile [of "\<lambda>c. c \<noteq> CHR '' ''" r] by (simp add: u_def)
      with Cons show ?thesis by simp
    qed simp
    moreover have "l = replicate (length m) (CHR '' '') @ a @ u" using 2 3 by simp
    ultimately show thesis by (intro token)
  qed
qed

text \<open>The parser on a line that starts with a token.\<close>

lemma strtok_first:
  assumes "a \<noteq> []" "CHR '' '' \<notin> set a" "u = [] \<or> (\<exists>v. u = CHR '' '' # v)"
  shows "c_strtok_r '' '' (replicate n (CHR '' '') @ a @ u) = (Some a, tl u)"
  using assms c_strtok_r_last [of a "'' ''"] c_strtok_r_token [of a "'' ''" "CHR '' ''"]
  by (auto simp: strtok_skip_blanks)

lemma strtok_line_end:
  "set v \<subseteq> {CHR 0x0D, NL} \<Longrightarrow> c_strtok_r [CHR 0x0D, NL] v = (None, [])"
  "\<not> set v \<subseteq> {CHR 0x0D, NL} \<Longrightarrow> \<exists>f. fst (c_strtok_r [CHR 0x0D, NL] v) = Some f \<and> set f \<subseteq> set v"
proof -
  assume "set v \<subseteq> {CHR 0x0D, NL}"
  then have "dropWhile (\<lambda>c. c \<in> set [CHR 0x0D, NL]) v = []" by (auto simp: dropWhile_eq_Nil_conv)
  then show "c_strtok_r [CHR 0x0D, NL] v = (None, [])" by (simp add: c_strtok_r_def Let_def)
next
  assume "\<not> set v \<subseteq> {CHR 0x0D, NL}"
  then have "dropWhile (\<lambda>c. c \<in> set [CHR 0x0D, NL]) v \<noteq> []" by (auto simp: dropWhile_eq_Nil_conv)
  then show "\<exists>f. fst (c_strtok_r [CHR 0x0D, NL] v) = Some f \<and> set f \<subseteq> set v"
    by (auto simp: c_strtok_r_def Let_def dest!: set_takeWhileD set_dropWhileD)
qed

lemma parse_line_no_flag:
  assumes "NUL \<notin> set l" "no_flag v6 env l"
  shows "parse_line v6 env (cstr l) = Inl NullDeref"
proof -
  note run = parse_line_def c_string_cstr0 [OF assms(1)]
  from assms(2) consider n where "l = replicate n (CHR '' '')"
    | n a u where "l = replicate n (CHR '' '') @ a @ u" "a \<noteq> []" "CHR '' '' \<notin> set a"
        "valid_address v6 env a" "u = [] \<or> (\<exists>v. u = CHR '' '' # v \<and> set v \<subseteq> {CHR 0x0D, NL})"
    unfolding no_flag_def by blast
  then show ?thesis
  proof cases
    case 1
    then show ?thesis unfolding run using strtok_blanks by simp
  next
    case 2
    have "c_strtok_r '' '' l = (Some a, tl u)" using 2 strtok_first [of a u n] by auto
    moreover have "c_strtok_r [CHR 0x0D, NL] (tl u) = (None, [])"
      using 2(5) by (intro strtok_line_end) auto
    moreover obtain sa where "parse_address v6 env a (ip_sockaddr (malloc_address v6)) = Some sa"
      using 2(4) parse_address_valid [of v6 env a "ip_sockaddr (malloc_address v6)"] by auto
    ultimately show ?thesis unfolding run by simp
  qed
qed

lemma parse_line_runs:
  assumes "NUL \<notin> set l" "\<not> no_flag v6 env l"
  shows "\<exists>x. parse_line v6 env (cstr l) = Inr x"
proof (cases l rule: line_shape)
  case (blank n)
  with assms(2) show ?thesis unfolding no_flag_def by blast
next
  case (token n a u)
  note run = parse_line_def c_string_cstr0 [OF assms(1)]
  have tok: "c_strtok_r '' '' l = (Some a, tl u)" using token strtok_first [of a u n] by simp
  show ?thesis
  proof (cases "parse_address v6 env a (ip_sockaddr (malloc_address v6))")
    case None
    with tok show ?thesis unfolding run by simp
  next
    case (Some sa)
    then have "valid_address v6 env a"
      using parse_address_valid [of v6 env a "ip_sockaddr (malloc_address v6)"] by auto
    with assms(2) token have "\<not> (u = [] \<or> (\<exists>v. u = CHR '' '' # v \<and> set v \<subseteq> {CHR 0x0D, NL}))"
      unfolding no_flag_def by blast
    with token(4) obtain v where v: "u = CHR '' '' # v" "\<not> set v \<subseteq> {CHR 0x0D, NL}" by auto
    from strtok_line_end(2) [OF v(2)] obtain f r where
      f: "c_strtok_r [CHR 0x0D, NL] (tl u) = (Some f, r)" "set f \<subseteq> set v"
      using v(1) by (cases "c_strtok_r [CHR 0x0D, NL] v") auto
    have "NUL \<notin> set f" using f(2) assms(1) token(1) v(1) by auto
    then have "strtoupper (cstr f) = Inr (cstr (map upper_char f))"
      using strtoupper_cstr [of f "[]"] by simp
    moreover have "NUL \<notin> set (map upper_char f)"
      using \<open>NUL \<notin> set f\<close> by (simp only: NUL_map_upper not_False_eq_True)
    ultimately show ?thesis using tok Some f(1) unfolding run
      by (simp add: c_streq_def c_string_cstr0 del: set_map)
  qed
qed

lemma fgets_sets: "fgets n s = Some (l, r) \<Longrightarrow> set l \<subseteq> set s \<and> set r \<subseteq> set s"
proof -
  have "set (fgets_text k s) \<subseteq> set s" for k by (induction k s rule: fgets_text.induct) auto
  then show "fgets n s = Some (l, r) \<Longrightarrow> set l \<subseteq> set s \<and> set r \<subseteq> set s"
    by (auto simp: fgets_def Let_def split: if_splits dest: in_set_dropD)
qed

lemma parse_entries_faults:
  "NUL \<notin> set s \<Longrightarrow>
     (if \<exists>l \<in> set (read_lines s). no_flag v6 env l then parse_entries v6 env s chain = Inl NullDeref
      else \<exists>chain'. parse_entries v6 env s chain = Inr chain')"
proof (induction s arbitrary: chain rule: read_lines.induct)
  case (1 s)
  show ?case
  proof (cases "fgets LINE_MAX s")
    case None
    then show ?thesis by (simp add: parse_entries.simps [of _ _ s] read_lines.simps [of s])
  next
    case (Some lr)
    then obtain l r where lr: "fgets LINE_MAX s = Some (l, r)" by (cases lr) auto
    have nn: "NUL \<notin> set l" "NUL \<notin> set r" using fgets_sets [OF lr] "1.prems" by auto
    note IH = "1.IH" [OF lr refl nn(2)]
    note step = parse_entries.simps [of v6 env s chain] read_lines.simps [of s] lr option.case prod.case
    show ?thesis
    proof (cases "no_flag v6 env l")
      case True
      then show ?thesis unfolding step using parse_line_no_flag [OF nn(1) True] by simp
    next
      case False
      from parse_line_runs [OF nn(1) False] obtain x where
        x: "parse_line v6 env (cstr l) = Inr x" by blast
      have "c_bind (parse_line v6 env (cstr l)) (\<lambda>current. case current of
            None \<Rightarrow> parse_entries v6 env r chain | Some e \<Rightarrow> parse_entries v6 env r (e # chain))
          = parse_entries v6 env r (case x of None \<Rightarrow> chain | Some e \<Rightarrow> e # chain)"
        using x by (cases x) auto
      with IH [of "case x of None \<Rightarrow> chain | Some e \<Rightarrow> e # chain"] False show ?thesis
        unfolding step by simp
    qed
  qed
qed

text \<open>
  C38: which files crash the parser.  A file (without NUL bytes) crashes the helper exactly
  when one of the pieces \<open>fgets\<close> hands out is a line without a flag in the sense of
  \<open>no_flag\<close>: only blanks, as at the end of a file without a newline; or an accepted
  address with nothing behind it, or with one blank and then the line end.  Then \<open>strtok_r\<close>
  returns a null pointer which \<open>inet_pton\<close> or \<open>strtoupper\<close> dereferences, whatever the other
  lines are.  Every other file is parsed to its end.
\<close>

theorem txtfile_missing_flag_faults:
  assumes "fs (filename pd) = Some s" "NUL \<notin> set s"
  shows "if \<exists>l \<in> set (read_lines s). no_flag v6 env l then parse_file v6 env fs pd = Inl NullDeref
    else \<exists>chain. parse_file v6 env fs pd = Inr ([], pd\<lparr>entry_chain := chain\<rparr>)"
proof -
  have "parse_file v6 env fs pd = c_bind (parse_entries v6 env s []) (\<lambda>chain. Inr ([], pd\<lparr>entry_chain := chain\<rparr>))"
    using assms(1) by (simp add: parse_file_def clear_entries_def clear_chain_Nil Let_def)
  with parse_entries_faults [OF assms(2), of v6 env "[]"] show ?thesis
    by (cases "\<exists>l \<in> set (read_lines s). no_flag v6 env l") (simp_all only: if_True if_False, fastforce+)
qed

lemma read_lines_last: "NL \<notin> set l \<Longrightarrow> l \<noteq> [] \<Longrightarrow> length l < LINE_MAX \<Longrightarrow> read_lines l = [l]"
  by (simp add: read_lines.simps [of l] fgets_last read_lines.simps [of "[]"] fgets_def [of _ "[]"])

lemma read_lines_line:
  "NL \<notin> set l \<Longrightarrow> Suc (length l) < LINE_MAX \<Longrightarrow> read_lines (l @ NL # r) = (l @ [NL]) # read_lines r"
  by (simp add: read_lines.simps [of "l @ NL # r"] fgets_line)

text \<open>
  A good rule and then a bare address at the end of the file, or an address, a blank and
  the line end: both crash; the bare address with its newline behind it does not.
\<close>

theorem txtfile_missing_flag_faults_witness:
  "parse_file True two_hosts (\<lambda>_. Some (''10.0.0.1 allow'' @ NL # ''10.0.0.1'')) empty_data = Inl NullDeref
   \<and> parse_file True two_hosts (\<lambda>_. Some (''10.0.0.1 '' @ NL # ''x'')) empty_data = Inl NullDeref
   \<and> (\<exists>pd. parse_file True two_hosts (\<lambda>_. Some (''10.0.0.1'' @ NL # ''x'')) empty_data = Inr ([], pd))"
proof (intro conjI)
  have a: "valid_address True two_hosts ''10.0.0.1''" by (simp add: two_hosts_def valid_address_def)
  have 1: "no_flag True two_hosts ''10.0.0.1''" unfolding no_flag_def
    by (intro exI [of _ 0] disjI2 exI [of _ "''10.0.0.1''"] exI [of _ "[]"]) (use a in auto)
  have 2: "no_flag True two_hosts (''10.0.0.1 '' @ [NL])" unfolding no_flag_def
    by (intro exI [of _ 0] disjI2 exI [of _ "''10.0.0.1''"] exI [of _ "'' '' @ [NL]"]) (use a in auto)
  show "parse_file True two_hosts (\<lambda>_. Some (''10.0.0.1 allow'' @ NL # ''10.0.0.1'')) empty_data = Inl NullDeref"
    using txtfile_missing_flag_faults [of "\<lambda>_. Some (''10.0.0.1 allow'' @ NL # ''10.0.0.1'')" empty_data _ True two_hosts]
      1 by (simp add: read_lines_line [of "''10.0.0.1 allow''", simplified] read_lines_last LINE_MAX_def)
  show "parse_file True two_hosts (\<lambda>_. Some (''10.0.0.1 '' @ NL # ''x'')) empty_data = Inl NullDeref"
    using txtfile_missing_flag_faults [of "\<lambda>_. Some (''10.0.0.1 '' @ NL # ''x'')" empty_data _ True two_hosts]
      2 by (simp add: read_lines_line [of "''10.0.0.1 ''", simplified] read_lines_last LINE_MAX_def)
  have "\<not> no_flag True two_hosts (''10.0.0.1'' @ [NL])" "\<not> no_flag True two_hosts ''x''"
    using parse_line_no_flag [of "''10.0.0.1'' @ [NL]" True two_hosts]
      parse_line_no_flag [of "''x''" True two_hosts]
    by (auto simp: parse_line_def c_string_cstr0 c_strtok_r_def parse_address_def two_hosts_def)
  then show "\<exists>pd. parse_file True two_hosts (\<lambda>_. Some (''10.0.0.1'' @ NL # ''x'')) empty_data = Inr ([], pd)"
    using txtfile_missing_flag_faults [of "\<lambda>_. Some (''10.0.0.1'' @ NL # ''x'')" empty_data _ True two_hosts]
    by (auto simp: read_lines_line [of "''10.0.0.1''", simplified] read_lines_last LINE_MAX_def)
qed

text \<open>
  An unreadable file keeps the old list and writes to Squid's channel.  When the file
  cannot be opened (at start-up or when a watched file has gone), the entries stay, lookups
  answer as before, and the line \<open>ERROR\<close> goes to stdout, where Squid reads replies; it is
  not one of the replies of the protocol for any channel.
\<close>

theorem txtfile_unreadable_file:
  assumes "fs (filename pd) = None"
  shows "\<exists>out. file_change_cb v6 env fs pd = Inr (out, pd) \<and> out \<noteq> [] \<and> scan_zu out = None"
  using assms
  by (simp add: file_change_cb_def parse_file_def scan_zu_def is_space_def is_digit_def less_eq_char_def)

theorem txtfile_unreadable_file_witness:
  "\<exists>out. file_change_cb True two_hosts (\<lambda>_. None) empty_data = Inr (out, empty_data) \<and> scan_zu out = None"
  using txtfile_unreadable_file [of "\<lambda>_. None" empty_data True two_hosts] by auto

section \<open>The plugin keeps its contract\<close>

definition txt_ok :: "'w txt_access \<Rightarrow> 'w \<Rightarrow> bool" where
  "txt_ok acc w \<longleftrightarrow> chain_ok (txt_get acc w)"

lemma txtfile_hook_ok:
  assumes "\<And>w. wok w \<Longrightarrow> txt_ok acc w"
  shows "hook_ok wok (\<lambda>r w.
    c_bind (webcontrol_txtfile_handle_request r (txt_get acc w)) (\<lambda>st. Inr (st, r, w)))"
  unfolding hook_ok_def
proof (intro allI impI)
  fix r w a assume "request_wf r a" "wok w"
  then have "\<exists>st. lookup_entry r (entry_chain (txt_get acc w)) = Inr st"
    using lookup_total [OF request_sockaddr_ok] assms by (auto simp: txt_ok_def chain_ok_def)
  with \<open>wok w\<close> show "\<exists>st r' w'. c_bind (webcontrol_txtfile_handle_request r (txt_get acc w))
      (\<lambda>st. Inr (st, r, w)) = Inr (st, r', w') \<and> wok w' \<and> channel r' = channel r \<and> ip_addr r' = ip_addr r"
    by (auto simp: webcontrol_txtfile_handle_request_def)
qed

lemma parse_line_chain_ok:
  "parse_line v6 env line = Inr (Some e) \<Longrightarrow> sockaddr_ok (ip_sockaddr (he_address e))"
  unfolding parse_line_def Let_def
  by (auto elim!: c_bind_InrE split: prod.splits option.splits
      dest!: sockaddr_of_ok [OF parse_address_sockaddr])

lemma parse_entries_chain_ok:
  "parse_entries v6 env s chain = Inr chain' \<Longrightarrow>
     list_all (\<lambda>e. sockaddr_ok (ip_sockaddr (he_address e))) chain \<Longrightarrow>
     list_all (\<lambda>e. sockaddr_ok (ip_sockaddr (he_address e))) chain'"
proof (induction v6 env s chain rule: parse_entries.induct)
  case (1 v6 env s chain)
  show ?case
  proof (cases "fgets LINE_MAX s")
    case None
    with "1.prems" show ?thesis by (subst (asm) parse_entries.simps) simp
  next
    case (Some lr)
    then obtain l r where lr: "fgets LINE_MAX s = Some (l, r)" by (cases lr) auto
    note run = "1.prems"(1) [unfolded parse_entries.simps [of v6 env s chain] lr option.case prod.case]
    then obtain c where c: "parse_line v6 env (cstr l) = Inr c" by (auto simp: c_bind_eq_Inr)
    show ?thesis
    proof (cases c)
      case None
      with "1.IH"(1) [OF lr refl c] run c "1.prems"(2) show ?thesis by simp
    next
      case (Some e)
      with "1.IH"(2) [OF lr refl c] run c "1.prems"(2) parse_line_chain_ok [of v6 env "cstr l" e]
      show ?thesis by simp
    qed
  qed
qed

lemma parse_file_chain_ok:
  assumes "parse_file v6 env fs pd = Inr (out, pd')" "chain_ok pd"
  shows "chain_ok pd'"
  using assms parse_entries_chain_ok [of v6 env _ "clear_chain (entry_chain pd)"]
  by (auto simp: parse_file_def chain_ok_def clear_entries_def c_bind_eq_Inr Let_def clear_chain_Nil
      split: option.splits)

text \<open>
  Reloading keeps the chain usable.  Whatever the file contains and whatever was
  loaded before, if the parser returns, every entry has a complete address, so no later
  lookup reads an indeterminate byte or faults.
\<close>

theorem txtfile_reload_keeps_lookup_total:
  assumes "parse_file v6 env fs pd = Inr (out, pd')" "chain_ok pd" "request_wf req a"
  shows "chain_ok pd' \<and> (\<exists>st. webcontrol_txtfile_handle_request req pd' = Inr st)"
proof -
  have "chain_ok pd'" by (rule parse_file_chain_ok [OF assms(1,2)])
  then show ?thesis
    using lookup_total [OF request_sockaddr_ok [OF assms(3)]]
    by (simp add: webcontrol_txtfile_handle_request_def chain_ok_def)
qed

theorem txtfile_reload_keeps_lookup_total_witness:
  "\<exists>st. webcontrol_txtfile_handle_request request_1 empty_data = Inr st"
proof -
  have "parse_file True two_hosts (\<lambda>_. None) empty_data = Inr (''ERROR'' @ [NL], empty_data)"
    by (simp add: parse_file_def)
  from txtfile_reload_keeps_lookup_total [OF this _ request_1_wf] show ?thesis
    by (simp add: chain_ok_def empty_data_def)
qed

end
