(* ===== verification/Memcached.thy ===== *)
theory Memcached
  imports Request
begin

text \<open>
  The cache plugin \<open>src/plugins/mod_memcached/webcontrol_memcached.c\<close> and the macro
  \<open>str4_cmp\<close> of \<open>src/core/webcontrol.h\<close>.

  libmemcached and libconfuse are code outside the repository: their calls are the fields
  of a record the definitions take as an argument.  A call acts on the state \<open>'w\<close> of the
  world, which includes the calling thread's connection (the thread-local \<open>memc\<close>).
\<close>

unbundle bit_operations_syntax

section \<open>Comparing four characters\<close>

text \<open>\<open>*((unsigned int * ) str)\<close> on a little-endian machine.\<close>

definition load_word :: "block \<Rightarrow> 32 word c_result" where
  "load_word blk =
     c_bind (load_cell blk 0) (\<lambda>b0.
     c_bind (load_cell blk 1) (\<lambda>b1.
     c_bind (load_cell blk 2) (\<lambda>b2.
     c_bind (load_cell blk 3) (\<lambda>b3.
     Inr (push_bit 24 (of_char b3) OR push_bit 16 (of_char b2) OR push_bit 8 (of_char b1) OR of_char b0)))))"

text \<open>The sources pass ASCII letters for \<open>c0\<close> to \<open>c3\<close>, whose \<open>int\<close> values are their codes.\<close>

definition str4_cmp :: "block \<Rightarrow> char \<Rightarrow> char \<Rightarrow> char \<Rightarrow> char \<Rightarrow> bool c_result" where
  "str4_cmp str c0 c1 c2 c3 =
     c_bind (load_word str) (\<lambda>x.
     Inr (x = (push_bit 24 (of_char c3) OR push_bit 16 (of_char c2) OR push_bit 8 (of_char c1) OR of_char c0)))"

section \<open>Keys\<close>

definition MEMCACHED_MAX_KEY :: nat where "MEMCACHED_MAX_KEY = 251"

definition WEBCONTROL_MEMCACHED_DEFAULT_KEY_PREFIX :: string where
  "WEBCONTROL_MEMCACHED_DEFAULT_KEY_PREFIX = ''webcontrol_host_''"

definition WEBCONTROL_MEMCACHED_DEFAULT_SERVERS :: string where
  "WEBCONTROL_MEMCACHED_DEFAULT_SERVERS = ''--SERVER=127.0.0.1''"

definition webcontrol_memcached_generate_key :: "request \<Rightarrow> block \<Rightarrow> (block \<times> size_t) c_result" where
  "webcontrol_memcached_generate_key req key =
     c_bind (c_strlen (cstr WEBCONTROL_MEMCACHED_DEFAULT_KEY_PREFIX)) (\<lambda>n.
     c_bind (c_memcpy key 0 (cstr WEBCONTROL_MEMCACHED_DEFAULT_KEY_PREFIX) n) (\<lambda>key.
     case ip_str_len (ip_addr req) of
       None \<Rightarrow> Inl Uninitialised
     | Some l \<Rightarrow>
         c_bind (c_memcpy key n (ip_str (ip_addr req)) (unat l)) (\<lambda>key. Inr (key, of_nat n + l))))"

text \<open>The key libmemcached is handed: \<open>key_len\<close> bytes.\<close>

definition key_bytes :: "block \<Rightarrow> size_t \<Rightarrow> string c_result" where
  "key_bytes key n =
     (if unat n > length key then Inl OutOfBounds
      else if None \<in> set (take (unat n) key) then Inl Uninitialised
      else Inr (map the (take (unat n) key)))"

section \<open>The library and the configuration\<close>

record ('w, 's) mc_lib =
  memcached_create :: "'w \<Rightarrow> bool \<times> 'w"
  memcached_server_push :: "'s \<Rightarrow> 'w \<Rightarrow> bool \<times> 'w"
  memcached_servers_parse :: "string \<Rightarrow> 's"
  memcached_server_list_append :: "'s option \<Rightarrow> string option \<Rightarrow> 16 word \<Rightarrow> 's"
  memcached_get :: "string \<Rightarrow> 'w \<Rightarrow> string option \<times> 'w"
  memcached_set :: "string \<Rightarrow> string \<Rightarrow> 'w \<Rightarrow> bool \<times> 'w"
  mc_servers :: "'w \<Rightarrow> 's option"
  mc_put_servers :: "'s option \<Rightarrow> 'w \<Rightarrow> 'w"
  mc_section :: "'w \<Rightarrow> string list option"

text \<open>\<open>thread_init\<close>: without configured servers the default list is used.\<close>

definition webcontrol_memcached_thread_init :: "('w, 's) mc_lib \<Rightarrow> 'w \<Rightarrow> (int \<times> 'w) c_result" where
  "webcontrol_memcached_thread_init lib w =
     (let (memc, w) = memcached_create lib w
      in if \<not> memc then Inr (-1, w)
         else (let (success, w) =
                 (case mc_servers lib w of
                    Some servers \<Rightarrow> memcached_server_push lib servers w
                  | None \<Rightarrow> memcached_server_push lib
                      (memcached_servers_parse lib WEBCONTROL_MEMCACHED_DEFAULT_SERVERS) w)
               in if \<not> success then Inr (-1, w) else Inr (0, w)))"

definition webcontrol_memcached_handle_request ::
  "('w, 's) mc_lib \<Rightarrow> request \<Rightarrow> 'w \<Rightarrow> (handler_status \<times> request \<times> 'w) c_result" where
  "webcontrol_memcached_handle_request lib req w =
     c_bind (webcontrol_memcached_generate_key req (replicate MEMCACHED_MAX_KEY (Some NUL))) (\<lambda>(key, key_len).
     c_bind (key_bytes key key_len) (\<lambda>k.
     let (value, w) = memcached_get lib k w
     in case value of
          Some v \<Rightarrow>
            c_bind (str4_cmp (map Some v) CHR ''T'' CHR ''R'' CHR ''U'' CHR ''E'') (\<lambda>eq.
            Inr (if eq then HANDLER_ALLOW else HANDLER_DENY, req\<lparr>skip_post_handle_request := True\<rparr>, w))
        | None \<Rightarrow> Inr (HANDLER_GO_ON, req, w)))"

definition cache_value :: "request \<Rightarrow> string" where
  "cache_value req = (if response_result req = status_code HANDLER_ALLOW then ''TRUE'' else ''FALSE'')"

text \<open>The result of \<open>memcached_set\<close> is only logged.\<close>

definition webcontrol_memcached_post_handle_request ::
  "('w, 's) mc_lib \<Rightarrow> request \<Rightarrow> 'w \<Rightarrow> (handler_status \<times> request \<times> 'w) c_result" where
  "webcontrol_memcached_post_handle_request lib req w =
     c_bind (webcontrol_memcached_generate_key req (replicate MEMCACHED_MAX_KEY (Some NUL))) (\<lambda>(key, key_len).
     c_bind (key_bytes key key_len) (\<lambda>k.
     let (_, w) = memcached_set lib k (cache_value req) w in Inr (HANDLER_OK, req, w)))"

text \<open>\<open>sscanf (port, "%hu", \<dots>)\<close>: the low 16 bits of the number; 0 stays when there is none.\<close>

definition scan_port :: "string option \<Rightarrow> 16 word" where
  "scan_port port =
     (case port of None \<Rightarrow> 0
      | Some p \<Rightarrow> (case scan_zu p of None \<Rightarrow> 0 | Some (n, _) \<Rightarrow> ucast n))"

text \<open>One server string, cut at its colons by \<open>strtok\<close>.\<close>

definition split_server :: "string \<Rightarrow> string option \<times> 16 word" where
  "split_server server =
     (let (host, tmp) = c_strtok_r '':'' server;
          (port, _) = c_strtok_r '':'' tmp
      in (host, scan_port port))"

fun append_servers :: "('w, 's) mc_lib \<Rightarrow> 's option \<Rightarrow> string list \<Rightarrow> 's option" where
  "append_servers lib acc [] = acc"
| "append_servers lib acc (server # ss) =
     (let (host, port) = split_server server
      in append_servers lib (Some (memcached_server_list_append lib acc host port)) ss)"

definition webcontrol_memcached_processconfig :: "('w, 's) mc_lib \<Rightarrow> 'w \<Rightarrow> 'w c_result" where
  "webcontrol_memcached_processconfig lib w =
     (let w1 = mc_put_servers lib None w
      in case mc_section lib w1 of
           None \<Rightarrow> Inr w1
         | Some servers \<Rightarrow> Inr (mc_put_servers lib (append_servers lib None servers) w1))"

definition webcontrol_memcached_free :: "('w, 's) mc_lib \<Rightarrow> 'w \<Rightarrow> 'w c_result" where
  "webcontrol_memcached_free lib w = Inr (mc_put_servers lib None w)"

definition webcontrol_mod_memcached_plugin_init ::
  "('w, 's) mc_lib \<Rightarrow> 'w plugin \<Rightarrow> 'w plugin c_result" where
  "webcontrol_mod_memcached_plugin_init lib p =
     c_bind (buffer_init_string (Some (cstr ''memcached''))) (\<lambda>name.
     Inr (p\<lparr>pl_name := Some name,
            pl_options := Some [''servers''],
            pl_config_file_parsed := Some (webcontrol_memcached_processconfig lib),
            pl_plugin_free := Some (webcontrol_memcached_free lib),
            pl_thread_init := Some (webcontrol_memcached_thread_init lib),
            pl_handle_request := Some (webcontrol_memcached_handle_request lib),
            pl_post_handle_request := Some (webcontrol_memcached_post_handle_request lib)\<rparr>))"

section \<open>Four characters are one word\<close>

lemma of_char_word_bit: "bit (of_char c :: 32 word) n \<Longrightarrow> n < 8"
proof -
  have "take_bit 8 (of_char c :: nat) = of_char c"
    by (simp add: take_bit_nat_eq_self)
  then have "take_bit 8 (of_nat (of_char c) :: 32 word) = of_nat (of_char c)"
    by (simp only: take_bit_of_nat)
  then have "take_bit 8 (of_char c :: 32 word) = of_char c" by (simp only: of_nat_of_char)
  then show "bit (of_char c :: 32 word) n \<Longrightarrow> n < 8" by (metis bit_take_bit_iff)
qed

lemma word_of_four:
  fixes b0 b1 b2 b3 :: "32 word"
  assumes "\<And>n. bit b0 n \<Longrightarrow> n < 8" "\<And>n. bit b1 n \<Longrightarrow> n < 8" "\<And>n. bit b2 n \<Longrightarrow> n < 8" "\<And>n. bit b3 n \<Longrightarrow> n < 8"
  defines "x \<equiv> push_bit 24 b3 OR push_bit 16 b2 OR push_bit 8 b1 OR b0"
  shows "take_bit 8 x = b0" "take_bit 8 (drop_bit 8 x) = b1" "take_bit 8 (drop_bit 16 x) = b2" "drop_bit 24 x = b3"
proof -
  have b: "bit b0 n \<longleftrightarrow> n < 8 \<and> bit b0 n" "bit b1 n \<longleftrightarrow> n < 8 \<and> bit b1 n"
    "bit b2 n \<longleftrightarrow> n < 8 \<and> bit b2 n" "bit b3 n \<longleftrightarrow> n < 8 \<and> bit b3 n" for n
    using assms(1-4) by auto
  show "take_bit 8 x = b0"
    by (rule bit_word_eqI) (use b in \<open>auto simp: x_def bit_simps\<close>)
  show "take_bit 8 (drop_bit 8 x) = b1"
    by (rule bit_word_eqI) (use assms(1-4) in \<open>auto simp: x_def bit_simps dest: assms(1-4)\<close>)
  show "take_bit 8 (drop_bit 16 x) = b2"
    by (rule bit_word_eqI) (use assms(1-4) in \<open>auto simp: x_def bit_simps dest: assms(1-4)\<close>)
  show "drop_bit 24 x = b3"
    by (rule bit_word_eqI) (use assms(1-4) in \<open>auto simp: x_def bit_simps dest: assms(1-4)\<close>)
qed

lemma of_char_word_eq: "(of_char c :: 32 word) = of_char d \<longleftrightarrow> c = d"
proof
  assume "(of_char c :: 32 word) = of_char d"
  then have "unat (of_nat (of_char c) :: 32 word) = unat (of_nat (of_char d) :: 32 word)"
    by (simp only: of_nat_of_char)
  moreover have "unat (of_nat (of_char x) :: 32 word) = of_char x" for x
    by (simp only: unsigned_of_nat of_nat_id)
      (rule take_bit_nat_eq_self, rule order_less_trans [OF nat_of_char_less_256], simp)
  ultimately show "c = d" by (simp only:) simp
qed simp

lemma str4_cmp_eq:
  "str4_cmp (map Some (v0 # v1 # v2 # v3 # rest)) c0 c1 c2 c3 =
     Inr (v0 = c0 \<and> v1 = c1 \<and> v2 = c2 \<and> v3 = c3)"
proof -
  let ?w = "\<lambda>a b c d :: char. push_bit 24 (of_char a) OR push_bit 16 (of_char b) OR push_bit 8 (of_char c)
    OR of_char d :: 32 word"
  have four: "take_bit 8 (?w a b c d) = of_char d" "take_bit 8 (drop_bit 8 (?w a b c d)) = of_char c"
    "take_bit 8 (drop_bit 16 (?w a b c d)) = of_char b" "drop_bit 24 (?w a b c d) = of_char a" for a b c d
    by (rule word_of_four(1) word_of_four(2) word_of_four(3) word_of_four(4); erule of_char_word_bit)+
  have "?w v3 v2 v1 v0 = ?w c3 c2 c1 c0 \<longleftrightarrow> v0 = c0 \<and> v1 = c1 \<and> v2 = c2 \<and> v3 = c3"
    using four [of v3 v2 v1 v0] four [of c3 c2 c1 c0] of_char_word_eq by metis
  then show ?thesis
    by (simp add: str4_cmp_def load_word_def load_cell_def)
qed

lemma str4_cmp_short: "length v < 4 \<Longrightarrow> str4_cmp (map Some v) c0 c1 c2 c3 = Inl OutOfBounds"
  by (cases v rule: list.exhaust; cases "tl v"; cases "tl (tl v)"; cases "tl (tl (tl v))")
    (auto simp: str4_cmp_def load_word_def load_cell_def)

lemma four_chars: "4 \<le> length v \<Longrightarrow> \<exists>v0 v1 v2 v3 rest. v = v0 # v1 # v2 # v3 # rest"
  by (cases v; cases "tl v"; cases "tl (tl v)"; cases "tl (tl (tl v))") auto

lemma str4_cmp_InrD:
  assumes "str4_cmp (map Some v) c0 c1 c2 c3 = Inr r"
  shows "4 \<le> length v" "r \<longleftrightarrow> take 4 v = [c0, c1, c2, c3]"
proof -
  show n: "4 \<le> length v" using assms str4_cmp_short [of v c0 c1 c2 c3] by (cases "length v < 4") auto
  obtain v0 v1 v2 v3 rest where "v = v0 # v1 # v2 # v3 # rest" using four_chars [OF n] by blast
  with assms str4_cmp_eq [of v0 v1 v2 v3 rest c0 c1 c2 c3] show "r \<longleftrightarrow> take 4 v = [c0, c1, c2, c3]" by auto
qed

section \<open>Keys of well-formed requests\<close>

definition cache_key :: "string \<Rightarrow> string" where
  "cache_key a = WEBCONTROL_MEMCACHED_DEFAULT_KEY_PREFIX @ a"

lemma generate_key_ok:
  assumes "request_wf req a"
  shows "\<exists>n. webcontrol_memcached_generate_key req (replicate MEMCACHED_MAX_KEY (Some NUL)) =
      Inr (map Some (cache_key a) @ replicate (MEMCACHED_MAX_KEY - length (cache_key a)) (Some NUL), n)
    \<and> unat n = length (cache_key a) \<and> length (cache_key a) < MEMCACHED_MAX_KEY"
proof -
  let ?p = WEBCONTROL_MEMCACHED_DEFAULT_KEY_PREFIX
  from assms obtain rest where a: "ip_str (ip_addr req) = cstr a @ rest" "NUL \<notin> set a" "length a \<le> 45"
    "ip_str_len (ip_addr req) = Some (of_nat (length a))"
    by (auto simp: request_wf_def)
  have p: "length ?p = 16" "NUL \<notin> set ?p"
    by (simp_all add: WEBCONTROL_MEMCACHED_DEFAULT_KEY_PREFIX_def)
  have n: "unat (of_nat (length a) :: size_t) = length a"
    using a(3) by (intro unat_of_nat_small) simp
  have 1: "c_strlen (cstr ?p) = Inr 16"
    using c_strlen_cstr [OF p(2), of "[]"] p(1) by simp
  have 2: "c_memcpy (replicate 251 (Some NUL)) 0 (cstr ?p) 16 = Inr (map Some ?p @ replicate 235 (Some NUL))"
    using p(1) by (simp add: c_memcpy_def cstr_def)
  have 3: "c_memcpy (map Some ?p @ replicate 235 (Some NUL)) 16 (cstr a @ rest) (length a) =
      Inr (map Some (cache_key a) @ replicate (235 - length a) (Some NUL))"
    using p(1) a(3) by (simp add: c_memcpy_def cstr_def cache_key_def)
  have 4: "unat (of_nat 16 + of_nat (length a) :: size_t) = 16 + length a"
    using a(3) unat_of_nat_small [of "16 + length a"] by simp
  show ?thesis
    using 1 2 3 4 p(1) a by (simp add: webcontrol_memcached_generate_key_def MEMCACHED_MAX_KEY_def n cache_key_def)
qed

lemma key_bytes_ok:
  assumes "request_wf req a"
  shows "\<exists>key n. webcontrol_memcached_generate_key req (replicate MEMCACHED_MAX_KEY (Some NUL)) = Inr (key, n)
    \<and> key_bytes key n = Inr (cache_key a)"
proof -
  obtain n where n: "webcontrol_memcached_generate_key req (replicate MEMCACHED_MAX_KEY (Some NUL)) =
      Inr (map Some (cache_key a) @ replicate (MEMCACHED_MAX_KEY - length (cache_key a)) (Some NUL), n)"
    "unat n = length (cache_key a)"
    using generate_key_ok [OF assms] by blast
  have "key_bytes (map Some (cache_key a) @ replicate (MEMCACHED_MAX_KEY - length (cache_key a)) (Some NUL)) n
      = Inr (cache_key a)"
    using n(2) by (auto simp: key_bytes_def)
  with n(1) show ?thesis by blast
qed

lemma handle_request_run:
  assumes "request_wf req a"
  shows "webcontrol_memcached_handle_request lib req w =
    (let (value, w) = memcached_get lib (cache_key a) w
     in case value of
          Some v \<Rightarrow>
            c_bind (str4_cmp (map Some v) CHR ''T'' CHR ''R'' CHR ''U'' CHR ''E'') (\<lambda>eq.
            Inr (if eq then HANDLER_ALLOW else HANDLER_DENY, req\<lparr>skip_post_handle_request := True\<rparr>, w))
        | None \<Rightarrow> Inr (HANDLER_GO_ON, req, w))"
  using key_bytes_ok [OF assms] by (auto simp: webcontrol_memcached_handle_request_def)

lemma post_handle_request_run:
  assumes "request_wf req a"
  shows "webcontrol_memcached_post_handle_request lib req w =
    Inr (HANDLER_OK, req, snd (memcached_set lib (cache_key a) (cache_value req) w))"
  using key_bytes_ok [OF assms]
  by (auto simp: webcontrol_memcached_post_handle_request_def split: prod.split)

section \<open>What is relied on of memcached\<close>

text \<open>
  The documented behaviour of a memcached server as this plugin sees it: entries may
  disappear at any time, but a \<open>get\<close> returns nothing or what is stored, and a \<open>set\<close> that
  succeeds stores the value (a failed one may or may not have done so).  Only this plugin
  stores under its keys.
\<close>

definition mc_contract ::
  "('w, 's) mc_lib \<Rightarrow> ('w \<Rightarrow> bool) \<Rightarrow> ('w \<Rightarrow> string \<Rightarrow> string option) \<Rightarrow> bool" where
  "mc_contract lib ok contents \<longleftrightarrow>
     (\<forall>w k v w'. ok w \<longrightarrow> memcached_get lib k w = (v, w') \<longrightarrow>
        ok w' \<and> (v = None \<or> v = contents w k) \<and> (\<forall>j. contents w' j = None \<or> contents w' j = contents w j)) \<and>
     (\<forall>w k x s w'. ok w \<longrightarrow> memcached_set lib k x w = (s, w') \<longrightarrow>
        ok w' \<and> (contents w' k = None \<or> contents w' k = Some x \<or> \<not> s \<and> contents w' k = contents w k)
        \<and> (\<forall>j. j \<noteq> k \<longrightarrow> contents w' j = None \<or> contents w' j = contents w j)) \<and>
     (\<forall>w b w'. ok w \<longrightarrow> memcached_create lib w = (b, w') \<longrightarrow> ok w' \<and> contents w' = contents w) \<and>
     (\<forall>w s b w'. ok w \<longrightarrow> memcached_server_push lib s w = (b, w') \<longrightarrow> ok w' \<and> contents w' = contents w)"

definition cache_sane :: "('w \<Rightarrow> string \<Rightarrow> string option) \<Rightarrow> 'w \<Rightarrow> bool" where
  "cache_sane contents w \<longleftrightarrow>
     (\<forall>a v. contents w (cache_key a) = Some v \<longrightarrow> v = ''TRUE'' \<or> v = ''FALSE'')"

definition mc_ok :: "('w \<Rightarrow> bool) \<Rightarrow> ('w \<Rightarrow> string \<Rightarrow> string option) \<Rightarrow> 'w \<Rightarrow> bool" where
  "mc_ok ok contents w \<longleftrightarrow> ok w \<and> cache_sane contents w"

lemma mc_getD:
  assumes "mc_contract lib ok contents" "memcached_get lib k w = (v, w')" "ok w"
  shows "ok w'" "v = None \<or> v = contents w k" "contents w' j = None \<or> contents w' j = contents w j"
  using assms unfolding mc_contract_def by blast+

lemma mc_setD:
  assumes "mc_contract lib ok contents" "memcached_set lib k x w = (s, w')" "ok w"
  shows "ok w'" "contents w' k = None \<or> contents w' k = Some x \<or> \<not> s \<and> contents w' k = contents w k"
    "j \<noteq> k \<Longrightarrow> contents w' j = None \<or> contents w' j = contents w j"
  using assms unfolding mc_contract_def by blast+

lemma cache_sane_step:
  assumes "cache_sane contents w"
    and "\<And>j. contents w' j = None \<or> contents w' j = contents w j \<or> contents w' j \<in> {Some ''TRUE'', Some ''FALSE''}"
  shows "cache_sane contents w'"
  unfolding cache_sane_def
proof (intro allI impI)
  fix a v assume v: "contents w' (cache_key a) = Some v"
  then consider "contents w (cache_key a) = Some v" | "Some v \<in> {Some ''TRUE'', Some ''FALSE''}"
    using assms(2) [of "cache_key a"] by auto
  then show "v = ''TRUE'' \<or> v = ''FALSE''"
    using assms(1) unfolding cache_sane_def by cases blast+
qed

lemma mc_get_sane:
  assumes "mc_contract lib ok contents" "memcached_get lib k w = (v, w')" "mc_ok ok contents w"
  shows "mc_ok ok contents w'"
proof -
  from assms(3) have ok: "ok w" and sane: "cache_sane contents w" by (simp_all add: mc_ok_def)
  note get = mc_getD [OF assms(1,2) ok]
  have "cache_sane contents w'"
    by (rule cache_sane_step [OF sane]) (use get(3) in blast)
  with get(1) show ?thesis by (simp add: mc_ok_def)
qed

lemma mc_set_sane:
  assumes "mc_contract lib ok contents" "memcached_set lib (cache_key a) x w = (s, w')" "mc_ok ok contents w"
    "x = ''TRUE'' \<or> x = ''FALSE''"
  shows "mc_ok ok contents w'"
proof -
  from assms(3) have ok: "ok w" and sane: "cache_sane contents w" by (simp_all add: mc_ok_def)
  note set_laws = mc_setD [OF assms(1,2) ok]
  have "cache_sane contents w'"
  proof (rule cache_sane_step [OF sane])
    show "contents w' j = None \<or> contents w' j = contents w j \<or> contents w' j \<in> {Some ''TRUE'', Some ''FALSE''}" for j
      using set_laws(2) set_laws(3) [of j] assms(4) by (cases "j = cache_key a") auto
  qed
  with set_laws(1) show ?thesis by (simp add: mc_ok_def)
qed

lemma cache_value_cases: "cache_value r = ''TRUE'' \<or> cache_value r = ''FALSE''"
  by (simp add: cache_value_def)

text \<open>The decision a stored value stands for.\<close>

definition cached_status :: "string \<Rightarrow> handler_status" where
  "cached_status v = (if v = ''TRUE'' then HANDLER_ALLOW else HANDLER_DENY)"

lemma handle_request_cases:
  assumes "mc_contract lib ok contents" "mc_ok ok contents w" "request_wf req a"
  obtains w' where "webcontrol_memcached_handle_request lib req w = Inr (HANDLER_GO_ON, req, w')"
      "mc_ok ok contents w'" "memcached_get lib (cache_key a) w = (None, w')"
  | v w' where "contents w (cache_key a) = Some v" "mc_ok ok contents w'"
      "webcontrol_memcached_handle_request lib req w =
         Inr (cached_status v, req\<lparr>skip_post_handle_request := True\<rparr>, w')"
      "memcached_get lib (cache_key a) w = (Some v, w')"
proof -
  obtain val w' where g: "memcached_get lib (cache_key a) w = (val, w')" by fastforce
  have ok: "mc_ok ok contents w'" by (rule mc_get_sane [OF assms(1) g assms(2)])
  show ?thesis
  proof (cases val)
    case None
    with g ok that(1) handle_request_run [OF assms(3), of lib w] show ?thesis by simp
  next
    case (Some v)
    then have c: "contents w (cache_key a) = Some v"
      using mc_getD(2) [OF assms(1) g] assms(2) by (auto simp: mc_ok_def)
    then have "v = ''TRUE'' \<or> v = ''FALSE''" using assms(2) by (auto simp: mc_ok_def cache_sane_def)
    then have "str4_cmp (map Some v) CHR ''T'' CHR ''R'' CHR ''U'' CHR ''E'' = Inr (v = ''TRUE'')"
      using str4_cmp_eq [of _ _ _ _ "tl (tl (tl (tl v)))"] by auto
    with g Some handle_request_run [OF assms(3), of lib w] that(2) [OF c ok] show ?thesis
      by (simp add: cached_status_def)
  qed
qed

lemma memcached_hooks_ok:
  assumes "mc_contract lib ok contents"
  shows "hook_ok (mc_ok ok contents) (webcontrol_memcached_handle_request lib)"
    "hook_ok (mc_ok ok contents) (webcontrol_memcached_post_handle_request lib)"
proof -
  show "hook_ok (mc_ok ok contents) (webcontrol_memcached_handle_request lib)"
    unfolding hook_ok_def
  proof (intro allI impI)
    fix r w a assume r: "request_wf r a" and w: "mc_ok ok contents w"
    show "\<exists>st r' w'. webcontrol_memcached_handle_request lib r w = Inr (st, r', w')
        \<and> mc_ok ok contents w' \<and> channel r' = channel r \<and> ip_addr r' = ip_addr r"
      by (rule handle_request_cases [OF assms w r]) auto
  qed
  show "hook_ok (mc_ok ok contents) (webcontrol_memcached_post_handle_request lib)"
    unfolding hook_ok_def
  proof (intro allI impI)
    fix r w a assume r: "request_wf r a" and w: "mc_ok ok contents w"
    obtain s w' where s: "memcached_set lib (cache_key a) (cache_value r) w = (s, w')" by fastforce
    from mc_set_sane [OF assms s w cache_value_cases] post_handle_request_run [OF r, of lib w] s
    show "\<exists>st r' w'. webcontrol_memcached_post_handle_request lib r w = Inr (st, r', w')
        \<and> mc_ok ok contents w' \<and> channel r' = channel r \<and> ip_addr r' = ip_addr r"
      by auto
  qed
qed

lemma memcached_thread_init_ok:
  assumes "mc_contract lib ok contents" "mc_ok ok contents w"
  shows "\<exists>rc w'. webcontrol_memcached_thread_init lib w = Inr (rc, w') \<and> mc_ok ok contents w'"
proof -
  obtain b w1 where c: "memcached_create lib w = (b, w1)" by fastforce
  then have "ok w1" "contents w1 = contents w"
    using assms unfolding mc_contract_def mc_ok_def by blast+
  then have w1: "mc_ok ok contents w1"
    using assms(2) by (simp add: mc_ok_def cache_sane_def)
  have "mc_ok ok contents w2" if "memcached_server_push lib s w1 = (x, w2)" for s x w2
  proof -
    have "ok w2" "contents w2 = contents w1"
      using assms(1) \<open>ok w1\<close> that unfolding mc_contract_def by blast+
    with w1 show ?thesis by (simp add: mc_ok_def cache_sane_def)
  qed
  with c w1 show ?thesis
    by (auto simp: webcontrol_memcached_thread_init_def split: option.split prod.split)
qed

section \<open>Properties of the cache\<close>

text \<open>
  C37: keys.  For every request a worker hands over, the key is built inside the 251-byte
  array with room for its terminator and is handed to libmemcached with its exact length:
  the prefix followed by the address text.  Requests for different address texts never
  share a key.
\<close>

theorem memcached_keys_safe_and_distinct:
  assumes "request_wf req a" "request_wf req' b"
  shows "\<exists>key n key' n'.
      webcontrol_memcached_generate_key req (replicate MEMCACHED_MAX_KEY (Some NUL)) = Inr (key, n)
    \<and> webcontrol_memcached_generate_key req' (replicate MEMCACHED_MAX_KEY (Some NUL)) = Inr (key', n')
    \<and> key_bytes key n = Inr (WEBCONTROL_MEMCACHED_DEFAULT_KEY_PREFIX @ a)
    \<and> length key = MEMCACHED_MAX_KEY \<and> c_string key = Inr (WEBCONTROL_MEMCACHED_DEFAULT_KEY_PREFIX @ a)
    \<and> (key_bytes key n = key_bytes key' n' \<longleftrightarrow> a = b)"
proof -
  let ?pad = "\<lambda>a. replicate (MEMCACHED_MAX_KEY - length (cache_key a)) (Some NUL)"
  obtain n where n: "webcontrol_memcached_generate_key req (replicate MEMCACHED_MAX_KEY (Some NUL)) =
      Inr (map Some (cache_key a) @ ?pad a, n)" "unat n = length (cache_key a)"
    "length (cache_key a) < MEMCACHED_MAX_KEY"
    using generate_key_ok [OF assms(1)] by blast
  obtain n' where n': "webcontrol_memcached_generate_key req' (replicate MEMCACHED_MAX_KEY (Some NUL)) =
      Inr (map Some (cache_key b) @ ?pad b, n')" "unat n' = length (cache_key b)"
    using generate_key_ok [OF assms(2)] by blast
  have k: "key_bytes (map Some (cache_key c) @ ?pad c) m = Inr (cache_key c)"
    if "unat m = length (cache_key c)" for c m
    using that by (auto simp: key_bytes_def)
  have nul: "NUL \<notin> set (cache_key a)"
    using assms(1) by (auto simp: cache_key_def request_wf_def WEBCONTROL_MEMCACHED_DEFAULT_KEY_PREFIX_def)
  obtain m where m: "MEMCACHED_MAX_KEY - length (cache_key a) = Suc m"
    using n(3) by (metis Suc_diff_Suc)
  have s: "c_string (map Some (cache_key a) @ ?pad a) = Inr (cache_key a)"
    using c_string_cstr [OF nul, of "replicate m (Some NUL)"] by (simp add: m cstr_def)
  have len: "length (map Some (cache_key a) @ ?pad a) = MEMCACHED_MAX_KEY" using n(3) by simp
  have eq: "key_bytes (map Some (cache_key a) @ ?pad a) n = key_bytes (map Some (cache_key b) @ ?pad b) n'
      \<longleftrightarrow> a = b"
    using k [OF n(2)] k [OF n'(2)] by (simp add: cache_key_def)
  show ?thesis
    using n(1) n'(1) k [OF n(2)] s len eq unfolding cache_key_def by blast
qed

definition request_of :: "string \<Rightarrow> int \<Rightarrow> request" where
  "request_of a result = \<lparr>response_result = result, skip_post_handle_request = False, channel = 0,
     ip_addr = \<lparr>ip_sockaddr = \<lparr>ss_family = AF_INET, sin_addr = Some 1, sin6_addr = None\<rparr>,
       ip_str = cstr a, ip_str_len = Some (of_nat (length a))\<rparr>\<rparr>"

lemma request_of_wf: "NUL \<notin> set a \<Longrightarrow> length a \<le> 45 \<Longrightarrow> request_wf (request_of a result) a"
  by (simp add: request_of_def request_wf_def)

theorem memcached_keys_safe_and_distinct_witness:
  "\<exists>key n key' n'.
      webcontrol_memcached_generate_key (request_of ''::1'' 0) (replicate MEMCACHED_MAX_KEY (Some NUL)) = Inr (key, n)
    \<and> webcontrol_memcached_generate_key (request_of ''10.0.0.1'' 0) (replicate MEMCACHED_MAX_KEY (Some NUL)) = Inr (key', n')
    \<and> key_bytes key n \<noteq> key_bytes key' n'"
proof -
  have "request_wf (request_of ''::1'' 0) ''::1''" "request_wf (request_of ''10.0.0.1'' 0) ''10.0.0.1''"
    by (simp_all add: request_of_wf)
  from memcached_keys_safe_and_distinct [OF this] show ?thesis by blast
qed

text \<open>
  C25: a cached decision comes back.  After the post-request hook has stored the decision
  on a request, a later request for the same address (from any client, on any channel) is
  answered from the cache with exactly that decision, ALLOW for ALLOW and DENY otherwise,
  and with the flag set that stops the post-request hooks; the only other answer, when the
  server has dropped the entry, is \<open>HANDLER_GO_ON\<close> with the request unchanged.
\<close>

theorem memcached_returns_stored_decision:
  assumes "mc_contract lib ok contents" "mc_ok ok contents w" "request_wf req a" "request_wf req' a"
    and "fst (memcached_set lib (cache_key a) (cache_value req) w)"
  shows "\<exists>w1 st r w2. webcontrol_memcached_post_handle_request lib req w = Inr (HANDLER_OK, req, w1)
    \<and> webcontrol_memcached_handle_request lib req' w1 = Inr (st, r, w2)
    \<and> (st = HANDLER_GO_ON \<and> r = req'
      \<or> st = (if response_result req = status_code HANDLER_ALLOW then HANDLER_ALLOW else HANDLER_DENY)
        \<and> r = req'\<lparr>skip_post_handle_request := True\<rparr>)"
proof -
  obtain w1 where s: "memcached_set lib (cache_key a) (cache_value req) w = (True, w1)"
    using assms(5) by (cases "memcached_set lib (cache_key a) (cache_value req) w") auto
  have w1: "mc_ok ok contents w1"
    by (rule mc_set_sane [OF assms(1) s assms(2) cache_value_cases])
  have stored: "contents w1 (cache_key a) = None \<or> contents w1 (cache_key a) = Some (cache_value req)"
    using mc_setD(2) [OF assms(1) s] assms(2) by (auto simp: mc_ok_def)
  have post: "webcontrol_memcached_post_handle_request lib req w = Inr (HANDLER_OK, req, w1)"
    using post_handle_request_run [OF assms(3), of lib w] s by simp
  have st: "cached_status (cache_value req) =
      (if response_result req = status_code HANDLER_ALLOW then HANDLER_ALLOW else HANDLER_DENY)"
    by (simp add: cached_status_def cache_value_def)
  from assms(1) w1 assms(4) show ?thesis
  proof (cases rule: handle_request_cases)
    case (1 w')
    with post show ?thesis by blast
  next
    case (2 v w')
    with stored have "v = cache_value req" by auto
    with post st 2(3) show ?thesis by auto
  qed
qed

text \<open>A server that forgets nothing, for the witnesses.\<close>

definition map_lib :: "(string \<Rightarrow> string option, unit) mc_lib" where
  "map_lib = \<lparr>memcached_create = (\<lambda>w. (True, w)), memcached_server_push = (\<lambda>s w. (True, w)),
     memcached_servers_parse = (\<lambda>s. ()), memcached_server_list_append = (\<lambda>s h p. ()),
     memcached_get = (\<lambda>k w. (w k, w)), memcached_set = (\<lambda>k x w. (True, w(k \<mapsto> x))),
     mc_servers = (\<lambda>w. None), mc_put_servers = (\<lambda>s w. w), mc_section = (\<lambda>w. None)\<rparr>"

lemma map_lib_contract: "mc_contract map_lib (\<lambda>_. True) (\<lambda>w. w)"
  by (auto simp: mc_contract_def map_lib_def)

theorem memcached_returns_stored_decision_witness:
  "\<exists>w1 st r w2. webcontrol_memcached_post_handle_request map_lib (request_of ''10.0.0.1'' 1) (\<lambda>_. None)
      = Inr (HANDLER_OK, request_of ''10.0.0.1'' 1, w1)
    \<and> webcontrol_memcached_handle_request map_lib (request_of ''10.0.0.1'' (-1)) w1 = Inr (st, r, w2)
    \<and> (st = HANDLER_GO_ON \<or> st = HANDLER_ALLOW)"
proof -
  have 1: "request_wf (request_of ''10.0.0.1'' x) ''10.0.0.1''" for x by (simp add: request_of_wf)
  have 2: "mc_ok (\<lambda>_. True) (\<lambda>w. w) (\<lambda>_. None)" by (simp add: mc_ok_def cache_sane_def)
  have 3: "fst (memcached_set map_lib k x w)" for k x w by (simp add: map_lib_def)
  from memcached_returns_stored_decision [OF map_lib_contract 2 1 1 3, of 1 "-1"] show ?thesis
    by (auto simp: request_of_def)
qed

text \<open>
  Only TRUE allows.  Four characters compare equal as one little-endian 32-bit word
  exactly when they are equal one by one, so a value of at least four bytes allows access
  iff it starts with TRUE; a shorter value is read past its end.
\<close>

theorem str4_cmp_correct:
  "str4_cmp (map Some v) c0 c1 c2 c3 =
     (if length v < 4 then Inl OutOfBounds else Inr (take 4 v = [c0, c1, c2, c3]))"
proof (cases "length v < 4")
  case False
  then obtain v0 v1 v2 v3 rest where v: "v = v0 # v1 # v2 # v3 # rest" using four_chars [of v] by auto
  show ?thesis unfolding v str4_cmp_eq by auto
qed (simp add: str4_cmp_short)

text \<open>
  Server strings.  \<open>host:port\<close> gives the host and the port for every port number up to
  65535 and larger numbers wrap at 16 bits; without a port the port is 0; an IPv6 address
  is cut at its colons, so that \<open>::1\<close> is the host \<open>1\<close>.
\<close>

theorem split_server_correct:
  assumes "h \<noteq> []" "CHR '':'' \<notin> set h"
  shows "split_server (h @ CHR '':'' # show_zu n) = (Some h, of_nat (unat n mod 65536))
    \<and> split_server h = (Some h, 0) \<and> split_server ''::1'' = (Some ''1'', 0)"
proof (intro conjI)
  have nc: "CHR '':'' \<notin> set (show_zu n)"
    using show_nat_digits [of "unat n"] by (auto simp: show_zu_def list_all_iff is_digit_def less_eq_char_def)
  have ne: "show_zu n \<noteq> []" using show_nat_digits [of "unat n"] by (simp add: show_zu_def)
  have 1: "c_strtok_r '':'' (h @ CHR '':'' # show_zu n) = (Some h, show_zu n)"
    using assms by (intro c_strtok_r_token) auto
  have 2: "c_strtok_r '':'' (show_zu n) = (Some (show_zu n), [])"
    using ne nc by (intro c_strtok_r_last) auto
  have 3: "scan_zu (show_zu n) = Some (n, [])" using scan_zu_show [of "[]" "[]" n] by simp
  have 4: "(ucast n :: 16 word) = of_nat (unat n mod 65536)"
  proof -
    have "(ucast n :: 16 word) = of_nat (unat n)" by simp
    also have "\<dots> = of_nat (unat n mod 65536)"
      by (simp only: word_of_nat_eq_iff) (simp add: take_bit_eq_mod)
    finally show ?thesis .
  qed
  show "split_server (h @ CHR '':'' # show_zu n) = (Some h, of_nat (unat n mod 65536))"
    by (simp add: split_server_def 1 2 3 4 scan_port_def)
  have "c_strtok_r '':'' h = (Some h, [])" using assms by (intro c_strtok_r_last) auto
  then show "split_server h = (Some h, 0)"
    by (simp add: split_server_def scan_port_def c_strtok_r_def)
  show "split_server ''::1'' = (Some ''1'', 0)"
    by (simp add: split_server_def c_strtok_r_def scan_port_def)
qed

theorem split_server_correct_witness:
  "split_server (''mc1'' @ CHR '':'' # show_zu 11211) = (Some ''mc1'', 11211)"
  using split_server_correct [of "''mc1''" 11211] by simp

end
