(* ===== verification/Shutdown.thy ===== *)
theory Shutdown
  imports Prelude
begin

text \<open>
  How the helper ends: the event loop of \<open>main\<close> with its callbacks \<open>thread_sig_cb\<close> and
  \<open>sigint_cb\<close>, the termination of the workers, and the shutdown sequence after the loop
  (\<open>src/core/main.c\<close>), as a step relation over the main thread and any number of workers.

  The two queues are the bounded FIFO lists of the theory \<open>Queue_Monitor\<close>'s content: a
  \<open>queue_enqueue\<close> on a full queue and a \<open>queue_dequeue\<close> on an empty one wait, so their steps
  are not enabled.  An \<open>ev_async\<close> watcher is a flag: libev merges the \<open>ev_async_send\<close> calls
  made before its callback runs.
\<close>

section \<open>State\<close>

text \<open>
  The main thread: in \<open>ev_loop\<close>, in \<open>stdin_read_cb\<close> (between two lines, and at
  \<open>queue_enqueue\<close> with a line), in \<open>thread_sig_cb\<close>, in the two loops after \<open>ev_loop\<close>, and
  after them.
\<close>

datatype main_pc = InLoop | InStdin | Enqueueing | InCallback | Cancelling nat | Joining nat | Finished

text \<open>
  A worker: before \<open>thread_init\<close>, in the job loop, about to enqueue its message, about to
  call \<open>ev_async_send\<close>, and gone.
\<close>

datatype worker_pc = Starting | Waiting | Sending | Notifying | Exited

definition JOB_SLOTS :: nat where "JOB_SLOTS = 256"
definition SIGNAL_SLOTS :: nat where "SIGNAL_SLOTS = 8"

record 'j system =
  main_at :: main_pc
  workers :: "worker_pc list"
  job_queue :: "'j option list"
  thread_signal_queue :: "nat list"
  active_workers :: size_t
  async_pending :: bool

text \<open>The state when \<open>main\<close> enters \<open>ev_loop\<close>.\<close>

definition system_init :: "nat \<Rightarrow> 'j system" where
  "system_init num_threads =
     \<lparr>main_at = InLoop, workers = replicate num_threads Starting, job_queue = [],
      thread_signal_queue = [], active_workers = of_nat num_threads, async_pending = False\<rparr>"

section \<open>Steps\<close>

text \<open>
  The parameter \<open>fails\<close> says whether \<open>thread_init\<close> hooks may fail.  Processing a job is one
  step of its worker (that it ends is shown in the theory \<open>Worker\<close>).
\<close>

inductive sys_step :: "bool \<Rightarrow> 'j system \<Rightarrow> 'j system \<Rightarrow> bool" for fails where
  stdin_event:
    "main_at s = InLoop \<Longrightarrow> sys_step fails s (s\<lparr>main_at := InStdin\<rparr>)"
| stdin_line:
    "main_at s = InStdin \<Longrightarrow> sys_step fails s (s\<lparr>main_at := Enqueueing\<rparr>)"
| stdin_job:
    "main_at s = Enqueueing \<Longrightarrow> length (job_queue s) < JOB_SLOTS \<Longrightarrow>
     sys_step fails s (s\<lparr>job_queue := job_queue s @ [Some j], main_at := InStdin\<rparr>)"
| stdin_done:
    "main_at s = InStdin \<Longrightarrow> sys_step fails s (s\<lparr>main_at := InLoop\<rparr>)"
| sigint_cb:
    "main_at s = InLoop \<Longrightarrow> sys_step fails s (s\<lparr>main_at := Cancelling 0\<rparr>)"
| async_event:
    "main_at s = InLoop \<Longrightarrow> async_pending s \<Longrightarrow>
     sys_step fails s (s\<lparr>main_at := InCallback, async_pending := False\<rparr>)"
| thread_sig_cb:
    "main_at s = InCallback \<Longrightarrow> thread_signal_queue s = msg # rest \<Longrightarrow>
     sys_step fails s (s\<lparr>thread_signal_queue := rest, active_workers := active_workers s - 1,
       main_at := (if active_workers s - 1 = 0 then Cancelling 0 else InLoop)\<rparr>)"
| cancel:
    "main_at s = Cancelling i \<Longrightarrow> i < length (workers s) \<Longrightarrow> length (job_queue s) < JOB_SLOTS \<Longrightarrow>
     sys_step fails s (s\<lparr>job_queue := job_queue s @ [None], main_at := Cancelling (Suc i)\<rparr>)"
| cancelled:
    "main_at s = Cancelling (length (workers s)) \<Longrightarrow> sys_step fails s (s\<lparr>main_at := Joining 0\<rparr>)"
| join:
    "main_at s = Joining i \<Longrightarrow> i < length (workers s) \<Longrightarrow> workers s ! i = Exited \<Longrightarrow>
     sys_step fails s (s\<lparr>main_at := Joining (Suc i)\<rparr>)"
| joined:
    "main_at s = Joining (length (workers s)) \<Longrightarrow> sys_step fails s (s\<lparr>main_at := Finished\<rparr>)"
| init_ok:
    "i < length (workers s) \<Longrightarrow> workers s ! i = Starting \<Longrightarrow>
     sys_step fails s (s\<lparr>workers := (workers s)[i := Waiting]\<rparr>)"
| init_failed:
    "fails \<Longrightarrow> i < length (workers s) \<Longrightarrow> workers s ! i = Starting \<Longrightarrow>
     sys_step fails s (s\<lparr>workers := (workers s)[i := Sending]\<rparr>)"
| take_job:
    "i < length (workers s) \<Longrightarrow> workers s ! i = Waiting \<Longrightarrow> job_queue s = Some j # rest \<Longrightarrow>
     sys_step fails s (s\<lparr>job_queue := rest\<rparr>)"
| take_null:
    "i < length (workers s) \<Longrightarrow> workers s ! i = Waiting \<Longrightarrow> job_queue s = None # rest \<Longrightarrow>
     sys_step fails s (s\<lparr>job_queue := rest, workers := (workers s)[i := Sending]\<rparr>)"
| send_message:
    "i < length (workers s) \<Longrightarrow> workers s ! i = Sending \<Longrightarrow>
     length (thread_signal_queue s) < SIGNAL_SLOTS \<Longrightarrow>
     sys_step fails s (s\<lparr>thread_signal_queue := thread_signal_queue s @ [Suc i],
       workers := (workers s)[i := Notifying]\<rparr>)"
| async_send:
    "i < length (workers s) \<Longrightarrow> workers s ! i = Notifying \<Longrightarrow>
     sys_step fails s (s\<lparr>async_pending := True, workers := (workers s)[i := Exited]\<rparr>)"

inductive sys_reachable :: "bool \<Rightarrow> nat \<Rightarrow> 'j system \<Rightarrow> bool" for fails num_threads where
  start: "sys_reachable fails num_threads (system_init num_threads)"
| after: "sys_reachable fails num_threads s \<Longrightarrow> sys_step fails s s' \<Longrightarrow> sys_reachable fails num_threads s'"

inductive_cases sys_stepE: "sys_step fails s s'"

section \<open>Counting workers\<close>

definition tally :: "(worker_pc \<Rightarrow> nat) \<Rightarrow> worker_pc list \<Rightarrow> nat" where
  "tally f ws = sum_list (map f ws)"

lemma tally_update:
  "i < length ws \<Longrightarrow> tally f (ws[i := p]) + f (ws ! i) = tally f ws + f p"
proof (induction ws arbitrary: i)
  case (Cons w ws)
  then show ?case by (cases i) (auto simp: tally_def)
qed simp

lemma tally_ge: "i < length ws \<Longrightarrow> f (ws ! i) \<le> tally f ws"
proof (induction ws arbitrary: i)
  case (Cons w ws)
  then show ?case by (cases i) (auto simp: tally_def intro: trans_le_add2)
qed simp

lemma tally_replicate [simp]: "tally f (replicate n p) = n * f p"
  by (induction n) (simp_all add: tally_def)

fun is_past :: "worker_pc \<Rightarrow> nat" where
  "is_past Sending = 1" | "is_past Notifying = 1" | "is_past Exited = 1" | "is_past _ = 0"

fun is_sent :: "worker_pc \<Rightarrow> nat" where
  "is_sent Notifying = 1" | "is_sent Exited = 1" | "is_sent _ = 0"

fun is_notifying :: "worker_pc \<Rightarrow> nat" where
  "is_notifying Notifying = 1" | "is_notifying _ = 0"

lemmas tally_updates =
  tally_update [where f = is_past] tally_update [where f = is_sent] tally_update [where f = is_notifying]

definition nulls :: "'j option list \<Rightarrow> nat" where
  "nulls q = length (filter (\<lambda>j. j = None) q)"

lemma nulls_simps [simp]:
  "nulls [] = 0" "nulls (None # q) = Suc (nulls q)" "nulls (Some j # q) = nulls q"
  "nulls (p @ q) = nulls p + nulls q"
  by (simp_all add: nulls_def)

lemma tally_le_length: "(\<And>p. f p \<le> 1) \<Longrightarrow> tally f ws \<le> length ws"
  by (induction ws) (auto simp: tally_def intro: add_mono [of _ "Suc 0", simplified])

lemma is_past_le: "is_past p \<le> 1" by (cases p) auto
lemma is_sent_le: "is_sent p \<le> is_past p" by (cases p) auto

lemma tally_mono: "(\<And>p. f p \<le> g p) \<Longrightarrow> tally f ws \<le> tally g ws"
  by (induction ws) (auto simp: tally_def intro: add_mono)

lemma tally_all: "tally is_past ws = length ws \<Longrightarrow> w \<in> set ws \<Longrightarrow> is_past w = 1"
proof (induction ws)
  case (Cons v ws)
  have "tally is_past ws \<le> length ws" by (rule tally_le_length [OF is_past_le])
  with Cons is_past_le [of v] show ?case by (auto simp: tally_def)
qed simp

section \<open>Invariants\<close>

text \<open>
  Messages and wake-ups: every pending wake-up, and every one a worker is about to send,
  has a message of its own in the queue.
\<close>

definition messages_ok :: "nat \<Rightarrow> 'j system \<Rightarrow> bool" where
  "messages_ok n s \<longleftrightarrow>
     length (workers s) = n \<and> length (job_queue s) \<le> JOB_SLOTS \<and>
     length (thread_signal_queue s) \<le> SIGNAL_SLOTS \<and>
     tally is_notifying (workers s) + of_bool (async_pending s) + of_bool (main_at s = InCallback)
       \<le> length (thread_signal_queue s) \<and>
     length (thread_signal_queue s) \<le> tally is_sent (workers s) \<and>
     active_workers s + of_nat (tally is_sent (workers s)) = of_nat n + of_nat (length (thread_signal_queue s))"

lemma messages_ok_init: "messages_ok n (system_init n)"
  by (simp add: messages_ok_def system_init_def)

lemma messages_ok_step: "sys_step fails s s' \<Longrightarrow> messages_ok n s \<Longrightarrow> messages_ok n s'"
proof (induction rule: sys_step.induct)
  case (thread_sig_cb s msg rest)
  then show ?case by (auto simp: messages_ok_def algebra_simps)
next
  case (init_ok i s)
  from tally_updates [of i "workers s" Waiting] init_ok show ?case by (simp add: messages_ok_def)
next
  case (init_failed i s)
  from tally_updates [of i "workers s" Sending] init_failed show ?case by (simp add: messages_ok_def)
next
  case (take_null i s rest)
  from tally_updates [of i "workers s" Sending] take_null show ?case by (simp add: messages_ok_def)
next
  case (send_message i s)
  from tally_updates [of i "workers s" Notifying] send_message
  show ?case by (simp add: messages_ok_def)
next
  case (async_send i s)
  from tally_updates [of i "workers s" Exited] async_send
  show ?case by (cases "async_pending s") (simp_all add: messages_ok_def)
qed (auto simp: messages_ok_def)

lemma messages_ok_reachable: "sys_reachable fails n s \<Longrightarrow> messages_ok n s"
  by (induction rule: sys_reachable.induct) (auto simp: messages_ok_init intro: messages_ok_step)

text \<open>
  With hooks that succeed, workers end only because of the null pointers main enqueues,
  and nobody reads the messages.
\<close>

fun in_loop :: "main_pc \<Rightarrow> bool" where
  "in_loop InLoop = True" | "in_loop InStdin = True" | "in_loop Enqueueing = True" | "in_loop _ = False"

fun cancel_count :: "nat \<Rightarrow> main_pc \<Rightarrow> nat" where
  "cancel_count n (Cancelling i) = i" | "cancel_count n (Joining i) = n" | "cancel_count n Finished = n"
| "cancel_count n _ = 0"

fun joined_count :: "nat \<Rightarrow> main_pc \<Rightarrow> nat" where
  "joined_count n (Joining i) = i" | "joined_count n Finished = n" | "joined_count n _ = 0"

definition shutdown_ok :: "nat \<Rightarrow> 'j system \<Rightarrow> bool" where
  "shutdown_ok n s \<longleftrightarrow>
     main_at s \<noteq> InCallback \<and>
     nulls (job_queue s) + tally is_past (workers s) = cancel_count n (main_at s) \<and>
     cancel_count n (main_at s) \<le> n \<and> joined_count n (main_at s) \<le> n \<and>
     length (thread_signal_queue s) = tally is_sent (workers s) \<and>
     (\<forall>i < joined_count n (main_at s). workers s ! i = Exited) \<and>
     (async_pending s \<longrightarrow> \<not> in_loop (main_at s))"

lemma shutdown_ok_init: "shutdown_ok n (system_init n)"
  by (simp add: shutdown_ok_def system_init_def)

lemma shutdown_ok_step:
  "sys_step fails s s' \<Longrightarrow> \<not> fails \<Longrightarrow> messages_ok n s \<Longrightarrow> shutdown_ok n s \<Longrightarrow> shutdown_ok n s'"
proof (induction rule: sys_step.induct)
  case (init_ok i s)
  from tally_updates [of i "workers s" Waiting] init_ok show ?case
    by (auto simp: shutdown_ok_def messages_ok_def nth_list_update)
next
  case (take_null i s rest)
  from tally_updates [of i "workers s" Sending] take_null show ?case
    by (auto simp: shutdown_ok_def messages_ok_def nth_list_update)
next
  case (send_message i s)
  from tally_updates [of i "workers s" Notifying] send_message show ?case
    by (auto simp: shutdown_ok_def messages_ok_def nth_list_update)
next
  case (async_send i s)
  have "\<not> in_loop (main_at s)"
  proof
    assume "in_loop (main_at s)"
    then have "cancel_count n (main_at s) = 0" by (cases "main_at s") auto
    with async_send have "tally is_past (workers s) = 0" by (simp add: shutdown_ok_def)
    moreover have "is_past (workers s ! i) \<le> tally is_past (workers s)" by (rule tally_ge [OF async_send(1)])
    ultimately show False using async_send(2) by simp
  qed
  with tally_updates [of i "workers s" Exited] async_send show ?case
    by (auto simp: shutdown_ok_def messages_ok_def nth_list_update)
next
  case (join s i)
  then show ?case by (auto simp: shutdown_ok_def messages_ok_def less_Suc_eq)
qed (auto simp: shutdown_ok_def messages_ok_def)

lemma shutdown_ok_reachable: "sys_reachable False n s \<Longrightarrow> shutdown_ok n s"
proof (induction rule: sys_reachable.induct)
  case (after s s')
  then show ?case using shutdown_ok_step messages_ok_reachable by blast
qed (rule shutdown_ok_init)

section \<open>Properties of the shutdown\<close>

lemma reach_step:
  "sys_reachable fails n s \<Longrightarrow> sys_step fails s t \<Longrightarrow> t = t' \<Longrightarrow> sys_reachable fails n t'"
  by (auto intro: sys_reachable.after)

text \<open>Two workers whose \<open>thread_init\<close> fails: both gone, and the one callback in front of two messages.\<close>

definition two_failures :: "main_pc \<Rightarrow> nat list \<Rightarrow> size_t \<Rightarrow> 'j system" where
  "two_failures m sig a =
     \<lparr>main_at = m, workers = [Exited, Exited], job_queue = [], thread_signal_queue = sig,
      active_workers = a, async_pending = False\<rparr>"

lemma two_failures_reachable: "sys_reachable True 2 (two_failures InCallback [1, 2] 2 :: 'j system)"
proof -
  let ?st = "\<lambda>m v w sig a b. \<lparr>main_at = m, workers = [v, w], job_queue = [], thread_signal_queue = sig,
    active_workers = a, async_pending = b\<rparr> :: 'j system"
  have "sys_reachable True 2 (?st InLoop Starting Starting [] 2 False)"
    using sys_reachable.start [of True 2] by (simp add: system_init_def numeral_2_eq_2)
  then have "sys_reachable True 2 (?st InLoop Sending Starting [] 2 False)"
    by (rule reach_step) (rule sys_step.init_failed [of _ 0], simp_all)
  then have "sys_reachable True 2 (?st InLoop Sending Sending [] 2 False)"
    by (rule reach_step) (rule sys_step.init_failed [of _ 1], simp_all)
  then have "sys_reachable True 2 (?st InLoop Notifying Sending [1] 2 False)"
    by (rule reach_step) (rule sys_step.send_message [of 0], simp_all add: SIGNAL_SLOTS_def)
  then have "sys_reachable True 2 (?st InLoop Notifying Notifying [1, 2] 2 False)"
    by (rule reach_step) (rule sys_step.send_message [of 1], simp_all add: SIGNAL_SLOTS_def)
  then have "sys_reachable True 2 (?st InLoop Exited Notifying [1, 2] 2 True)"
    by (rule reach_step) (rule sys_step.async_send [of 0], simp_all)
  then have "sys_reachable True 2 (?st InLoop Exited Exited [1, 2] 2 True)"
    by (rule reach_step) (rule sys_step.async_send [of 1], simp_all)
  then show ?thesis
    by (rule reach_step) (rule sys_step.async_event, simp_all add: two_failures_def)
qed

text \<open>
  C31: \<open>thread_sig_cb\<close> never blocks the event loop, and \<open>active_workers\<close> counts the threads
  whose message has not been handled.  In every state the program can reach, whether
  \<open>thread_init\<close> hooks fail or not: a callback that has been started finds a message, so the
  main thread can go on; no more messages wait in the queue than workers have sent; and
  \<open>active_workers\<close> is the number of threads less the number of messages that were sent and
  have left the queue.  (It is not the number of live workers: a worker whose message waits
  is still counted.)
\<close>

theorem signal_callback_never_blocks:
  assumes "sys_reachable fails n s"
  shows "(main_at s = InCallback \<longrightarrow> (\<exists>s'. sys_step fails s s' \<and> main_at s' \<noteq> InCallback))
    \<and> length (thread_signal_queue s) \<le> tally is_sent (workers s)
    \<and> active_workers s + of_nat (tally is_sent (workers s) - length (thread_signal_queue s)) = of_nat n"
proof (intro conjI impI)
  have m: "messages_ok n s" by (rule messages_ok_reachable [OF assms])
  then show le: "length (thread_signal_queue s) \<le> tally is_sent (workers s)" by (simp add: messages_ok_def)
  show "active_workers s + of_nat (tally is_sent (workers s) - length (thread_signal_queue s)) = of_nat n"
    using m le by (simp add: messages_ok_def of_nat_diff algebra_simps)
  assume at: "main_at s = InCallback"
  with m obtain msg rest where "thread_signal_queue s = msg # rest"
    by (cases "thread_signal_queue s") (auto simp: messages_ok_def)
  from sys_step.thread_sig_cb [OF at this, of fails]
  show "\<exists>s'. sys_step fails s s' \<and> main_at s' \<noteq> InCallback" by (auto split: if_splits)
qed

theorem signal_callback_never_blocks_witness:
  "(\<exists>s'. sys_step True (two_failures InCallback [1, 2] 2 :: unit system) s' \<and> main_at s' \<noteq> InCallback)
    \<and> active_workers (two_failures InCallback [1, 2] 2 :: unit system) = 2"
  using signal_callback_never_blocks [OF two_failures_reachable [where 'j = unit]]
  by (simp add: two_failures_def)

text \<open>A worker that was joined is gone, whether hooks fail or not.\<close>

definition joins_ok :: "nat \<Rightarrow> 'j system \<Rightarrow> bool" where
  "joins_ok n s \<longleftrightarrow> length (workers s) = n \<and> (\<forall>i < joined_count n (main_at s). i < n \<longrightarrow> workers s ! i = Exited)"

lemma joins_ok_step: "sys_step fails s s' \<Longrightarrow> joins_ok n s \<Longrightarrow> joins_ok n s'"
  by (induction rule: sys_step.induct) (auto simp: joins_ok_def nth_list_update less_Suc_eq)

lemma joins_ok_reachable: "sys_reachable fails n s \<Longrightarrow> joins_ok n s"
proof (induction rule: sys_reachable.induct)
  case start
  show ?case by (simp add: joins_ok_def system_init_def)
qed (rule joins_ok_step)

text \<open>
  C30: the program ends only with every worker gone and at most eight messages unread.
  Whether \<open>thread_init\<close> hooks fail or not, at the end of the shutdown every worker has
  exited, \<open>active_workers\<close> is the number of messages that were never handled, and these are
  at most eight, the slots of their queue.  When no hook fails, no message is handled before
  the shutdown and nothing reads the queue afterwards, so that the end is reached only with
  at most eight threads: with more, the shutdown never completes.
\<close>

theorem shutdown_needs_at_most_eight_threads:
  assumes "sys_reachable fails n s" "main_at s = Finished"
  shows "workers s = replicate n Exited
    \<and> active_workers s = of_nat (length (thread_signal_queue s)) \<and> length (thread_signal_queue s) \<le> 8
    \<and> (\<not> fails \<longrightarrow> length (thread_signal_queue s) = n \<and> n \<le> 8)"
proof -
  have m: "messages_ok n s" by (rule messages_ok_reachable [OF assms(1)])
  have "joins_ok n s" by (rule joins_ok_reachable [OF assms(1)])
  then have gone: "workers s = replicate n Exited"
    using assms(2) by (intro nth_equalityI) (simp_all add: joins_ok_def)
  have "length (thread_signal_queue s) = n" if "\<not> fails"
    using shutdown_ok_reachable [of n s] assms(1) that gone by (simp add: shutdown_ok_def)
  with m gone show ?thesis by (auto simp: messages_ok_def SIGNAL_SLOTS_def)
qed

text \<open>The witness: one worker, one signal, and the shutdown up to its end.\<close>

lemma one_worker_finishes: "\<exists>s :: unit system. sys_reachable False 1 s \<and> main_at s = Finished"
proof -
  let ?st = "\<lambda>m w q sig. \<lparr>main_at = m, workers = [w], job_queue = q, thread_signal_queue = sig,
    active_workers = 1, async_pending = (w = Exited)\<rparr> :: unit system"
  have "sys_reachable False 1 (?st InLoop Starting [] [])"
    using sys_reachable.start [of False 1] by (simp add: system_init_def)
  then have "sys_reachable False 1 (?st InLoop Waiting [] [])"
    by (rule reach_step) (rule sys_step.init_ok [of 0], simp_all)
  then have "sys_reachable False 1 (?st (Cancelling 0) Waiting [] [])"
    by (rule reach_step) (rule sys_step.sigint_cb, simp_all)
  then have "sys_reachable False 1 (?st (Cancelling 1) Waiting [None] [])"
    by (rule reach_step) (rule sys_step.cancel [of _ 0], simp_all add: JOB_SLOTS_def)
  then have "sys_reachable False 1 (?st (Joining 0) Waiting [None] [])"
    by (rule reach_step) (rule sys_step.cancelled, simp_all)
  then have "sys_reachable False 1 (?st (Joining 0) Sending [] [])"
    by (rule reach_step) (rule sys_step.take_null [of 0], simp_all)
  then have "sys_reachable False 1 (?st (Joining 0) Notifying [] [1])"
    by (rule reach_step) (rule sys_step.send_message [of 0], simp_all add: SIGNAL_SLOTS_def)
  then have "sys_reachable False 1 (?st (Joining 0) Exited [] [1])"
    by (rule reach_step) (rule sys_step.async_send [of 0], simp_all)
  then have "sys_reachable False 1 (?st (Joining 1) Exited [] [1])"
    by (rule reach_step) (rule sys_step.join [of _ 0], simp_all)
  then have "sys_reachable False 1 (?st Finished Exited [] [1])"
    by (rule reach_step) (rule sys_step.joined, simp_all)
  then show ?thesis by (intro exI [of _ "?st Finished Exited [] [1]"]) simp
qed

theorem shutdown_needs_at_most_eight_threads_witness:
  "\<exists>s :: unit system. sys_reachable False 1 s \<and> main_at s = Finished \<and> workers s = [Exited]
     \<and> length (thread_signal_queue s) = 1"
proof -
  obtain s :: "unit system" where s: "sys_reachable False 1 s" "main_at s = Finished"
    using one_worker_finishes by blast
  from shutdown_needs_at_most_eight_threads [OF this] s show ?thesis by auto
qed

text \<open>What is left to do once the event loop has ended; it bounds the number of steps.\<close>

fun main_work :: "nat \<Rightarrow> main_pc \<Rightarrow> nat" where
  "main_work n (Cancelling i) = 3 * (n - i) + n + 2"
| "main_work n (Joining i) = n - i + 1"
| "main_work n _ = 0"

fun worker_work :: "worker_pc \<Rightarrow> nat" where
  "worker_work Starting = 4" | "worker_work Waiting = 3" | "worker_work Sending = 2"
| "worker_work Notifying = 1" | "worker_work Exited = 0"

definition shutdown_work :: "'j system \<Rightarrow> nat" where
  "shutdown_work s =
     main_work (length (workers s)) (main_at s) + length (job_queue s) + tally worker_work (workers s)"

definition past_loop :: "'j system \<Rightarrow> bool" where
  "past_loop s \<longleftrightarrow> \<not> in_loop (main_at s) \<and> main_at s \<noteq> InCallback"

lemma shutdown_step_decreases:
  "sys_step fails s s' \<Longrightarrow> past_loop s \<Longrightarrow> past_loop s' \<and> shutdown_work s' < shutdown_work s"
proof (induction rule: sys_step.induct)
  case (init_ok i s)
  then show ?case using tally_update [of i "workers s" worker_work Waiting]
    by (simp add: past_loop_def shutdown_work_def)
next
  case (init_failed i s)
  then show ?case using tally_update [of i "workers s" worker_work Sending]
    by (simp add: past_loop_def shutdown_work_def)
next
  case (take_null i s rest)
  then show ?case using tally_update [of i "workers s" worker_work Sending]
    by (simp add: past_loop_def shutdown_work_def)
next
  case (send_message i s)
  then show ?case using tally_update [of i "workers s" worker_work Notifying]
    by (simp add: past_loop_def shutdown_work_def)
next
  case (async_send i s)
  then show ?case using tally_update [of i "workers s" worker_work Exited]
    by (simp add: past_loop_def shutdown_work_def)
qed (auto simp: past_loop_def shutdown_work_def)

lemma not_past_exists:
  "tally is_past ws < length ws \<Longrightarrow> \<exists>i < length ws. ws ! i = Starting \<or> ws ! i = Waiting"
proof (induction ws)
  case (Cons w ws)
  show ?case
  proof (cases "is_past w = 0")
    case True
    then show ?thesis by (cases w) auto
  next
    case False
    then have "tally is_past ws < length ws" using Cons.prems by (simp add: tally_def)
    from Cons.IH [OF this] obtain i where "i < length ws" "ws ! i = Starting \<or> ws ! i = Waiting" by blast
    then show ?thesis by (intro exI [of _ "Suc i"]) simp
  qed
qed simp

lemma waiting_can_step:
  assumes "i < length (workers s)" "workers s ! i = Starting \<or> workers s ! i = Waiting" "job_queue s \<noteq> []"
  shows "\<exists>s'. sys_step fails s s'"
proof (cases "workers s ! i = Starting")
  case True
  with assms(1) show ?thesis by (blast intro: sys_step.init_ok)
next
  case False
  with assms(2) have w: "workers s ! i = Waiting" by simp
  obtain j rest where "job_queue s = j # rest" using assms(3) by (cases "job_queue s") auto
  with assms(1) w show ?thesis
    by (cases j) (blast intro: sys_step.take_null sys_step.take_job)+
qed

lemma sending_not_sent: "i < length ws \<Longrightarrow> ws ! i = Sending \<Longrightarrow> tally is_sent ws + 1 \<le> tally is_past ws"
proof (induction ws arbitrary: i)
  case (Cons w ws)
  have "tally is_sent ws \<le> tally is_past ws" by (rule tally_mono [OF is_sent_le])
  with Cons is_sent_le [of w] show ?case by (cases i) (fastforce simp: tally_def)+
qed simp

lemma sending_can_step:
  assumes "messages_ok n s" "shutdown_ok n s" "n \<le> SIGNAL_SLOTS"
    and i: "i < length (workers s)" "workers s ! i = Sending"
  shows "\<exists>s'. sys_step fails s s'"
proof -
  have "tally is_sent (workers s) + 1 \<le> tally is_past (workers s)" using i by (rule sending_not_sent)
  moreover have "tally is_past (workers s) \<le> length (workers s)" by (rule tally_le_length [OF is_past_le])
  ultimately have "length (thread_signal_queue s) < SIGNAL_SLOTS"
    using assms(1-3) by (simp add: messages_ok_def shutdown_ok_def)
  with i show ?thesis by (blast intro: sys_step.send_message)
qed

lemma cancelling_can_step:
  assumes m: "messages_ok n s" and d: "shutdown_ok n s" and at: "main_at s = Cancelling i"
  shows "\<exists>s'. sys_step fails s s'"
proof -
  have len: "length (workers s) = n" using m by (simp add: messages_ok_def)
  have i: "i \<le> n" using d at by (simp add: shutdown_ok_def)
  show ?thesis
  proof (cases "i < n \<and> \<not> length (job_queue s) < JOB_SLOTS")
    case True
    then have q: "job_queue s \<noteq> []" by (auto simp: JOB_SLOTS_def)
    have "tally is_past (workers s) < length (workers s)"
      using d True len at by (simp add: shutdown_ok_def)
    from not_past_exists [OF this] q show ?thesis using waiting_can_step by blast
  next
    case False
    with i consider "i = n" | "i < n" "length (job_queue s) < JOB_SLOTS" by fastforce
    then show ?thesis
      using at len by cases (blast intro: sys_step.cancelled sys_step.cancel)+
  qed
qed

lemma joining_can_step:
  assumes m: "messages_ok n s" and d: "shutdown_ok n s" and n: "n \<le> SIGNAL_SLOTS" and at: "main_at s = Joining i"
  shows "\<exists>s'. sys_step fails s s'"
proof -
  have len: "length (workers s) = n" using m by (simp add: messages_ok_def)
  have i: "i \<le> n" using d at by (simp add: shutdown_ok_def)
  show ?thesis
  proof (cases "i = n")
    case True
    with at len show ?thesis by (auto intro: sys_step.joined)
  next
    case False
    with i len have il: "i < length (workers s)" by simp
    show ?thesis
    proof (cases "workers s ! i")
      case Starting
      with il show ?thesis by (blast intro: sys_step.init_ok)
    next
      case Waiting
      have "tally is_past (workers s) \<noteq> length (workers s)"
        using tally_all [of "workers s" "workers s ! i"] nth_mem [OF il] Waiting by auto
      moreover have "nulls (job_queue s) + tally is_past (workers s) = length (workers s)"
        using d at len by (simp add: shutdown_ok_def)
      ultimately have "job_queue s \<noteq> []" by auto
      with il Waiting show ?thesis using waiting_can_step by blast
    next
      case Sending
      from sending_can_step [OF m d n il Sending] show ?thesis .
    next
      case Notifying
      with il show ?thesis by (blast intro: sys_step.async_send)
    next
      case Exited
      with il at show ?thesis by (blast intro: sys_step.join)
    qed
  qed
qed

lemma shutdown_progress:
  assumes m: "messages_ok n s" and d: "shutdown_ok n s" and n: "n \<le> SIGNAL_SLOTS"
    and p: "past_loop s" "main_at s \<noteq> Finished"
  shows "\<exists>s'. sys_step False s s'"
proof -
  from p consider i where "main_at s = Cancelling i" | i where "main_at s = Joining i"
    by (cases "main_at s") (auto simp: past_loop_def)
  then show ?thesis
    using cancelling_can_step [OF m d] joining_can_step [OF m d n] by cases blast+
qed

lemma shutdown_runs_to_end:
  assumes "sys_reachable False n s" "n \<le> SIGNAL_SLOTS" "past_loop s"
  shows "\<exists>t. (sys_step False)\<^sup>*\<^sup>* s t \<and> main_at t = Finished"
  using assms(1,3)
proof (induction "shutdown_work s" arbitrary: s rule: less_induct)
  case less
  show ?case
  proof (cases "main_at s = Finished")
    case False
    obtain s' where s': "sys_step False s s'"
      using shutdown_progress [OF messages_ok_reachable [OF less.prems(1)]
          shutdown_ok_reachable [OF less.prems(1)] assms(2) less.prems(2) False] by blast
    with shutdown_step_decreases [OF s' less.prems(2)] less.hyps [of s']
      sys_reachable.after [OF less.prems(1) s'] obtain t where
      "(sys_step False)\<^sup>*\<^sup>* s' t" "main_at t = Finished" by blast
    with s' show ?thesis by (blast intro: converse_rtranclp_into_rtranclp)
  qed auto
qed

text \<open>
  C17: with at most eight threads whose \<open>thread_init\<close> hooks succeed the shutdown always
  completes.  From every state such a program can reach after the event loop, with any jobs
  still queued, the end can be reached, and every step of any schedule brings it strictly
  closer, so every schedule reaches it: no order of the threads makes the shutdown hang.
  (When hooks fail it can: with every worker gone and a full job queue nobody makes room for
  the null pointers.)
\<close>

theorem shutdown_completes:
  assumes "sys_reachable False n s" "n \<le> 8" "past_loop s"
  shows "(\<exists>t. (sys_step False)\<^sup>*\<^sup>* s t \<and> main_at t = Finished)
    \<and> (main_at s \<noteq> Finished \<longrightarrow> (\<exists>t. sys_step False s t))
    \<and> (\<forall>t. sys_step False s t \<longrightarrow> past_loop t \<and> shutdown_work t < shutdown_work s)"
proof -
  have n: "n \<le> SIGNAL_SLOTS" using assms(2) by (simp add: SIGNAL_SLOTS_def)
  show ?thesis
    using shutdown_runs_to_end [OF assms(1) n assms(3)] shutdown_step_decreases [OF _ assms(3)]
      shutdown_progress [OF messages_ok_reachable [OF assms(1)] shutdown_ok_reachable [OF assms(1)] n assms(3)]
    by blast
qed

theorem shutdown_completes_witness:
  "\<exists>t :: unit system. (sys_step False)\<^sup>*\<^sup>* (system_init 2\<lparr>main_at := Cancelling 0\<rparr>) t \<and> main_at t = Finished"
proof -
  have "sys_reachable False 2 (system_init 2\<lparr>main_at := Cancelling 0\<rparr> :: unit system)"
    by (rule sys_reachable.after [OF sys_reachable.start], rule sys_step.sigint_cb)
      (simp add: system_init_def)
  from shutdown_completes [OF this] show ?thesis by (simp add: past_loop_def)
qed

text \<open>
  The death of all workers can go unnoticed.  With the default of two threads whose
  \<open>thread_init\<close> hooks fail, both can send their message before the first callback runs; the
  two wake-ups are merged, the callback handles one message, and the program stays in the
  event loop with no worker alive and \<open>active_workers\<close> equal to 1: the only steps left are
  the callback for more input, which nobody will take, and a signal from outside.
\<close>

theorem all_workers_dead_unnoticed:
  "\<exists>s :: 'j system. sys_reachable True 2 s \<and> main_at s = InLoop \<and> workers s = [Exited, Exited]
    \<and> active_workers s = 1 \<and> thread_signal_queue s \<noteq> []
    \<and> (\<forall>t. sys_step True s t \<longrightarrow>
         t = s\<lparr>main_at := InStdin\<rparr> \<or> t = s\<lparr>main_at := Cancelling 0\<rparr>)"
proof -
  let ?last = "two_failures InLoop [2] 1 :: 'j system"
  have "sys_reachable True 2 ?last"
    by (rule reach_step [OF two_failures_reachable]) (rule sys_step.thread_sig_cb [of _ 1 "[2]"], simp_all add: two_failures_def)
  moreover have "t = ?last\<lparr>main_at := InStdin\<rparr> \<or> t = ?last\<lparr>main_at := Cancelling 0\<rparr>"
    if "sys_step True ?last t" for t
    using that by (cases rule: sys_step.cases) (auto simp: less_Suc_eq two_failures_def)
  ultimately show ?thesis by (intro exI [of _ ?last]) (simp add: two_failures_def)
qed

theorem all_workers_dead_unnoticed_witness:
  "\<exists>s :: unit system. sys_reachable True 2 s \<and> workers s = [Exited, Exited] \<and> active_workers s = 1
    \<and> \<not> sys_step True s (s\<lparr>main_at := Finished\<rparr>)"
proof -
  obtain s :: "unit system" where s: "sys_reachable True 2 s" "main_at s = InLoop"
    "workers s = [Exited, Exited]" "active_workers s = 1"
    "\<And>t. sys_step True s t \<Longrightarrow> t = s\<lparr>main_at := InStdin\<rparr> \<or> t = s\<lparr>main_at := Cancelling 0\<rparr>"
    using all_workers_dead_unnoticed by blast
  have "\<not> sys_step True s (s\<lparr>main_at := Finished\<rparr>)"
  proof
    assume "sys_step True s (s\<lparr>main_at := Finished\<rparr>)"
    from s(5) [OF this] s(2) show False by (cases s) auto
  qed
  with s show ?thesis by blast
qed

text \<open>The first \<open>k\<close> workers have failed, in order, while the event loop did nothing else.\<close>

definition failed :: "nat \<Rightarrow> worker_pc list \<Rightarrow> nat \<Rightarrow> nat \<Rightarrow> 'j system" where
  "failed n mid k sent =
     \<lparr>main_at = InLoop, workers = replicate k Exited @ mid @ replicate (n - k - length mid) Starting,
      job_queue = [], thread_signal_queue = map Suc [0..<sent], active_workers = of_nat n, async_pending = (0 < k)\<rparr>"

lemma failed_reachable: "k \<le> n \<Longrightarrow> n \<le> 8 \<Longrightarrow> sys_reachable True n (failed n [] k k :: 'j system)"
proof (induction k)
  case 0
  show ?case using sys_reachable.start [of True n] by (simp add: failed_def system_init_def)
next
  case (Suc k)
  then have rest: "replicate (n - k) Starting = Starting # replicate (n - Suc k) Starting"
    by (simp add: Suc_diff_Suc flip: replicate_Suc)
  have "sys_reachable True n (failed n [] k k :: 'j system)" using Suc by simp
  then have "sys_reachable True n (failed n [Sending] k k :: 'j system)"
    by (rule reach_step) (rule sys_step.init_failed [of _ k],
        use Suc.prems rest in \<open>simp_all add: failed_def nth_append list_update_append\<close>)
  then have "sys_reachable True n (failed n [Notifying] k (Suc k) :: 'j system)"
    by (rule reach_step) (rule sys_step.send_message [of k],
        use Suc.prems in \<open>simp_all add: failed_def nth_append list_update_append SIGNAL_SLOTS_def\<close>)
  then show ?case
    by (rule reach_step) (rule sys_step.async_send [of k],
        use Suc.prems in \<open>simp_all add: failed_def nth_append list_update_append replicate_append_same [symmetric]\<close>)
qed

lemma jobs_reachable:
  assumes "sys_reachable fails n s" "main_at s = InStdin" "job_queue s = []"
  shows "j \<le> JOB_SLOTS \<Longrightarrow> sys_reachable fails n (s\<lparr>job_queue := replicate j (Some x)\<rparr>)"
proof (induction j)
  case 0
  with assms show ?case by (metis replicate_0 system.surjective system.update_convs(3))
next
  case (Suc j)
  let ?q = "replicate j (Some x)"
  have "sys_reachable fails n (s\<lparr>job_queue := ?q\<rparr>)" using Suc by simp
  then have "sys_reachable fails n (s\<lparr>job_queue := ?q, main_at := Enqueueing\<rparr>)"
    by (rule reach_step) (rule sys_step.stdin_line, simp_all add: assms)
  then show ?case
    by (rule reach_step) (rule sys_step.stdin_job [of _ _ x],
        use assms(2) Suc.prems in \<open>simp_all add: replicate_append_same\<close>)
qed

lemma full_and_dead:
  assumes "main_at s = Enqueueing" "set (workers s) \<subseteq> {Exited}" "256 \<le> length (job_queue s)"
  shows "\<not> sys_step fails s t"
proof
  have gone: "workers s ! i = Exited" if "i < length (workers s)" for i using assms(2) nth_mem [OF that] by auto
  assume "sys_step fails s t"
  then show False using assms(1,3) by cases (auto simp: gone JOB_SLOTS_def)
qed

text \<open>
  C29: workers that fail to start can hang the whole program.  Whenever every worker is gone,
  the job queue is full (256 jobs) and \<open>stdin_read_cb\<close> is at \<open>queue_enqueue\<close> with one line
  more, no step of any thread is possible any more, and a signal to end the program is not
  handled either.  For every number of threads up to eight such a state can be reached: the
  \<open>thread_init\<close> hooks of all workers fail (the directory server is down), and more than 256
  lookups arrive in one callback before the event loop gets to its other callbacks.
\<close>

theorem dead_workers_hang_reader:
  assumes "n \<le> 8"
  shows "(\<forall>(s :: 'j system) fails t. main_at s = Enqueueing \<longrightarrow> set (workers s) \<subseteq> {Exited} \<longrightarrow>
        256 \<le> length (job_queue s) \<longrightarrow> \<not> sys_step fails s t)
    \<and> (\<exists>s :: 'j system. sys_reachable True n s \<and> main_at s = Enqueueing
        \<and> workers s = replicate n Exited \<and> length (job_queue s) = 256)"
proof
  let ?s0 = "failed n [] n n :: 'j system"
  let ?s1 = "?s0\<lparr>main_at := InStdin\<rparr>"
  let ?s = "?s1\<lparr>job_queue := replicate JOB_SLOTS (Some undefined), main_at := Enqueueing\<rparr>"
  have "sys_reachable True n ?s1"
    by (rule reach_step [OF failed_reachable [OF order.refl assms]]) (rule sys_step.stdin_event, simp_all add: failed_def)
  from jobs_reachable [OF this, of JOB_SLOTS undefined]
  have "sys_reachable True n (?s1\<lparr>job_queue := replicate JOB_SLOTS (Some undefined)\<rparr>)" by (simp add: failed_def)
  then have "sys_reachable True n ?s"
    by (rule reach_step) (rule sys_step.stdin_line, simp_all)
  then show "\<exists>s :: 'j system. sys_reachable True n s \<and> main_at s = Enqueueing
        \<and> workers s = replicate n Exited \<and> length (job_queue s) = 256"
    by (intro exI [of _ ?s]) (simp add: failed_def JOB_SLOTS_def)
qed (use full_and_dead in blast)

theorem dead_workers_hang_reader_witness:
  "\<exists>s :: unit system. sys_reachable True 2 s \<and> main_at s = Enqueueing \<and> \<not> sys_step True s (s\<lparr>main_at := Cancelling 0\<rparr>)"
proof -
  obtain s :: "unit system" where "sys_reachable True 2 s" "main_at s = Enqueueing" "workers s = replicate 2 Exited"
    "length (job_queue s) = 256"
    using dead_workers_hang_reader [of 2] by auto
  with dead_workers_hang_reader [of 2] show ?thesis by (intro exI [of _ s]) auto
qed

end
