(* ===== verification/Plugin_Loader.thy ===== *)
theory Plugin_Loader
  imports Request
begin

text \<open>
  Loading the plugins (\<open>src/core/webcontrol_plugin.c\<close>) and reading the configuration
  (\<open>init_config\<close> of \<open>src/core/main.c\<close>).

  The dynamic linker and libconfuse are code outside the repository: \<open>dlopen\<close>, \<open>dlsym\<close>,
  \<open>cfg_parse\<close> and \<open>fopen\<close> are functions the definitions take as arguments.
\<close>

section \<open>Loading one plugin\<close>

record ('w, 'h) dl_env =
  MODULE_DIR :: string
  dlopen :: "string \<Rightarrow> 'h option"
  dlsym :: "'h \<Rightarrow> string \<Rightarrow> ('w plugin \<Rightarrow> 'w \<Rightarrow> ('w plugin \<times> 'w) c_result) option"

text \<open>The plugin structure with the hooks cleared, as the init function receives it.\<close>

definition new_plugin :: "'w plugin" where
  "new_plugin = \<lparr>pl_name = None, pl_plugin_free = None, pl_thread_init = None, pl_thread_free = None,
     pl_config_file_parsed = None, pl_pre_handle_request = None, pl_handle_request = None,
     pl_post_handle_request = None, pl_options = None\<rparr>"

definition plugin_load :: "('w, 'h) dl_env \<Rightarrow> string \<Rightarrow> 'w \<Rightarrow> ('w plugin option \<times> 'w) c_result" where
  "plugin_load dl pname w =
     c_bind (buffer_init_string (Some (cstr (MODULE_DIR dl)))) (\<lambda>file_buf.
     c_bind (append_stmt file_buf (cstr ''/mod_'')) (\<lambda>file_buf.
     c_bind (append_stmt file_buf (cstr pname)) (\<lambda>file_buf.
     c_bind (append_stmt file_buf (cstr ''.so'')) (\<lambda>file_buf.
     c_bind (c_deref (buf_ptr file_buf)) (\<lambda>ptr.
     c_bind (c_string ptr) (\<lambda>path.
     case dlopen dl path of
       None \<Rightarrow> Inr (None, w)
     | Some handle \<Rightarrow>
         c_bind (buffer_init_string (Some (cstr ''webcontrol_mod_''))) (\<lambda>symbol_buf.
         c_bind (append_stmt symbol_buf (cstr pname)) (\<lambda>symbol_buf.
         c_bind (append_stmt symbol_buf (cstr ''_plugin_init'')) (\<lambda>symbol_buf.
         c_bind (c_deref (buf_ptr symbol_buf)) (\<lambda>ptr.
         c_bind (c_string ptr) (\<lambda>symbol.
         case dlsym dl handle symbol of
           None \<Rightarrow> Inr (None, w)
         | Some init_func \<Rightarrow>
             c_bind (init_func new_plugin w) (\<lambda>(p, w'). Inr (Some p, w')))))))))))))"

section \<open>Loading the list\<close>

text \<open>
  The array \<open>main\<close> allocates: ten times the size of a \<open>plugin\<close> (twelve pointers), used as an
  array of pointers.
\<close>

definition PLUGIN_SLOTS :: nat where "PLUGIN_SLOTS = 10 * 12"

definition add_plugin :: "'w plugin list \<Rightarrow> 'w plugin option \<Rightarrow> 'w plugin list c_result" where
  "add_plugin ps po =
     (case po of
        None \<Rightarrow> Inr ps
      | Some p \<Rightarrow> if length ps < PLUGIN_SLOTS then Inr (ps @ [p]) else Inl OutOfBounds)"

function load_tokens :: "('w, 'h) dl_env \<Rightarrow> string \<Rightarrow> 'w plugin list \<Rightarrow> 'w \<Rightarrow> ('w plugin list \<times> 'w) c_result" where
  "load_tokens dl s ps w =
     (case c_strtok_r '','' s of
        (None, _) \<Rightarrow> Inr (ps, w)
      | (Some pch, rest) \<Rightarrow>
          c_bind (plugin_load dl pch w) (\<lambda>(po, w').
          c_bind (add_plugin ps po) (\<lambda>ps'. load_tokens dl rest ps' w')))"
  by pat_completeness auto
termination
  by (relation "measure (\<lambda>(dl, s, ps, w). length s)")
    (auto dest: sym [THEN c_strtok_r_rest_shorter])

declare load_tokens.simps [simp del]

definition plugins_load_string ::
  "('w, 'h) dl_env \<Rightarrow> buffer option \<Rightarrow> 'w plugin list \<Rightarrow> 'w \<Rightarrow> ('w plugin list \<times> 'w) c_result" where
  "plugins_load_string dl plugins ps w =
     (case plugins of
        None \<Rightarrow> Inr (ps, w)
      | Some b \<Rightarrow>
          c_bind (c_deref (buf_ptr b)) (\<lambda>ptr.
          c_bind (c_string ptr) (\<lambda>s. load_tokens dl s ps w)))"

section \<open>Configuration\<close>

datatype cfg_opt = CfgStr string | CfgInt string | CfgSec string "string list" | CfgEnd

text \<open>
  What \<open>cfg_parse\<close> returns.  The variables \<open>logfile\<close> and \<open>default_behavior\<close> are set only from a
  file that was read, to what it says, and keep their null pointer where it says nothing.
\<close>

datatype cfg_result =
    CFG_SUCCESS "string option" "string option"    \<comment> \<open>\<open>logfile\<close>, \<open>default_behavior\<close>\<close>
  | CFG_FILE_ERROR
  | CFG_PARSE_ERROR

text \<open>
  \<open>cfg_parse\<close>: its result and the world, in which it has stored the options of the plugins'
  sections.
\<close>

record 'w cfg_env =
  cfg_parse :: "cfg_opt list \<Rightarrow> 'w \<Rightarrow> cfg_result \<times> 'w"
  fopen_log :: "string option \<Rightarrow> bool"

definition CONFIG_SLOTS_BLOCKSIZE :: nat where "CONFIG_SLOTS_BLOCKSIZE = 32"

type_synonym slots = "cfg_opt option list"

definition set_slot :: "slots \<Rightarrow> nat \<Rightarrow> cfg_opt \<Rightarrow> slots c_result" where
  "set_slot opts i v = (if i < length opts then Inr (opts[i := Some v]) else Inl OutOfBounds)"

text \<open>The loop over the plugins: the array, \<open>num_opts\<close> and \<open>num_slots\<close>.\<close>

fun add_sections :: "'w plugin list \<Rightarrow> slots \<times> nat \<times> nat \<Rightarrow> (slots \<times> nat \<times> nat) c_result" where
  "add_sections [] st = Inr st"
| "add_sections (p # ps) (opts, num_opts, num_slots) =
     (case (pl_options p, pl_name p) of
        (Some options, Some nm) \<Rightarrow>
          (let (opts, num_slots) =
             (if num_slots = num_opts + 1
              then (take (num_slots + CONFIG_SLOTS_BLOCKSIZE) opts
                     @ replicate (num_slots + CONFIG_SLOTS_BLOCKSIZE - length opts) None,
                    num_slots + CONFIG_SLOTS_BLOCKSIZE)
              else (opts, num_slots))
           in c_bind (c_deref (buf_ptr nm)) (\<lambda>ptr.
              c_bind (c_string ptr) (\<lambda>title.
              c_bind (set_slot opts num_opts (CfgSec title options)) (\<lambda>opts.
              add_sections ps (opts, num_opts + 1, num_slots)))))
      | _ \<Rightarrow> add_sections ps (opts, num_opts, num_slots))"

definition config_options :: "'w plugin list \<Rightarrow> (slots \<times> nat \<times> nat) c_result" where
  "config_options ps =
     c_bind (set_slot (replicate CONFIG_SLOTS_BLOCKSIZE None) 0 (CfgStr ''logfile'')) (\<lambda>opts.
     c_bind (set_slot opts 1 (CfgInt ''loglevel'')) (\<lambda>opts.
     c_bind (set_slot opts 2 (CfgStr ''default_behavior'')) (\<lambda>opts.
     c_bind (add_sections ps (opts, 3, CONFIG_SLOTS_BLOCKSIZE)) (\<lambda>(opts, num_opts, num_slots).
     c_bind (set_slot opts num_opts CfgEnd) (\<lambda>opts. Inr (opts, num_opts + 1, num_slots))))))"

text \<open>What \<open>cfg_init\<close> reads: the slots up to the terminator.\<close>

fun read_slots :: "slots \<Rightarrow> cfg_opt list c_result" where
  "read_slots [] = Inl OutOfBounds"
| "read_slots (None # r) = Inl Uninitialised"
| "read_slots (Some v # r) =
     (if v = CfgEnd then Inr [] else c_bind (read_slots r) (\<lambda>vs. Inr (v # vs)))"

fun run_config_hooks :: "'w plugin list \<Rightarrow> 'w \<Rightarrow> 'w c_result" where
  "run_config_hooks [] w = Inr w"
| "run_config_hooks (p # ps) w =
     (case pl_config_file_parsed p of
        None \<Rightarrow> run_config_hooks ps w
      | Some h \<Rightarrow> c_bind (h w) (\<lambda>w'. run_config_hooks ps w'))"

text \<open>
  The return code, \<open>deny_by_default\<close>, whether the log file is open, and the world; first
  what comes after the \<open>switch\<close>.
\<close>

definition use_config ::
  "'w cfg_env \<Rightarrow> 'w plugin list \<Rightarrow> string option \<Rightarrow> string option \<Rightarrow> 'w \<Rightarrow> (int \<times> bool \<times> bool \<times> 'w) c_result" where
  "use_config env ps logfile default_behavior w =
     c_bind (c_deref default_behavior) (\<lambda>behavior.
     c_bind (run_config_hooks ps w) (\<lambda>w'.
     Inr (0, behavior = ''deny'', fopen_log env logfile, w')))"

definition init_config ::
  "'w cfg_env \<Rightarrow> 'w plugin list \<Rightarrow> 'w \<Rightarrow> (int \<times> bool \<times> bool \<times> 'w) c_result" where
  "init_config env ps w =
     c_bind (config_options ps) (\<lambda>(opts, _, _).
     c_bind (read_slots opts) (\<lambda>vs.
     let (result, w) = cfg_parse env vs w
     in case result of
          CFG_FILE_ERROR \<Rightarrow> use_config env ps None None w
        | CFG_SUCCESS logfile default_behavior \<Rightarrow> use_config env ps logfile default_behavior w
        | CFG_PARSE_ERROR \<Rightarrow> Inr (-1, False, False, w)))"

section \<open>Names and lists\<close>

lemma built_name:
  assumes "NUL \<notin> set (concat (s # ss))" "length (concat (s # ss)) \<le> TEXT_LIMIT"
  obtains b blk where "c_bind (buffer_init_string (Some (cstr s))) (\<lambda>b. c_fold append_stmt b (map cstr ss)) = Inr b"
    "buf_ptr b = Some blk" "c_string blk = Inr (concat (s # ss))"
proof -
  from bb.build_ok [OF assms] obtain b where
    b: "c_bind (buffer_init_string (Some (cstr s))) (\<lambda>b. c_fold append_stmt b (map cstr ss)) = Inr b"
      "buf_cstr b (concat (s # ss))" by blast
  from buf_cstr_string [OF b(2)] obtain blk where
    "buf_ptr b = Some blk" "c_string blk = Inr (until_nul (concat (s # ss)))" .
  with b(1) that until_nul_id [OF assms(1)] show ?thesis by metis
qed

lemma plugin_load_spec:
  assumes "NUL \<notin> set (MODULE_DIR dl)" "NUL \<notin> set pname" "length (MODULE_DIR dl) + length pname + 32 \<le> TEXT_LIMIT"
  shows "plugin_load dl pname w =
    (case dlopen dl (MODULE_DIR dl @ ''/mod_'' @ pname @ ''.so'') of
       None \<Rightarrow> Inr (None, w)
     | Some handle \<Rightarrow>
         (case dlsym dl handle (''webcontrol_mod_'' @ pname @ ''_plugin_init'') of
            None \<Rightarrow> Inr (None, w)
          | Some init_func \<Rightarrow> c_bind (init_func new_plugin w) (\<lambda>(p, w'). Inr (Some p, w'))))"
proof -
  obtain f fblk where f: "c_bind (buffer_init_string (Some (cstr (MODULE_DIR dl))))
      (\<lambda>b. c_fold append_stmt b (map cstr [''/mod_'', pname, ''.so''])) = Inr f"
    "buf_ptr f = Some fblk" "c_string fblk = Inr (concat [MODULE_DIR dl, ''/mod_'', pname, ''.so''])"
    using built_name [of "MODULE_DIR dl" "[''/mod_'', pname, ''.so'']"] assms by auto
  obtain y yblk where y: "c_bind (buffer_init_string (Some (cstr ''webcontrol_mod_'')))
      (\<lambda>b. c_fold append_stmt b (map cstr [pname, ''_plugin_init''])) = Inr y"
    "buf_ptr y = Some yblk" "c_string yblk = Inr (concat [''webcontrol_mod_'', pname, ''_plugin_init''])"
    using built_name [of "''webcontrol_mod_''" "[pname, ''_plugin_init'']"] assms by auto
  from f(1) obtain f0 f1 f2 where
    "buffer_init_string (Some (cstr (MODULE_DIR dl))) = Inr f0" "append_stmt f0 (cstr ''/mod_'') = Inr f1"
    "append_stmt f1 (cstr pname) = Inr f2" "append_stmt f2 (cstr ''.so'') = Inr f"
    by (auto simp: c_bind_eq_Inr)
  moreover from y(1) obtain y0 y1 where
    "buffer_init_string (Some (cstr ''webcontrol_mod_'')) = Inr y0" "append_stmt y0 (cstr pname) = Inr y1"
    "append_stmt y1 (cstr ''_plugin_init'') = Inr y"
    by (auto simp: c_bind_eq_Inr)
  ultimately show ?thesis
    using f(2,3) y(2,3) by (simp add: plugin_load_def split: option.split)
qed

text \<open>The fields of a comma-separated list.\<close>

fun comma_fields :: "string \<Rightarrow> string \<Rightarrow> string list" where
  "comma_fields cur [] = [cur]"
| "comma_fields cur (c # s) = (if c = CHR '','' then cur # comma_fields [] s else comma_fields (cur @ [c]) s)"

definition plugin_names :: "string \<Rightarrow> string list" where
  "plugin_names s = filter (\<lambda>n. n \<noteq> []) (comma_fields [] s)"

definition load_one :: "('w, 'h) dl_env \<Rightarrow> 'w plugin list \<times> 'w \<Rightarrow> string \<Rightarrow> ('w plugin list \<times> 'w) c_result" where
  "load_one dl st n =
     c_bind (plugin_load dl n (snd st)) (\<lambda>(po, w').
     c_bind (add_plugin (fst st) po) (\<lambda>ps'. Inr (ps', w')))"

lemma plugin_names_skip: "plugin_names (dropWhile (\<lambda>c. c = CHR '','') s) = plugin_names s"
  by (induction s) (auto simp: plugin_names_def)

lemma comma_fields_token:
  "comma_fields cur u = (cur @ takeWhile (\<lambda>c. c \<noteq> CHR '','') u) #
     (if dropWhile (\<lambda>c. c \<noteq> CHR '','') u = [] then []
      else comma_fields [] (tl (dropWhile (\<lambda>c. c \<noteq> CHR '','') u)))"
  by (induction u arbitrary: cur) auto

lemma drop_Suc_takeWhile: "drop (Suc (length (takeWhile P u))) u = tl (dropWhile P u)"
  by (induction u) auto

lemma plugin_names_Nil: "plugin_names [] = []"
  by (simp add: plugin_names_def)

lemma plugin_names_token:
  assumes "u \<noteq> []" "hd u \<noteq> CHR '',''"
  shows "plugin_names u = takeWhile (\<lambda>c. c \<noteq> CHR '','') u # plugin_names (tl (dropWhile (\<lambda>c. c \<noteq> CHR '','') u))"
proof -
  have t: "takeWhile (\<lambda>c. c \<noteq> CHR '','') u \<noteq> []" using assms by (cases u) auto
  show ?thesis
  proof (cases "dropWhile (\<lambda>c. c \<noteq> CHR '','') u")
    case Nil
    show ?thesis
      unfolding plugin_names_def comma_fields_token [of "[]" u] Nil using t by simp
  next
    case (Cons c v)
    show ?thesis
      unfolding plugin_names_def comma_fields_token [of "[]" u] Cons using t by simp
  qed
qed

lemma plugin_names_strtok:
  "plugin_names s = (case c_strtok_r '','' s of (None, _) \<Rightarrow> [] | (Some t, r) \<Rightarrow> t # plugin_names r)"
proof -
  have strtok: "c_strtok_r '','' s =
      (let u = dropWhile (\<lambda>c. c = CHR '','') s; tok = takeWhile (\<lambda>c. c \<noteq> CHR '','') u
       in if u = [] then (None, []) else (Some tok, drop (Suc (length tok)) u))"
    by (simp add: c_strtok_r_def)
  show ?thesis
  proof (cases "dropWhile (\<lambda>c. c = CHR '','') s")
    case Nil
    then have "plugin_names s = []"
      using plugin_names_skip [of s] by (simp only: plugin_names_Nil)
    with Nil show ?thesis by (simp add: strtok)
  next
    case (Cons c u)
    then have "c \<noteq> CHR '',''" using hd_dropWhile [of "\<lambda>c. c = CHR '',''" s] by simp
    then have "plugin_names (c # u) = takeWhile (\<lambda>c. c \<noteq> CHR '','') (c # u)
        # plugin_names (tl (dropWhile (\<lambda>c. c \<noteq> CHR '','') (c # u)))"
      by (intro plugin_names_token) auto
    moreover have "plugin_names s = plugin_names (c # u)"
      using plugin_names_skip [of s] by (simp only: Cons)
    ultimately show ?thesis
      unfolding strtok Let_def Cons drop_Suc_takeWhile by simp
  qed
qed

lemma load_tokens_fold: "load_tokens dl s ps w = c_fold (load_one dl) (ps, w) (plugin_names s)"
proof (induction dl s ps w rule: load_tokens.induct)
  case (1 dl s ps w)
  show ?case
  proof (cases "c_strtok_r '','' s")
    case (Pair to rest)
    show ?thesis
    proof (cases to)
      case None
      with Pair show ?thesis
        by (subst load_tokens.simps, subst plugin_names_strtok) simp
    next
      case (Some t)
      show ?thesis
        unfolding load_tokens.simps [of dl s] plugin_names_strtok [of s] Pair Some
        using "1.IH" [OF Pair [symmetric] Some]
        by (cases "plugin_load dl t w") (auto simp: load_one_def c_bind_assoc split: prod.split intro!: c_bind_cong)
    qed
  qed
qed

section \<open>Configuration slots\<close>

definition named :: "'w plugin \<Rightarrow> bool" where
  "named p \<longleftrightarrow> (\<forall>nm. pl_name p = Some nm \<longrightarrow> (\<exists>s. buf_cstr nm s \<and> NUL \<notin> set s))"

definition sections :: "'w plugin list \<Rightarrow> cfg_opt list" where
  "sections ps = concat (map (\<lambda>p. case (pl_options p, pl_name p) of
     (Some options, Some nm) \<Rightarrow> [CfgSec (buf_text nm) options] | _ \<Rightarrow> []) ps)"

definition slots_hold :: "slots \<times> nat \<times> nat \<Rightarrow> cfg_opt list \<Rightarrow> bool" where
  "slots_hold st vs \<longleftrightarrow>
     (case st of (opts, num_opts, num_slots) \<Rightarrow>
        length opts = num_slots \<and> num_opts < num_slots \<and> num_opts = length vs
        \<and> take num_opts opts = map Some vs)"

lemma set_slot_ok:
  assumes "length opts = m" "length vs < m" "take (length vs) opts = map Some vs"
  shows "\<exists>opts'. set_slot opts (length vs) v = Inr opts' \<and> length opts' = m
    \<and> take (Suc (length vs)) opts' = map Some (vs @ [v])"
  using assms by (simp add: set_slot_def take_Suc_conv_app_nth)

lemma add_sections_ok:
  "list_all named ps \<Longrightarrow> slots_hold st vs \<Longrightarrow>
     \<exists>st'. add_sections ps st = Inr st' \<and> slots_hold st' (vs @ sections ps)"
proof (induction ps arbitrary: st vs)
  case (Cons p ps)
  obtain opts m where st: "st = (opts, length vs, m)" "length opts = m" "length vs < m"
    "take (length vs) opts = map Some vs"
    using Cons.prems(2) by (cases st) (auto simp: slots_hold_def)
  show ?case
  proof (cases "\<exists>options nm. pl_options p = Some options \<and> pl_name p = Some nm")
    case False
    then have "add_sections (p # ps) st = add_sections ps st" "sections (p # ps) = sections ps"
      by (auto simp: st sections_def split: option.splits)
    with Cons show ?thesis by simp
  next
    case True
    then obtain options nm where p: "pl_options p = Some options" "pl_name p = Some nm" by blast
    obtain s where s: "buf_cstr nm s" "NUL \<notin> set s"
      using Cons.prems(1) p(2) by (auto simp: named_def)
    obtain blk where blk: "buf_ptr nm = Some blk" "c_string blk = Inr s"
      using buf_cstr_string [OF s(1)] s(2) by auto
    have title: "buf_text nm = s" using s(1) by (auto dest: buf_cstrD buf_repr_text)
    define grown where "grown = (if m = length vs + 1
      then take (m + CONFIG_SLOTS_BLOCKSIZE) opts @ replicate (m + CONFIG_SLOTS_BLOCKSIZE - length opts) None
      else opts)"
    define m' where "m' = (if m = length vs + 1 then m + CONFIG_SLOTS_BLOCKSIZE else m)"
    have g: "length grown = m'" "Suc (length vs) < m'" "take (length vs) grown = map Some vs"
      using st by (auto simp: grown_def m'_def CONFIG_SLOTS_BLOCKSIZE_def)
    from set_slot_ok [OF g(1) _ g(3), of "CfgSec s options"] g(2) obtain opts' where
      opts': "set_slot grown (length vs) (CfgSec s options) = Inr opts'" "length opts' = m'"
        "take (Suc (length vs)) opts' = map Some (vs @ [CfgSec s options])" by auto
    have "add_sections (p # ps) st = add_sections ps (opts', length vs + 1, m')"
      using p blk opts'(1) st(2) by (cases "m = Suc (length vs)") (simp_all add: st(1) grown_def m'_def)
    moreover have "slots_hold (opts', length vs + 1, m') (vs @ [CfgSec s options])"
      using opts' g(2) by (simp add: slots_hold_def)
    moreover have "sections (p # ps) = CfgSec s options # sections ps"
      using p title by (simp add: sections_def)
    ultimately show ?thesis
      using Cons.IH [of "(opts', length vs + 1, m')" "vs @ [CfgSec s options]"] Cons.prems(1) by simp
  qed
qed (simp add: sections_def)

lemma read_slots_end: "CfgEnd \<notin> set vs \<Longrightarrow> read_slots (map Some vs @ Some CfgEnd # r) = Inr vs"
  by (induction vs) auto

definition core_options :: "cfg_opt list" where
  "core_options = [CfgStr ''logfile'', CfgInt ''loglevel'', CfgStr ''default_behavior'']"

lemma no_end: "CfgEnd \<notin> set (core_options @ sections ps)"
  by (auto simp: core_options_def sections_def split: option.splits)

lemma config_options_ok:
  assumes "list_all named ps"
  shows "\<exists>opts num_opts num_slots. config_options ps = Inr (opts, num_opts, num_slots)
    \<and> length opts = num_slots \<and> num_opts \<le> num_slots \<and> num_opts = length (core_options @ sections ps) + 1
    \<and> read_slots opts = Inr (core_options @ sections ps)"
proof -
  let ?o = "Some (CfgStr ''logfile'') # Some (CfgInt ''loglevel'') # Some (CfgStr ''default_behavior'')
    # replicate 29 None"
  have 0: "set_slot (replicate 32 None) 0 (CfgStr ''logfile'') = Inr (Some (CfgStr ''logfile'') # replicate 31 None)"
    "set_slot (Some (CfgStr ''logfile'') # replicate 31 None) 1 (CfgInt ''loglevel'')
      = Inr (Some (CfgStr ''logfile'') # Some (CfgInt ''loglevel'') # replicate 30 None)"
    "set_slot (Some (CfgStr ''logfile'') # Some (CfgInt ''loglevel'') # replicate 30 None) 2 (CfgStr ''default_behavior'')
      = Inr ?o"
    by (simp_all add: set_slot_def numeral_eq_Suc)
  have "slots_hold (?o, 3, 32) core_options"
    by (simp add: slots_hold_def core_options_def numeral_eq_Suc)
  from add_sections_ok [OF assms this] obtain opts m where
    a: "add_sections ps (?o, 3, 32) = Inr (opts, length (core_options @ sections ps), m)"
      "length opts = m" "length (core_options @ sections ps) < m"
      "take (length (core_options @ sections ps)) opts = map Some (core_options @ sections ps)"
    by (force simp: slots_hold_def split: prod.splits)
  from set_slot_ok [OF a(2,3,4), of CfgEnd] obtain opts' where
    e: "set_slot opts (length (core_options @ sections ps)) CfgEnd = Inr opts'" "length opts' = m"
      "take (Suc (length (core_options @ sections ps))) opts' = map Some ((core_options @ sections ps) @ [CfgEnd])"
    by blast
  have "opts' = map Some (core_options @ sections ps) @ Some CfgEnd
      # drop (Suc (length (core_options @ sections ps))) opts'"
    using e(3) append_take_drop_id [of "Suc (length (core_options @ sections ps))" opts'] by simp
  then have "read_slots opts' = Inr (core_options @ sections ps)"
    using read_slots_end [OF no_end, of ps] by metis
  moreover have "config_options ps = Inr (opts', length (core_options @ sections ps) + 1, m)"
    unfolding config_options_def CONFIG_SLOTS_BLOCKSIZE_def 0 c_bind.simps a(1) prod.case e(1) by simp
  ultimately show ?thesis using e(2) a(3) by auto
qed

section \<open>Properties\<close>

text \<open>
  C34: the plugin list is loaded name by name.  For every list text (empty fields allowed)
  the helper tries, in order, each non-empty field between commas as the file
  \<open>MODULE_DIR/mod_NAME.so\<close> and the symbol \<open>webcontrol_mod_NAME_plugin_init\<close>, calls the symbol
  on a plugin whose hooks are all cleared, skips a name whose file or symbol is missing,
  and keeps what it has loaded so far.
\<close>

theorem plugins_loaded_in_order:
  assumes "buf_cstr b s" "NUL \<notin> set s" "NUL \<notin> set (MODULE_DIR dl)" "NUL \<notin> set n"
    and "length (MODULE_DIR dl) + length n + 32 \<le> TEXT_LIMIT"
  shows "plugins_load_string dl (Some b) ps w = c_fold (load_one dl) (ps, w) (filter (\<lambda>n. n \<noteq> []) (comma_fields [] s))
    \<and> plugin_load dl n w =
      (case dlopen dl (MODULE_DIR dl @ ''/mod_'' @ n @ ''.so'') of
         None \<Rightarrow> Inr (None, w)
       | Some handle \<Rightarrow>
           (case dlsym dl handle (''webcontrol_mod_'' @ n @ ''_plugin_init'') of
              None \<Rightarrow> Inr (None, w)
            | Some init_func \<Rightarrow> c_bind (init_func new_plugin w) (\<lambda>(p, w'). Inr (Some p, w'))))"
proof
  obtain blk where "buf_ptr b = Some blk" "c_string blk = Inr s"
    using buf_cstr_string [OF assms(1)] assms(2) by auto
  then show "plugins_load_string dl (Some b) ps w =
      c_fold (load_one dl) (ps, w) (filter (\<lambda>n. n \<noteq> []) (comma_fields [] s))"
    by (simp add: plugins_load_string_def load_tokens_fold plugin_names_def)
qed (rule plugin_load_spec [OF assms(3-5)])

text \<open>A linker that knows one module.\<close>

definition one_module :: "(nat, unit) dl_env" where
  "one_module = \<lparr>MODULE_DIR = ''/m'',
     dlopen = (\<lambda>f. if f = ''/m/mod_x.so'' then Some () else None),
     dlsym = (\<lambda>h sym. if sym = ''webcontrol_mod_x_plugin_init'' then Some (\<lambda>p w. Inr (p, Suc w)) else None)\<rparr>"

lemma list_buffer: obtains b where "buf_cstr b ''x,,y,x''"
  using buffer_init_string_ok [of "''x,,y,x''" "[]"] by (auto simp: TEXT_LIMIT_def)

theorem plugins_loaded_in_order_witness:
  "\<exists>b. buf_cstr b ''x,,y,x''
     \<and> plugins_load_string one_module (Some b) [] 0 = c_fold (load_one one_module) ([], 0) [''x'', ''y'', ''x'']
     \<and> plugin_load one_module ''x'' 0 = Inr (Some new_plugin, 1)"
proof -
  obtain b where b: "buf_cstr b ''x,,y,x''" by (rule list_buffer)
  have m: "NUL \<notin> set (MODULE_DIR one_module)" by (simp add: one_module_def)
  have t: "length (MODULE_DIR one_module) + length ''x'' + 32 \<le> TEXT_LIMIT"
    by (simp add: one_module_def TEXT_LIMIT_def)
  have "comma_fields [] ''x,,y,x'' = [''x'', [], ''y'', ''x'']" by simp
  with plugins_loaded_in_order [OF b _ m _ t, of "[]" 0] b show ?thesis
    by (auto simp: one_module_def)
qed

text \<open>
  C35: the option table is always big enough and always terminated.  For every number of
  plugins the writes stay inside the array, which grows in blocks of 32 with room for the
  terminator kept free, and libconfuse reads back the three core options and then one
  section per plugin that has options and a name, in the order of loading.
\<close>

theorem config_table_complete:
  assumes "list_all named ps"
  shows "\<exists>opts num_opts num_slots. config_options ps = Inr (opts, num_opts, num_slots)
    \<and> length opts = num_slots \<and> num_opts \<le> num_slots
    \<and> read_slots opts = Inr ([CfgStr ''logfile'', CfgInt ''loglevel'', CfgStr ''default_behavior''] @ sections ps)"
  using config_options_ok [OF assms] by (auto simp: core_options_def)

definition named_plugin :: "buffer \<Rightarrow> unit plugin" where
  "named_plugin b = new_plugin\<lparr>pl_name := Some b, pl_options := Some [''file'']\<rparr>"

theorem config_table_complete_witness:
  "\<exists>b opts k m. config_options (replicate 40 (named_plugin b)) = Inr (opts, k, m)
     \<and> length (sections (replicate 40 (named_plugin b))) = 40 \<and> k \<le> m"
proof -
  obtain b where "buf_cstr b ''x,,y,x''" by (rule list_buffer)
  then have "list_all named (replicate 40 (named_plugin b))"
    by (auto simp: list_all_iff named_def named_plugin_def)
  moreover have "length (sections (replicate n (named_plugin b))) = n" for n
    by (induction n) (simp_all add: sections_def named_plugin_def)
  ultimately show ?thesis using config_table_complete by blast
qed

text \<open>With named plugins \<open>cfg_parse\<close> is called for the core options and their sections.\<close>

lemma init_config_run:
  assumes "list_all named ps"
  shows "init_config env ps w =
    (case cfg_parse env (core_options @ sections ps) w of
       (CFG_FILE_ERROR, w1) \<Rightarrow> use_config env ps None None w1
     | (CFG_SUCCESS logfile behavior, w1) \<Rightarrow> use_config env ps logfile behavior w1
     | (CFG_PARSE_ERROR, w1) \<Rightarrow> Inr (-1, False, False, w1))"
proof -
  obtain opts k m where "config_options ps = Inr (opts, k, m)" "read_slots opts = Inr (core_options @ sections ps)"
    using config_options_ok [OF assms] by blast
  then show ?thesis by (simp add: init_config_def split: prod.split cfg_result.split)
qed

end
