(* ===== verification/Active_Directory.thy ===== *)
theory Active_Directory
  imports Memcached
begin

text \<open>
  Reverse lookups (\<open>src/core/webcontrol_netutil.c\<close>) and the LDAP plugin
  \<open>src/plugins/mod_activedirectory/webcontrol_activedirectory.c\<close>.

  The resolver (\<open>getnameinfo\<close>) and libldap are code outside the repository: their calls are
  fields of a record that acts on the state \<open>'w\<close> of the world, which includes the calling
  thread's connection.
\<close>

section \<open>Reverse lookups\<close>

definition HOST_NAME_MAX :: nat where "HOST_NAME_MAX = 64"

text \<open>
  \<open>getnameinfo\<close> with \<open>NI_NAMEREQD\<close>: a name (without its terminator) or a failure; a name
  that does not fit into the buffer is the failure \<open>EAI_OVERFLOW\<close>.
\<close>

type_synonym 'w resolver = "sockaddr \<Rightarrow> 'w \<Rightarrow> string option \<times> 'w"

definition webcontrol_rdns_lookup ::
  "'w resolver \<Rightarrow> ipaddr \<Rightarrow> block \<Rightarrow> nat \<Rightarrow> 'w \<Rightarrow> (bool \<times> block \<times> 'w) c_result" where
  "webcontrol_rdns_lookup getnameinfo addr buf n w =
     (case getnameinfo (ip_sockaddr addr) w of
        (Some host, w') \<Rightarrow>
          if length host < n
          then c_bind (c_memcpy buf 0 (cstr host) (Suc (length host))) (\<lambda>buf'. Inr (True, buf', w'))
          else Inr (False, buf, w')
      | (None, w') \<Rightarrow> Inr (False, buf, w'))"

text \<open>\<open>char host[HOST_NAME_MAX+1]; bzero (host, HOST_NAME_MAX);\<close>\<close>

definition host_buffer :: block where
  "host_buffer = replicate HOST_NAME_MAX (Some NUL) @ [None]"

definition webcontrol_rdns_lookup_buf ::
  "'w resolver \<Rightarrow> ipaddr \<Rightarrow> 'w \<Rightarrow> (buffer option \<times> 'w) c_result" where
  "webcontrol_rdns_lookup_buf getnameinfo addr w =
     c_bind (webcontrol_rdns_lookup getnameinfo addr host_buffer HOST_NAME_MAX w) (\<lambda>(found, host, w').
     if found then c_bind (buffer_init_string (Some host)) (\<lambda>b. Inr (Some b, w')) else Inr (None, w'))"

section \<open>The LDAP filter\<close>

record ad_config =
  ad_uri :: "string option"
  ad_bind_dn :: "string option"
  ad_bind_password :: "string option"
  ad_basedn :: "string option"
  ad_filter :: "string option"
  ad_filter_len :: size_t
  ad_attribute_name :: "string option"

definition config_values_init :: ad_config where
  "config_values_init = \<lparr>ad_uri = None, ad_bind_dn = None, ad_bind_password = None, ad_basedn = None,
     ad_filter = None, ad_filter_len = 0, ad_attribute_name = None\<rparr>"

definition webcontrol_activedirectory_processconfig :: "ad_config \<Rightarrow> ad_config" where
  "webcontrol_activedirectory_processconfig pd =
     (case ad_filter pd of
        None \<Rightarrow> pd
      | Some f \<Rightarrow> pd\<lparr>ad_filter_len := of_nat (length f)\<rparr>)"

text \<open>\<open>sprintf\<close> with string arguments; every other conversion is an error.\<close>

fun format_args :: "string \<Rightarrow> string list \<Rightarrow> string c_result" where
  "format_args [] args = Inr []"
| "format_args [c] args = (if c = CHR ''%'' then Inl BadFormat else Inr [c])"
| "format_args (c # d # r) args =
     (if c \<noteq> CHR ''%'' then c_bind (format_args (d # r) args) (\<lambda>t. Inr (c # t))
      else if d = CHR ''%'' then c_bind (format_args r args) (\<lambda>t. Inr (CHR ''%'' # t))
      else if d = CHR ''s'' \<and> args \<noteq> []
      then c_bind (format_args r (tl args)) (\<lambda>t. Inr (hd args @ t))
      else Inl BadFormat)"

text \<open>
  The buffer with the assembled filter: prepared for the length that replacing one \<open>%s\<close>
  gives, then written by \<open>sprintf\<close>, terminator included.
\<close>

definition assemble_filter :: "ad_config \<Rightarrow> string \<Rightarrow> buffer c_result" where
  "assemble_filter config hostname =
     (let filter_len = of_nat (length hostname) + ad_filter_len config - 2 in
      c_bind (buffer_prepare_copy (Some buffer_init) filter_len) (\<lambda>(_, bo).
      c_bind (c_deref bo) (\<lambda>b.
      c_bind (c_deref (ad_filter config)) (\<lambda>fmt.
      c_bind (format_args fmt [hostname]) (\<lambda>out.
      c_bind (c_deref (buf_ptr b)) (\<lambda>blk.
      c_bind (c_memcpy blk 0 (cstr out) (Suc (length out))) (\<lambda>blk'.
      Inr (b\<lparr>buf_ptr := Some blk', buf_len := filter_len\<rparr>))))))))"

section \<open>LDAP\<close>

definition LDAP_SUCCESS :: int where "LDAP_SUCCESS = 0"
definition LDAP_RES_BIND :: int where "LDAP_RES_BIND = 0x61"
definition LDAP_RES_SEARCH_ENTRY :: int where "LDAP_RES_SEARCH_ENTRY = 0x64"

definition WEBCONTROL_ACTIVEDIRECTORY_ATTRIBUTENAME :: string where
  "WEBCONTROL_ACTIVEDIRECTORY_ATTRIBUTENAME = ''webcontrolInetStatus''"

text \<open>
  The calls of the plugin.  \<open>'r\<close> is a result message, \<open>'e\<close> an entry of it and \<open>'a\<close> an
  attribute; a value is the bytes of its \<open>berval\<close>.
\<close>

record ('w, 'r, 'e, 'a) ad_lib =
  getnameinfo :: "'w resolver"
  ldap_initialize :: "string \<Rightarrow> 'w \<Rightarrow> int \<times> 'w"
  ldap_sasl_bind :: "string option \<Rightarrow> string option \<Rightarrow> 'w \<Rightarrow> (int \<times> int) \<times> 'w"
  ldap_search_ext :: "string option \<Rightarrow> string \<Rightarrow> string \<Rightarrow> 'w \<Rightarrow> (int \<times> int) \<times> 'w"
  ldap_result :: "int \<Rightarrow> 'w \<Rightarrow> (int \<times> 'r) \<times> 'w"
  ldap_first_entry :: "'r \<Rightarrow> 'e option"
  ldap_first_attribute :: "'e \<Rightarrow> 'a option"
  ldap_get_values_len :: "'e \<Rightarrow> 'a \<Rightarrow> string list option"
  ad_data :: "'w \<Rightarrow> ad_config"
  ad_put_data :: "ad_config \<Rightarrow> 'w \<Rightarrow> 'w"

definition webcontrol_activedirectory_ldap_open ::
  "('w, 'r, 'e, 'a) ad_lib \<Rightarrow> ad_config \<Rightarrow> 'w \<Rightarrow> int \<times> 'w" where
  "webcontrol_activedirectory_ldap_open lib pc w =
     (case ad_uri pc of
        None \<Rightarrow> (-1, w)
      | Some uri \<Rightarrow>
          (let (status, w) = ldap_initialize lib uri w in
           if status \<noteq> LDAP_SUCCESS then (-1, w)
           else (let ((status, msgid), w) = ldap_sasl_bind lib (ad_bind_dn pc) (ad_bind_password pc) w in
           if status \<noteq> LDAP_SUCCESS then (-1, w)
           else (let ((status, result), w) = ldap_result lib msgid w in
           if status \<noteq> LDAP_RES_BIND then (-1, w) else (0, w)))))"

definition webcontrol_activedirectory_thread_init ::
  "('w, 'r, 'e, 'a) ad_lib \<Rightarrow> 'w \<Rightarrow> (int \<times> 'w) c_result" where
  "webcontrol_activedirectory_thread_init lib w =
     (let (rc, w) = webcontrol_activedirectory_ldap_open lib (ad_data lib w) w
      in if rc \<noteq> 0 then Inr (-1, w) else Inr (0, w))"

text \<open>The decision on the entry that was found.\<close>

definition entry_status :: "('w, 'r, 'e, 'a) ad_lib \<Rightarrow> 'e \<Rightarrow> handler_status c_result" where
  "entry_status lib entry =
     (case ldap_first_attribute lib entry of
        None \<Rightarrow> Inr HANDLER_GO_ON
      | Some attr \<Rightarrow>
          (case ldap_get_values_len lib entry attr of
             None \<Rightarrow> Inr HANDLER_GO_ON
           | Some values \<Rightarrow>
               (case values of
                  [] \<Rightarrow> Inl NullDeref
                | v # _ \<Rightarrow>
                    c_bind (str4_cmp (map Some v) CHR ''T'' CHR ''R'' CHR ''U'' CHR ''E'') (\<lambda>eq.
                    Inr (if eq then HANDLER_ALLOW else HANDLER_DENY)))))"

text \<open>The search for the assembled filter, up to the decision.\<close>

definition search_directory ::
  "('w, 'r, 'e, 'a) ad_lib \<Rightarrow> ad_config \<Rightarrow> string \<Rightarrow> 'w \<Rightarrow> (handler_status \<times> 'w) c_result" where
  "search_directory lib config filter_text w =
     (let attrib = (case ad_attribute_name config of
                      Some a \<Rightarrow> a | None \<Rightarrow> WEBCONTROL_ACTIVEDIRECTORY_ATTRIBUTENAME);
          ((rc, msgid), w) = ldap_search_ext lib (ad_basedn config) filter_text attrib w
      in if rc \<noteq> LDAP_SUCCESS then Inr (HANDLER_GO_ON, w)
         else (let ((rc, result), w) = ldap_result lib msgid w in
               if rc \<noteq> LDAP_RES_SEARCH_ENTRY then Inr (HANDLER_GO_ON, w)
               else (case ldap_first_entry lib result of
                       None \<Rightarrow> Inr (HANDLER_GO_ON, w)
                     | Some entry \<Rightarrow> c_bind (entry_status lib entry) (\<lambda>status. Inr (status, w)))))"

definition webcontrol_activedirectory_handle_request ::
  "('w, 'r, 'e, 'a) ad_lib \<Rightarrow> request \<Rightarrow> 'w \<Rightarrow> (handler_status \<times> request \<times> 'w) c_result" where
  "webcontrol_activedirectory_handle_request lib req w =
     (let config = ad_data lib w in
      c_bind (webcontrol_rdns_lookup (getnameinfo lib) (ip_addr req) host_buffer HOST_NAME_MAX w)
        (\<lambda>(found, hostname, w).
      if \<not> found then Inr (HANDLER_GO_ON, req, w)
      else
        c_bind (c_string hostname) (\<lambda>host.
        c_bind (assemble_filter config host) (\<lambda>assembled.
        c_bind (c_deref (buf_ptr assembled)) (\<lambda>ptr.
        c_bind (c_string ptr) (\<lambda>filter_text.
        c_bind (search_directory lib config filter_text w) (\<lambda>(status, w). Inr (status, req, w))))))))"

definition webcontrol_mod_activedirectory_plugin_init ::
  "('w, 'r, 'e, 'a) ad_lib \<Rightarrow> 'w plugin \<Rightarrow> 'w \<Rightarrow> ('w plugin \<times> 'w) c_result" where
  "webcontrol_mod_activedirectory_plugin_init lib p w =
     c_bind (buffer_init_string (Some (cstr ''ActiveDirectory''))) (\<lambda>name.
     Inr (p\<lparr>pl_name := Some name,
            pl_options := Some [''uri'', ''bind_dn'', ''bind_password'', ''basedn'', ''filter'', ''attribute_name''],
            pl_config_file_parsed := Some (\<lambda>w.
              Inr (ad_put_data lib (webcontrol_activedirectory_processconfig (ad_data lib w)) w)),
            pl_plugin_free := Some (\<lambda>w. Inr w),
            pl_thread_init := Some (webcontrol_activedirectory_thread_init lib),
            pl_thread_free := Some (\<lambda>w. Inr w),
            pl_handle_request := Some (webcontrol_activedirectory_handle_request lib)\<rparr>,
          ad_put_data lib config_values_init w))"

section \<open>Assembling the filter\<close>

lemma format_args_plain:
  "CHR ''%'' \<notin> set pre \<Longrightarrow> format_args (pre @ r) args = c_bind (format_args r args) (\<lambda>t. Inr (pre @ t))"
proof (induction pre)
  case Nil
  then show ?case by (cases "format_args r args") auto
next
  case (Cons c pre)
  then show ?case by (cases "pre @ r") (auto simp: c_bind_assoc)
qed

text \<open>A result is no longer than its format, and two characters shorter than format and argument if that was used.\<close>

lemma format_args_length:
  "format_args fmt [h] = Inr out \<Longrightarrow>
     format_args fmt [] = Inr out \<and> length out \<le> length fmt
     \<or> format_args fmt [] = Inl BadFormat \<and> length out + 2 \<le> length fmt + length h"
proof (induction fmt "[h]" arbitrary: out rule: format_args.induct)
  case (3 c d r)
  note IH = 3
  consider "c \<noteq> CHR ''%''" | "c = CHR ''%''" "d = CHR ''%''" | "c = CHR ''%''" "d = CHR ''s''"
    using IH(4) by (auto split: if_splits)
  then show ?case
  proof cases
    case 1
    then obtain t where "format_args (d # r) [h] = Inr t" "out = c # t"
      using IH(4) by (auto elim: c_bind_InrE)
    with 1 IH(1) [OF 1] show ?thesis by auto
  next
    case 2
    then obtain t where "format_args r [h] = Inr t" "out = CHR ''%'' # t"
      using IH(4) by (auto elim: c_bind_InrE)
    with 2 IH(2) show ?thesis by auto
  next
    case 3
    then obtain t where t: "format_args r [] = Inr t" "out = h @ t"
      using IH(4) by (auto elim: c_bind_InrE)
    moreover have "length t \<le> length r" if "format_args r [] = Inr t" for r t
      using that by (induction r "[] :: string list" arbitrary: t rule: format_args.induct)
        (auto split: if_splits elim!: c_bind_InrE)
    ultimately show ?thesis using 3 by auto
  qed
qed (auto split: if_splits)

lemma format_args_chars:
  "format_args fmt args = Inr out \<Longrightarrow> set out \<subseteq> set fmt \<union> \<Union> (set ` set args)"
proof (induction fmt args arbitrary: out rule: format_args.induct)
  case (3 c d r args)
  then show ?case
    by (cases args) (fastforce split: if_splits elim!: c_bind_InrE)+
qed (auto split: if_splits)

text \<open>A template that uses its argument exactly once.\<close>

definition template_ok :: "string \<Rightarrow> bool" where
  "template_ok fmt \<longleftrightarrow>
     NUL \<notin> set fmt \<and> length fmt + 64 \<le> TEXT_LIMIT
     \<and> format_args fmt [] = Inl BadFormat \<and> (\<forall>h. \<exists>out. format_args fmt [h] = Inr out)"

definition filter_ok :: "ad_config \<Rightarrow> bool" where
  "filter_ok config \<longleftrightarrow>
     (\<exists>fmt. ad_filter config = Some fmt \<and> ad_filter_len config = of_nat (length fmt)
        \<and> NUL \<notin> set fmt \<and> length fmt + 64 \<le> TEXT_LIMIT
        \<and> format_args fmt [] = Inl BadFormat \<and> (\<forall>h. \<exists>out. format_args fmt [h] = Inr out))"

lemma assemble_filter_ok:
  assumes fmt: "ad_filter config = Some fmt" "ad_filter_len config = of_nat (length fmt)"
    and f: "format_args fmt [h] = Inr out" "format_args fmt [] = Inl BadFormat"
    and nul: "NUL \<notin> set fmt" "NUL \<notin> set h" and sz: "length fmt + length h \<le> TEXT_LIMIT"
  shows "\<exists>b blk. assemble_filter config h = Inr b \<and> buf_ptr b = Some blk \<and> c_string blk = Inr out
    \<and> Suc (length out) \<le> length blk \<and> unat (buf_len b) = length fmt + length h - 2"
proof -
  let ?n = "of_nat (length h) + ad_filter_len config - 2 :: size_t"
  have len: "length out + 2 \<le> length fmt + length h"
    using format_args_length [OF f(1)] f(2) by auto
  have "(of_nat (length h) + of_nat (length fmt) - 2 :: size_t) = of_nat (length fmt + length h - 2)"
    using len by (simp add: of_nat_diff add.commute)
  then have n: "unat ?n = length fmt + length h - 2"
    using sz fmt(2) unat_of_nat_small [of "length fmt + length h - 2"] by (simp add: TEXT_LIMIT_def)
  have small: "unat ?n + 64 < 2 ^ 64" using n sz by (simp add: TEXT_LIMIT_def)
  note cap = piece_round_bounds(1,2) [OF small]
  have "unat (piece_round ?n) \<le> PTRDIFF_MAX"
    using cap(2) n sz by (simp add: TEXT_LIMIT_def PTRDIFF_MAX_def)
  from c_malloc_ok [OF this]
  have prep: "buffer_prepare_copy (Some buffer_init) ?n = Inr (0, Some \<lparr>buf_ptr = Some (replicate (unat (piece_round ?n)) None),
      buf_len = 0, buf_capacity = piece_round ?n\<rparr>)"
    by (simp add: buffer_prepare_copy_def buffer_init_def Let_def)
  have nn: "NUL \<notin> set out" using format_args_chars [OF f(1)] nul by auto
  let ?blk = "cstr out @ drop (Suc (length out)) (replicate (unat (piece_round ?n)) None)"
  have fits: "Suc (length out) \<le> unat (piece_round ?n)" using cap(1) n len by simp
  then have cpy: "c_memcpy (replicate (unat (piece_round ?n)) None) 0 (cstr out) (Suc (length out)) = Inr ?blk"
    by (simp add: c_memcpy_def take_cstr [where r = "[]", simplified])
  have "assemble_filter config h = Inr \<lparr>buf_ptr = Some ?blk, buf_len = ?n, buf_capacity = piece_round ?n\<rparr>"
    unfolding assemble_filter_def Let_def prep c_bind.simps prod.case c_deref_simps fmt(1) f(1)
    by (simp add: cpy del: drop_replicate)
  moreover have "c_string ?blk = Inr out" by (rule c_string_cstr [OF nn])
  ultimately show ?thesis using n fits by (intro exI conjI) (assumption | simp)+
qed

lemma rdns_lookup_ok:
  assumes "getname (ip_sockaddr addr) w = (h, w')"
  shows "webcontrol_rdns_lookup getname addr host_buffer HOST_NAME_MAX w =
    (case h of
       Some host \<Rightarrow>
         if length host < HOST_NAME_MAX
         then Inr (True, cstr host @ drop (Suc (length host)) host_buffer, w')
         else Inr (False, host_buffer, w')
     | None \<Rightarrow> Inr (False, host_buffer, w'))"
  using assms
  by (auto simp: webcontrol_rdns_lookup_def host_buffer_def c_memcpy_def take_cstr [where r = "[]", simplified]
      split: option.split)

text \<open>The handler once a name has been found and the template is good.\<close>

lemma handle_request_found:
  assumes r: "getnameinfo lib (ip_sockaddr (ip_addr req)) w = (Some host, w1)"
    and host: "NUL \<notin> set host" "length host < HOST_NAME_MAX"
    and f: "ad_filter (ad_data lib w) = Some fmt" "filter_ok (ad_data lib w)"
  shows "\<exists>out. format_args fmt [host] = Inr out
    \<and> webcontrol_activedirectory_handle_request lib req w =
        c_bind (search_directory lib (ad_data lib w) out w1) (\<lambda>(status, w). Inr (status, req, w))"
proof -
  from f obtain out where fmt: "ad_filter_len (ad_data lib w) = of_nat (length fmt)" "NUL \<notin> set fmt"
    "length fmt + 64 \<le> TEXT_LIMIT" "format_args fmt [] = Inl BadFormat" "format_args fmt [host] = Inr out"
    by (auto simp: filter_ok_def)
  have "length fmt + length host \<le> TEXT_LIMIT" using fmt(3) host(2) by (simp add: HOST_NAME_MAX_def)
  from assemble_filter_ok [OF f(1) fmt(1,5,4,2) host(1) this] obtain b blk where
    b: "assemble_filter (ad_data lib w) host = Inr b" "buf_ptr b = Some blk" "c_string blk = Inr out"
    by blast
  have "c_string (cstr host @ r) = Inr host" for r by (rule c_string_cstr [OF host(1)])
  then show ?thesis
    using rdns_lookup_ok [of "getnameinfo lib" "ip_addr req", OF r] host(2) b fmt(5)
    by (simp add: webcontrol_activedirectory_handle_request_def Let_def)
qed

section \<open>Properties of the filter\<close>

text \<open>
  C36: the assembled filter is the template with the host name in it, and always fits.  For
  every template that uses its argument once (any number of doubled percent signs allowed)
  and every host name, the buffer prepared for the length of the template plus the host
  minus two has room for the text and its terminator, because the rounding of the
  capacity always goes up; a template with one \<open>%s\<close> gives what stands before it, the host
  name, and what stands after it.
\<close>

theorem filter_assembled_in_bounds:
  assumes "ad_filter config = Some fmt" "format_args fmt [] = Inl BadFormat" "format_args fmt [h] = Inr out"
    and "NUL \<notin> set fmt" "NUL \<notin> set h" "length fmt + length h \<le> TEXT_LIMIT"
  shows "\<exists>b blk. assemble_filter (webcontrol_activedirectory_processconfig config) h = Inr b
    \<and> buf_ptr b = Some blk \<and> c_string blk = Inr out \<and> Suc (length out) \<le> length blk
    \<and> (\<forall>pre post. fmt = pre @ ''%s'' @ post \<longrightarrow> CHR ''%'' \<notin> set (pre @ post) \<longrightarrow> out = pre @ h @ post)"
proof -
  let ?c = "webcontrol_activedirectory_processconfig config"
  have c: "ad_filter ?c = Some fmt" "ad_filter_len ?c = of_nat (length fmt)"
    using assms(1) by (simp_all add: webcontrol_activedirectory_processconfig_def)
  have "out = pre @ h @ post" if "fmt = pre @ ''%s'' @ post" "CHR ''%'' \<notin> set (pre @ post)" for pre post
    using that assms(3) format_args_plain [of post "[]" "[]"] by (simp add: format_args_plain)
  with assemble_filter_ok [OF c assms(3,2,4,5,6)] show ?thesis by blast
qed

definition sample_filter :: string where
  "sample_filter = ''(dNSHostName=%s)''"

definition sample_config :: ad_config where
  "sample_config = config_values_init\<lparr>ad_filter := Some sample_filter\<rparr>"

lemma sample_filter_args:
  "format_args sample_filter [] = Inl BadFormat"
  "format_args sample_filter [h] = Inr (''(dNSHostName='' @ h @ '')'')"
  using format_args_plain [of "''(dNSHostName=''" "''%s)''" "[]"]
    format_args_plain [of "''(dNSHostName=''" "''%s)''" "[h]"]
  by (simp_all add: sample_filter_def)

theorem filter_assembled_in_bounds_witness:
  "\<exists>b blk. assemble_filter (webcontrol_activedirectory_processconfig sample_config) ''pc1'' = Inr b
    \<and> buf_ptr b = Some blk \<and> c_string blk = Inr ''(dNSHostName=pc1)''"
proof -
  have "ad_filter sample_config = Some sample_filter" by (simp add: sample_config_def)
  from filter_assembled_in_bounds [OF this sample_filter_args(1) sample_filter_args(2) [of "''pc1''"]]
  show ?thesis by (auto simp: sample_filter_def TEXT_LIMIT_def)
qed

text \<open>
  Without a configured filter the helper crashes.  With the configuration the plugin
  starts from, the first request whose address resolves to a name that fits dereferences
  the null template; the plugin neither refuses to start nor passes the request on.
\<close>

theorem missing_filter_faults:
  assumes "getnameinfo lib (ip_sockaddr (ip_addr req)) w = (Some host, w')" "NUL \<notin> set host"
    and "2 \<le> length host" "length host < HOST_NAME_MAX"
    and "ad_data lib w = webcontrol_activedirectory_processconfig config_values_init"
  shows "webcontrol_activedirectory_handle_request lib req w = Inl NullDeref"
proof -
  let ?n = "of_nat (length host) - 2 :: size_t"
  have "?n = of_nat (length host - 2)" using assms(3) by (simp add: of_nat_diff)
  then have "unat ?n = length host - 2"
    using assms(4) unat_of_nat_small [of "length host - 2"] by (simp add: HOST_NAME_MAX_def)
  then have "unat ?n \<le> TEXT_LIMIT + 1" using assms(4) by (simp add: HOST_NAME_MAX_def TEXT_LIMIT_def)
  from buffer_prepare_copy_ok [OF buf_repr_init this] obtain b where
    "buffer_prepare_copy (Some buffer_init) ?n = Inr (0, Some b)" by blast
  moreover have c: "ad_filter (ad_data lib w) = None" "ad_filter_len (ad_data lib w) = 0"
    by (simp_all add: assms(5) webcontrol_activedirectory_processconfig_def config_values_init_def)
  ultimately have "assemble_filter (ad_data lib w) host = Inl NullDeref"
    by (simp add: assemble_filter_def Let_def)
  moreover have "c_string (cstr host @ r) = Inr host" for r by (rule c_string_cstr [OF assms(2)])
  ultimately show ?thesis
    using rdns_lookup_ok [of "getnameinfo lib" "ip_addr req", OF assms(1)] assms(4)
    by (simp add: webcontrol_activedirectory_handle_request_def Let_def)
qed

definition good_config :: ad_config where
  "good_config = webcontrol_activedirectory_processconfig sample_config"

lemma good_config_ok: "ad_filter good_config = Some sample_filter" "filter_ok good_config"
proof -
  show 1: "ad_filter good_config = Some sample_filter"
    by (simp add: good_config_def sample_config_def webcontrol_activedirectory_processconfig_def)
  have "ad_filter_len good_config = of_nat (length sample_filter)"
    by (simp add: good_config_def sample_config_def webcontrol_activedirectory_processconfig_def)
  moreover have "NUL \<notin> set sample_filter" "length sample_filter + 64 \<le> TEXT_LIMIT"
    by (simp_all add: sample_filter_def TEXT_LIMIT_def)
  ultimately show "filter_ok good_config"
    using 1 sample_filter_args unfolding filter_ok_def by blast
qed

text \<open>A library whose directory knows one host, with its configuration as the world.\<close>

definition one_host_lib :: "(ad_config, unit, unit, unit) ad_lib" where
  "one_host_lib = \<lparr>getnameinfo = (\<lambda>sa w. (Some ''pc1'', w)), ldap_initialize = (\<lambda>uri w. (0, w)),
     ldap_sasl_bind = (\<lambda>dn pw w. ((0, 1), w)),
     ldap_search_ext = (\<lambda>base f a w. ((if f = ''(dNSHostName=pc1)'' then 0 else 1, 2), w)),
     ldap_result = (\<lambda>id w. ((if id = 1 then 0x61 else 0x64, ()), w)),
     ldap_first_entry = Some, ldap_first_attribute = Some, ldap_get_values_len = (\<lambda>e a. Some [''TRUE'']),
     ad_data = (\<lambda>w. w), ad_put_data = (\<lambda>c w. c)\<rparr>"

theorem missing_filter_faults_witness:
  "webcontrol_activedirectory_handle_request one_host_lib (request_of ''10.0.0.1'' (-1)) config_values_init = Inl NullDeref"
  by (rule missing_filter_faults [of _ _ _ "''pc1''" config_values_init])
    (simp_all add: one_host_lib_def HOST_NAME_MAX_def config_values_init_def
      webcontrol_activedirectory_processconfig_def)

text \<open>
  A template without \<open>%s\<close> can overflow by one byte.  The two characters subtracted for
  \<open>%s\<close> are not there; for a template whose length is a multiple of 64 and a host name of one
  character the terminator is written one byte past the buffer.
\<close>

theorem fixed_filter_overflows:
  assumes "ad_filter config = Some fmt" "length fmt = 64 * k" "0 < k" "CHR ''%'' \<notin> set fmt"
    and "length fmt \<le> TEXT_LIMIT"
  shows "assemble_filter (webcontrol_activedirectory_processconfig config) [c] = Inl OutOfBounds"
proof -
  let ?n = "of_nat (length fmt) - 1 :: size_t"
  have "?n = of_nat (length fmt - 1)" using assms(2,3) by (simp add: of_nat_diff)
  then have n: "unat ?n = 64 * k - 1"
    using assms(2,5) unat_of_nat_small [of "length fmt - 1"] by (simp add: TEXT_LIMIT_def)
  have small: "unat ?n + 64 < 2 ^ 64" using n assms(2,5) by (simp add: TEXT_LIMIT_def)
  have "(64 * k - 1) mod 64 = 63" using assms(3) by (cases k) (simp_all add: mod_simps)
  then have cap: "unat (piece_round ?n) = 64 * k"
    using unat_piece_round [OF small] n assms(3) by simp
  then have "unat (piece_round ?n) \<le> PTRDIFF_MAX" using assms(2,5) by (simp add: TEXT_LIMIT_def PTRDIFF_MAX_def)
  from c_malloc_ok [OF this]
  have prep: "buffer_prepare_copy (Some buffer_init) ?n = Inr (0, Some \<lparr>buf_ptr = Some (replicate (64 * k) None),
      buf_len = 0, buf_capacity = piece_round ?n\<rparr>)"
    by (simp only: buffer_prepare_copy_def buffer_init_def Let_def cap [symmetric]) simp
  have "format_args fmt [[c]] = Inr fmt" using format_args_plain [OF assms(4), of "[]"] by simp
  moreover have "c_memcpy (replicate (64 * k) None) 0 (cstr fmt) (Suc (length fmt)) = Inl OutOfBounds"
    by (simp add: c_memcpy_def assms(2))
  ultimately show ?thesis
    using prep assms(1) by (simp add: assemble_filter_def webcontrol_activedirectory_processconfig_def Let_def)
qed

theorem fixed_filter_overflows_witness:
  "assemble_filter (webcontrol_activedirectory_processconfig
      (config_values_init\<lparr>ad_filter := Some (replicate 64 (CHR ''x''))\<rparr>)) ''a'' = Inl OutOfBounds"
  by (rule fixed_filter_overflows [of _ "replicate 64 (CHR ''x'')" 1]) (simp_all add: TEXT_LIMIT_def)

section \<open>What an answer is based on\<close>

lemma entry_statusD:
  assumes "entry_status lib e = Inr st"
  shows "st \<in> {HANDLER_GO_ON, HANDLER_ALLOW, HANDLER_DENY}
    \<and> (st = HANDLER_ALLOW \<longrightarrow> (\<exists>attr v vs. ldap_first_attribute lib e = Some attr
        \<and> ldap_get_values_len lib e attr = Some (v # vs) \<and> take 4 v = ''TRUE''))"
  using assms
  by (auto simp: entry_status_def split: option.splits list.splits if_splits
      elim!: c_bind_InrE dest: str4_cmp_InrD(2))

lemma search_directoryD:
  assumes "search_directory lib config flt w1 = Inr (st, w')"
  shows "st = HANDLER_GO_ON
    \<or> (\<exists>attrib msgid w2 result entry.
         ldap_search_ext lib (ad_basedn config) flt attrib w1 = ((LDAP_SUCCESS, msgid), w2)
       \<and> ldap_result lib msgid w2 = ((LDAP_RES_SEARCH_ENTRY, result), w')
       \<and> ldap_first_entry lib result = Some entry \<and> entry_status lib entry = Inr st)"
proof -
  define attrib where "attrib = (case ad_attribute_name config of
      Some a \<Rightarrow> a | None \<Rightarrow> WEBCONTROL_ACTIVEDIRECTORY_ATTRIBUTENAME)"
  obtain rc msgid w2 where s: "ldap_search_ext lib (ad_basedn config) flt attrib w1 = ((rc, msgid), w2)"
    by (metis prod.exhaust)
  obtain rc2 result w3 where m: "ldap_result lib msgid w2 = ((rc2, result), w3)"
    by (metis prod.exhaust)
  from assms s m show ?thesis
    unfolding search_directory_def Let_def attrib_def [symmetric]
    by (auto elim!: c_bind_InrE split: if_splits option.splits)
qed

lemma handle_requestD:
  assumes "webcontrol_activedirectory_handle_request lib req w = Inr (st, req', w')"
  shows "req' = req \<and> (st = HANDLER_GO_ON
    \<or> (\<exists>host w1 b ptr flt.
         getnameinfo lib (ip_sockaddr (ip_addr req)) w = (Some host, w1)
       \<and> assemble_filter (ad_data lib w) (until_nul host) = Inr b \<and> buf_ptr b = Some ptr \<and> c_string ptr = Inr flt
       \<and> search_directory lib (ad_data lib w) flt w1 = Inr (st, w')))"
proof -
  obtain h w1 where r: "getnameinfo lib (ip_sockaddr (ip_addr req)) w = (h, w1)" by fastforce
  note lookup = rdns_lookup_ok [of "getnameinfo lib" "ip_addr req", OF r]
  show ?thesis
  proof (cases "\<exists>host. h = Some host \<and> length host < HOST_NAME_MAX")
    case False
    then have "webcontrol_rdns_lookup (getnameinfo lib) (ip_addr req) host_buffer HOST_NAME_MAX w =
        Inr (False, host_buffer, w1)" using lookup by (auto split: option.splits)
    with assms show ?thesis by (simp add: webcontrol_activedirectory_handle_request_def Let_def)
  next
    case True
    then obtain host where host: "h = Some host" "length host < HOST_NAME_MAX" by blast
    have "c_string (cstr host @ r) = Inr (until_nul host)" for r
      using c_string_until_nul [of host r] by (simp add: cstr_def)
    with assms host lookup r show ?thesis
      by (auto simp: webcontrol_activedirectory_handle_request_def Let_def c_deref_def
          elim!: c_bind_InrE split: option.splits)
  qed
qed

section \<open>Properties of the lookup\<close>

text \<open>
  C24: access is allowed only on the word TRUE.  Whatever libldap and the resolver do, if the
  handler allows a request then the address resolved to a name, the search for the filter
  assembled from it succeeded, its first message was an entry, and the first value of that
  entry's first attribute begins with TRUE; the request itself is not changed.  Every
  other outcome (no name, a failed search, no entry, no attribute, no values) passes the
  request on or denies it.
\<close>

theorem directory_allows_only_true:
  assumes "webcontrol_activedirectory_handle_request lib req w = Inr (st, req', w')"
  shows "req' = req \<and> st \<in> {HANDLER_GO_ON, HANDLER_ALLOW, HANDLER_DENY}
    \<and> (st = HANDLER_ALLOW \<longrightarrow>
        (\<exists>host w1 b ptr flt attrib msgid w2 result entry attr v vs.
           getnameinfo lib (ip_sockaddr (ip_addr req)) w = (Some host, w1)
         \<and> assemble_filter (ad_data lib w) (until_nul host) = Inr b \<and> buf_ptr b = Some ptr \<and> c_string ptr = Inr flt
         \<and> ldap_search_ext lib (ad_basedn (ad_data lib w)) flt attrib w1 = ((LDAP_SUCCESS, msgid), w2)
         \<and> ldap_result lib msgid w2 = ((LDAP_RES_SEARCH_ENTRY, result), w')
         \<and> ldap_first_entry lib result = Some entry \<and> ldap_first_attribute lib entry = Some attr
         \<and> ldap_get_values_len lib entry attr = Some (v # vs) \<and> take 4 v = ''TRUE''))"
proof -
  have same: "req' = req" using handle_requestD [OF assms] by blast
  from handle_requestD [OF assms] consider "st = HANDLER_GO_ON" | host w1 b ptr flt where
    "getnameinfo lib (ip_sockaddr (ip_addr req)) w = (Some host, w1)"
    "assemble_filter (ad_data lib w) (until_nul host) = Inr b" "buf_ptr b = Some ptr" "c_string ptr = Inr flt"
    "search_directory lib (ad_data lib w) flt w1 = Inr (st, w')" by blast
  then show ?thesis
  proof cases
    case 2
    from search_directoryD [OF 2(5)] show ?thesis
    proof (elim disjE exE conjE)
      fix attrib msgid w2 result entry
      assume f: "ldap_search_ext lib (ad_basedn (ad_data lib w)) flt attrib w1 = ((LDAP_SUCCESS, msgid), w2)"
        "ldap_result lib msgid w2 = ((LDAP_RES_SEARCH_ENTRY, result), w')"
        "ldap_first_entry lib result = Some entry" and e: "entry_status lib entry = Inr st"
      from entry_statusD [OF e] same 2 f show ?thesis by blast
    qed (simp add: same)
  qed (simp add: same)
qed

theorem directory_allows_only_true_witness:
  "\<exists>b ptr. assemble_filter good_config ''pc1'' = Inr b \<and> buf_ptr b = Some ptr \<and> c_string ptr = Inr ''(dNSHostName=pc1)''
    \<and> webcontrol_activedirectory_handle_request one_host_lib (request_of ''10.0.0.1'' (-1)) good_config
        = Inr (HANDLER_ALLOW, request_of ''10.0.0.1'' (-1), good_config)"
proof -
  have run: "webcontrol_activedirectory_handle_request one_host_lib (request_of ''10.0.0.1'' (-1)) good_config
      = Inr (HANDLER_ALLOW, request_of ''10.0.0.1'' (-1), good_config)"
    using handle_request_found [of one_host_lib "request_of ''10.0.0.1'' (-1)" good_config "''pc1''" good_config sample_filter]
      good_config_ok str4_cmp_eq [of "CHR ''T''" "CHR ''R''" "CHR ''U''" "CHR ''E''" "[]"]
    by (simp add: one_host_lib_def good_config_ok sample_filter_args(2) HOST_NAME_MAX_def LDAP_SUCCESS_def
        LDAP_RES_SEARCH_ENTRY_def entry_status_def search_directory_def)
  from directory_allows_only_true [OF run] obtain host w1 b ptr flt attrib msgid w2 where
    "getnameinfo one_host_lib (ip_sockaddr (ip_addr (request_of ''10.0.0.1'' (-1)))) good_config = (Some host, w1)"
    "assemble_filter (ad_data one_host_lib good_config) (until_nul host) = Inr b" "buf_ptr b = Some ptr"
    "c_string ptr = Inr flt"
    "ldap_search_ext one_host_lib (ad_basedn (ad_data one_host_lib good_config)) flt attrib w1 = ((LDAP_SUCCESS, msgid), w2)"
    by blast
  with run show ?thesis by (auto simp: one_host_lib_def LDAP_SUCCESS_def split: if_splits)
qed

section \<open>The plugin keeps its contract\<close>

text \<open>
  What is relied on of the resolver and of libldap: names are C strings, and no call touches
  the plugin's configuration.  Nothing is assumed of the values a server sends.
\<close>

definition ad_contract :: "('w, 'r, 'e, 'a) ad_lib \<Rightarrow> ('w \<Rightarrow> bool) \<Rightarrow> bool" where
  "ad_contract lib ok \<longleftrightarrow>
     (\<forall>sa w h w'. ok w \<longrightarrow> getnameinfo lib sa w = (h, w') \<longrightarrow>
        ok w' \<and> ad_data lib w' = ad_data lib w \<and> (\<forall>host. h = Some host \<longrightarrow> NUL \<notin> set host)) \<and>
     (\<forall>u w x w'. ok w \<longrightarrow> ldap_initialize lib u w = (x, w') \<longrightarrow> ok w' \<and> ad_data lib w' = ad_data lib w) \<and>
     (\<forall>d p w x w'. ok w \<longrightarrow> ldap_sasl_bind lib d p w = (x, w') \<longrightarrow> ok w' \<and> ad_data lib w' = ad_data lib w) \<and>
     (\<forall>d f a w x w'. ok w \<longrightarrow> ldap_search_ext lib d f a w = (x, w') \<longrightarrow> ok w' \<and> ad_data lib w' = ad_data lib w) \<and>
     (\<forall>i w x w'. ok w \<longrightarrow> ldap_result lib i w = (x, w') \<longrightarrow> ok w' \<and> ad_data lib w' = ad_data lib w)"

definition ad_ok :: "('w, 'r, 'e, 'a) ad_lib \<Rightarrow> ('w \<Rightarrow> bool) \<Rightarrow> 'w \<Rightarrow> bool" where
  "ad_ok lib ok w \<longleftrightarrow> ok w \<and> filter_ok (ad_data lib w)"

lemma ad_callD:
  assumes "ad_contract lib ok" "ad_ok lib ok w"
  shows "getnameinfo lib sa w = (h, w') \<Longrightarrow> ad_ok lib ok w' \<and> ad_data lib w' = ad_data lib w"
    "getnameinfo lib sa w = (Some host, w') \<Longrightarrow> NUL \<notin> set host"
    "ldap_initialize lib u w = (i, w') \<Longrightarrow> ad_ok lib ok w'"
    "ldap_sasl_bind lib dn pw w = (x, w') \<Longrightarrow> ad_ok lib ok w'"
    "ldap_search_ext lib base flt att w = (x, w') \<Longrightarrow> ad_ok lib ok w'"
    "ldap_result lib n w = (y, w') \<Longrightarrow> ad_ok lib ok w'"
  using assms unfolding ad_contract_def ad_ok_def by metis+

text \<open>
  What the values can do: the comparison with TRUE reads four bytes of the first value, whatever
  its length.  \<open>directory_fault lib e\<close>: some attribute of an entry the library can return has no
  value, or one that is shorter than that, and reading it is the fault \<open>e\<close>.
\<close>

definition directory_fault :: "('w, 'r, 'e, 'a) ad_lib \<Rightarrow> fault \<Rightarrow> bool" where
  "directory_fault lib e \<longleftrightarrow>
     (\<exists>entry attr values. ldap_first_attribute lib entry = Some attr
        \<and> ldap_get_values_len lib entry attr = Some values
        \<and> (case values of [] \<Rightarrow> e = NullDeref | v # _ \<Rightarrow> length v < 4 \<and> e = OutOfBounds))"

lemma entry_status_guarded: "c_guarded (directory_fault lib) (\<lambda>_. True) (entry_status lib entry)"
proof (cases "ldap_first_attribute lib entry")
  case None
  then show ?thesis by (simp add: entry_status_def)
next
  case (Some at)
  show ?thesis
  proof (cases "ldap_get_values_len lib entry at")
    case None
    with Some show ?thesis by (simp add: entry_status_def)
  next
    case vs: (Some vs)
    show ?thesis
    proof (cases vs)
      case Nil
      with Some vs show ?thesis by (fastforce simp: entry_status_def directory_fault_def)
    next
      case (Cons v us)
      show ?thesis
      proof (cases "4 \<le> length v")
        case True
        then obtain v0 v1 v2 v3 r where "v = v0 # v1 # v2 # v3 # r" using four_chars by blast
        with Some vs Cons str4_cmp_eq [of v0 v1 v2 v3 r] show ?thesis by (simp add: entry_status_def)
      next
        case False
        with Some vs Cons have "directory_fault lib OutOfBounds" by (fastforce simp: directory_fault_def)
        with False Some vs Cons show ?thesis by (simp add: entry_status_def str4_cmp_short)
      qed
    qed
  qed
qed

text \<open>A value shorter than four bytes is read past its end: any entry with such a value makes the decision fault.\<close>

lemma short_value_faults:
  assumes "ldap_first_attribute lib entry = Some attr" "ldap_get_values_len lib entry attr = Some (v # vs)"
    and "length v < 4"
  shows "entry_status lib entry = Inl OutOfBounds"
  using assms by (simp add: entry_status_def str4_cmp_short)

lemma search_directory_guarded:
  assumes c: "ad_contract lib ok" and w: "ad_ok lib ok w"
  shows "c_guarded (directory_fault lib) (\<lambda>(st, w'). ad_ok lib ok w') (search_directory lib config flt w)"
proof -
  define att where "att = (case ad_attribute_name config of
      Some a \<Rightarrow> a | None \<Rightarrow> WEBCONTROL_ACTIVEDIRECTORY_ATTRIBUTENAME)"
  obtain rc msgid w2 where s: "ldap_search_ext lib (ad_basedn config) flt att w = ((rc, msgid), w2)"
    by (metis prod.exhaust)
  have w2: "ad_ok lib ok w2" by (rule ad_callD(5) [OF c w s])
  obtain rc2 result w3 where m: "ldap_result lib msgid w2 = ((rc2, result), w3)" by (metis prod.exhaust)
  have w3: "ad_ok lib ok w3" by (rule ad_callD(6) [OF c w2 m])
  have "c_guarded (directory_fault lib) (\<lambda>(st, w'). ad_ok lib ok w')
      (c_bind (entry_status lib entry) (\<lambda>status. Inr (status, w3)))" for entry
    by (rule c_guarded_bind [OF entry_status_guarded]) (simp add: w3)
  with w2 w3 show ?thesis
    unfolding search_directory_def att_def [symmetric] Let_def
    by (simp add: s m split: option.split)
qed

lemma activedirectory_hook_guarded:
  assumes c: "ad_contract lib ok"
  shows "hook_guarded (ad_ok lib ok) (directory_fault lib) (webcontrol_activedirectory_handle_request lib)"
  unfolding hook_guarded_def
proof (intro allI impI)
  fix req :: request and w a assume w: "ad_ok lib ok w"
  obtain h w1 where r: "getnameinfo lib (ip_sockaddr (ip_addr req)) w = (h, w1)" by fastforce
  have w1: "ad_ok lib ok w1" using ad_callD(1) [OF c w r] by simp
  show "c_guarded (directory_fault lib) (\<lambda>(st, r', w'). ad_ok lib ok w' \<and> channel r' = channel req \<and> ip_addr r' = ip_addr req)
      (webcontrol_activedirectory_handle_request lib req w)"
  proof (cases "\<exists>host. h = Some host \<and> length host < HOST_NAME_MAX")
    case False
    then have "webcontrol_rdns_lookup (getnameinfo lib) (ip_addr req) host_buffer HOST_NAME_MAX w =
        Inr (False, host_buffer, w1)"
      using rdns_lookup_ok [of "getnameinfo lib" "ip_addr req", OF r] by (auto split: option.splits)
    with w1 show ?thesis by (simp add: webcontrol_activedirectory_handle_request_def Let_def)
  next
    case True
    then obtain host where host: "h = Some host" "length host < HOST_NAME_MAX" by blast
    from w obtain fmt where f: "ad_filter (ad_data lib w) = Some fmt" "filter_ok (ad_data lib w)"
      by (auto simp: ad_ok_def filter_ok_def)
    have "NUL \<notin> set host" using ad_callD(2) [OF c w] r host(1) by simp
    from handle_request_found [OF r [unfolded host(1)] this host(2) f] obtain out where
      "webcontrol_activedirectory_handle_request lib req w =
        c_bind (search_directory lib (ad_data lib w) out w1) (\<lambda>(status, w). Inr (status, req, w))"
      by blast
    moreover have "c_guarded (directory_fault lib) (\<lambda>(st, r', w'). ad_ok lib ok w' \<and> channel r' = channel req \<and> ip_addr r' = ip_addr req)
        (c_bind (search_directory lib (ad_data lib w) out w1) (\<lambda>(status, w). Inr (status, req, w)))"
      by (rule c_guarded_bind [OF search_directory_guarded [OF c w1]]) auto
    ultimately show ?thesis by simp
  qed
qed

lemma activedirectory_thread_init_ok:
  assumes c: "ad_contract lib ok" and w: "ad_ok lib ok w"
  shows "\<exists>rc w'. webcontrol_activedirectory_thread_init lib w = Inr (rc, w') \<and> ad_ok lib ok w'"
proof (cases "ad_uri (ad_data lib w)")
  case None
  with w show ?thesis
    by (simp add: webcontrol_activedirectory_thread_init_def webcontrol_activedirectory_ldap_open_def)
next
  case (Some uri)
  obtain st w1 where 1: "ldap_initialize lib uri w = (st, w1)" by fastforce
  have w1: "ad_ok lib ok w1" by (rule ad_callD(3) [OF c w 1])
  obtain st2 msgid w2 where
    2: "ldap_sasl_bind lib (ad_bind_dn (ad_data lib w)) (ad_bind_password (ad_data lib w)) w1 = ((st2, msgid), w2)"
    by (metis prod.exhaust)
  have w2: "ad_ok lib ok w2" by (rule ad_callD(4) [OF c w1 2])
  obtain st3 r w3 where 3: "ldap_result lib msgid w2 = ((st3, r), w3)" by (metis prod.exhaust)
  have w3: "ad_ok lib ok w3" by (rule ad_callD(6) [OF c w2 3])
  show ?thesis
    using Some 1 2 3 w1 w2 w3
    by (simp add: webcontrol_activedirectory_thread_init_def webcontrol_activedirectory_ldap_open_def)
qed

end
