(* ===== verification/Startup.thy ===== *)
theory Startup
  imports Plugin_Loader Worker
begin

text \<open>
  The first half of \<open>main\<close> in \<open>src/core/main.c\<close>: the command line, the plugins, the
  configuration, up to the point where the workers are created.

  \<open>getopt\<close> is code outside the repository; what it returns is a list of options with their
  arguments.
\<close>

section \<open>The command line\<close>

definition PATH_MAX :: nat where "PATH_MAX = 4096"

record options =
  num_threads :: size_t
  plugin_list :: "buffer option"
  config_file :: block

text \<open>The variables of \<open>main\<close> before the loop; \<open>config_file\<close> is an array without an initial value.\<close>

definition default_options :: options where
  "default_options = \<lparr>num_threads = 2, plugin_list = None, config_file = replicate PATH_MAX None\<rparr>"

definition c_strcpy :: "block \<Rightarrow> string \<Rightarrow> block c_result" where
  "c_strcpy dst s = c_memcpy dst 0 (cstr s) (Suc (length s))"

text \<open>The loop over the options; \<open>None\<close> is \<open>exit (-1)\<close> after the usage text.\<close>

fun parse_options :: "(char \<times> string) list \<Rightarrow> options \<Rightarrow> options option c_result" where
  "parse_options [] opt = Inr (Some opt)"
| "parse_options ((c, optarg) # r) opt =
     (if c = CHR ''c'' then
        c_bind (c_strcpy (config_file opt) optarg) (\<lambda>blk. parse_options r (opt\<lparr>config_file := blk\<rparr>))
      else if c = CHR ''t'' then
        parse_options r (case scan_zu optarg of None \<Rightarrow> opt | Some (n, _) \<Rightarrow> opt\<lparr>num_threads := n\<rparr>)
      else if c = CHR ''p'' then
        c_bind (buffer_init_string (Some (cstr optarg))) (\<lambda>b. parse_options r (opt\<lparr>plugin_list := Some b\<rparr>))
      else Inr None)"

section \<open>Up to the event loop\<close>

text \<open>
  \<open>config_file == NULL\<close> compares an array and is never true, so the default file name is
  not used.  The result is the number of workers and what they work with; \<open>None\<close> is
  \<open>exit (-1)\<close>.
\<close>

definition main_start :: "('w, 'h) dl_env \<Rightarrow> (string \<Rightarrow> 'w cfg_env) \<Rightarrow> bool \<Rightarrow> (char \<times> string) list \<Rightarrow> 'w \<Rightarrow>
    (size_t \<times> 'w core \<times> 'w) option c_result" where
  "main_start dl cfg have_ipv6 opts w =
     c_bind (parse_options opts default_options) (\<lambda>parsed.
     case parsed of
       None \<Rightarrow> Inr None
     | Some opt \<Rightarrow>
         c_bind (c_string (config_file opt)) (\<lambda>path.
         c_bind (plugins_load_string dl (plugin_list opt) [] w) (\<lambda>(ps, w).
         c_bind (init_config (cfg path) ps w) (\<lambda>(rc, deny_by_default, _, w).
         if rc = -1 then Inr None
         else Inr (Some (num_threads opt,
           \<lparr>core_plugins = ps, core_deny_by_default = deny_by_default, core_have_ipv6 = have_ipv6\<rparr>, w))))))"

section \<open>What the options come to\<close>

text \<open>The argument of the last occurrence of an option.\<close>

definition last_arg :: "char \<Rightarrow> (char \<times> string) list \<Rightarrow> string option" where
  "last_arg c opts = (case find (\<lambda>x. fst x = c) (rev opts) of None \<Rightarrow> None | Some x \<Rightarrow> Some (snd x))"

text \<open>The last \<open>-t\<close> whose argument is a number, or 2.\<close>

definition thread_count :: "(char \<times> string) list \<Rightarrow> size_t" where
  "thread_count opts = foldl (\<lambda>n x. if fst x = CHR ''t'' then (case scan_zu (snd x) of None \<Rightarrow> n | Some (m, _) \<Rightarrow> m) else n) 2 opts"

definition option_ok :: "char \<times> string \<Rightarrow> bool" where
  "option_ok x \<longleftrightarrow> fst x \<in> {CHR ''c'', CHR ''t'', CHR ''p''} \<and> NUL \<notin> set (snd x)
     \<and> length (snd x) < PATH_MAX"

definition options_hold :: "options \<Rightarrow> (char \<times> string) list \<Rightarrow> bool" where
  "options_hold opt opts \<longleftrightarrow>
     num_threads opt = thread_count opts \<and> length (config_file opt) = PATH_MAX \<and>
     (case last_arg CHR ''c'' opts of
        None \<Rightarrow> config_file opt = replicate PATH_MAX None
      | Some s \<Rightarrow> c_string (config_file opt) = Inr s) \<and>
     (case last_arg CHR ''p'' opts of
        None \<Rightarrow> plugin_list opt = None
      | Some s \<Rightarrow> NUL \<notin> set s \<and> (\<exists>b. plugin_list opt = Some b \<and> buf_cstr b s))"

lemma last_arg_snoc: "last_arg c (opts @ [(d, a)]) = (if d = c then Some a else last_arg c opts)"
  by (simp add: last_arg_def)

lemma thread_count_snoc: "thread_count (opts @ [(d, a)]) =
    (if d = CHR ''t'' then (case scan_zu a of None \<Rightarrow> thread_count opts | Some (m, _) \<Rightarrow> m) else thread_count opts)"
  by (simp add: thread_count_def split: option.split)

lemma c_string_uninitialised: "0 < n \<Longrightarrow> c_string (replicate n None) = Inl Uninitialised"
  by (cases n) simp_all

lemma options_hold_default: "options_hold default_options []"
  by (simp add: options_hold_def default_options_def thread_count_def last_arg_def)

lemma parse_options_step:
  assumes "options_hold opt seen" "option_ok (c, a)"
  shows "\<exists>opt'. options_hold opt' (seen @ [(c, a)]) \<and> (\<forall>r. parse_options ((c, a) # r) opt = parse_options r opt')"
proof -
  have a: "NUL \<notin> set a" "length a < PATH_MAX" using assms(2) by (simp_all add: option_ok_def)
  consider "c = CHR ''c''" | "c = CHR ''t''" | "c = CHR ''p''"
    using assms(2) by (auto simp: option_ok_def)
  then show ?thesis
  proof cases
    case 1
    let ?blk = "cstr a @ drop (Suc (length a)) (config_file opt)"
    have "length (config_file opt) = PATH_MAX" using assms(1) by (simp add: options_hold_def)
    then have "c_strcpy (config_file opt) a = Inr ?blk" "length ?blk = PATH_MAX"
      using a(2) by (simp_all add: c_strcpy_def mem_simps take_cstr [where r = "[]", simplified])
    with 1 assms(1) c_string_cstr [OF a(1), of "drop (Suc (length a)) (config_file opt)"] show ?thesis
      by (intro exI [of _ "opt\<lparr>config_file := ?blk\<rparr>"])
        (auto simp: options_hold_def last_arg_snoc thread_count_snoc split: option.splits)
  next
    case 2
    then show ?thesis using assms(1)
      by (intro exI [of _ "case scan_zu a of None \<Rightarrow> opt | Some (n, _) \<Rightarrow> opt\<lparr>num_threads := n\<rparr>"])
        (auto simp: options_hold_def last_arg_snoc thread_count_snoc split: option.split)
  next
    case 3
    have "length a \<le> TEXT_LIMIT" using a(2) by (simp add: PATH_MAX_def TEXT_LIMIT_def)
    with buffer_init_string_ok [OF a(1), of "[]"] obtain b where
      "buffer_init_string (Some (cstr a)) = Inr b" "buf_cstr b a" by auto
    with 3 assms(1) a(1) show ?thesis
      by (intro exI [of _ "opt\<lparr>plugin_list := Some b\<rparr>"])
        (auto simp: options_hold_def last_arg_snoc thread_count_snoc split: option.splits)
  qed
qed

lemma parse_options_ok:
  "list_all option_ok opts \<Longrightarrow> options_hold opt seen \<Longrightarrow>
     \<exists>opt'. options_hold opt' (seen @ opts) \<and> (\<forall>r. parse_options (opts @ r) opt = parse_options r opt')"
proof (induction opts arbitrary: opt seen)
  case (Cons x opts)
  obtain c a where x: "x = (c, a)" by (cases x)
  with Cons.prems parse_options_step [of opt seen c a] obtain o1 where
    o1: "options_hold o1 (seen @ [x])" "\<forall>r. parse_options (x # r) opt = parse_options r o1" by auto
  from Cons.IH [OF _ o1(1)] Cons.prems(1) o1(2) show ?case by auto
qed auto

section \<open>Properties of the start\<close>

text \<open>The plugins that the last \<open>-p\<close> names, loaded in order.\<close>

definition named_plugins :: "('w, 'h) dl_env \<Rightarrow> (char \<times> string) list \<Rightarrow> 'w \<Rightarrow> ('w plugin list \<times> 'w) c_result" where
  "named_plugins dl opts w =
     (case last_arg CHR ''p'' opts of
        None \<Rightarrow> Inr ([], w)
      | Some s \<Rightarrow> c_fold (load_one dl) ([], w) (plugin_names s))"

definition started :: "('w, 'h) dl_env \<Rightarrow> (string \<Rightarrow> 'w cfg_env) \<Rightarrow> bool \<Rightarrow> (char \<times> string) list \<Rightarrow> 'w \<Rightarrow> string \<Rightarrow>
    (size_t \<times> 'w core \<times> 'w) option c_result" where
  "started dl cfg v6 opts w path =
     c_bind (named_plugins dl opts w) (\<lambda>(ps, w1).
     c_bind (init_config (cfg path) ps w1) (\<lambda>(rc, deny, _, w2).
     if rc = -1 then Inr None
     else Inr (Some (thread_count opts,
       \<lparr>core_plugins = ps, core_deny_by_default = deny, core_have_ipv6 = v6\<rparr>, w2))))"

lemma main_start_run:
  assumes "list_all option_ok opts"
  shows "main_start dl cfg v6 opts w =
    (case last_arg CHR ''c'' opts of None \<Rightarrow> Inl Uninitialised | Some path \<Rightarrow> started dl cfg v6 opts w path)"
proof -
  from parse_options_ok [OF assms options_hold_default] obtain opt where
    opt: "options_hold opt opts" "parse_options (opts @ r) default_options = parse_options r opt" for r by auto
  have load: "plugins_load_string dl (plugin_list opt) [] w = named_plugins dl opts w"
  proof (cases "last_arg CHR ''p'' opts")
    case (Some s)
    with opt(1) obtain b where b: "plugin_list opt = Some b" "buf_cstr b s" "NUL \<notin> set s"
      by (auto simp: options_hold_def)
    from buf_cstr_string [OF b(2)] b(3) obtain blk where "buf_ptr b = Some blk" "c_string blk = Inr s" by auto
    with b(1) Some show ?thesis by (simp add: plugins_load_string_def load_tokens_fold named_plugins_def)
  qed (use opt(1) in \<open>simp add: options_hold_def plugins_load_string_def named_plugins_def\<close>)
  have path: "c_string (config_file opt) =
      (case last_arg CHR ''c'' opts of None \<Rightarrow> Inl Uninitialised | Some s \<Rightarrow> Inr s)"
    using opt(1) c_string_uninitialised [of PATH_MAX]
    by (auto simp: options_hold_def PATH_MAX_def split: option.splits)
  have threads: "num_threads opt = thread_count opts" using opt(1) by (simp add: options_hold_def)
  show ?thesis
    using opt(2) [of "[]"] by (simp add: main_start_def started_def path load threads split: option.split cong: if_cong)
qed

text \<open>
  C32: the start.  For options \<open>-c\<close>, \<open>-t\<close> and \<open>-p\<close> in any number and order with arguments
  shorter than \<open>PATH_MAX\<close>, the last of each kind counts (a \<open>-t\<close> only if it is a number, and
  two workers without one): the plugins named are loaded in order, the configuration file is
  read with them, a parse error ends the start, and otherwise the workers get exactly the
  loaded plugins and the configured default.  Without any \<open>-c\<close> the start reads an
  uninitialised array instead of using the default file; and the first \<open>-c\<close> whose argument
  does not fit writes past that array.
\<close>

theorem start_from_options:
  assumes "list_all option_ok opts"
  shows "main_start dl cfg v6 opts w =
      (case last_arg CHR ''c'' opts of
         None \<Rightarrow> Inl Uninitialised
       | Some path \<Rightarrow> started dl cfg v6 opts w path)
    \<and> (PATH_MAX \<le> length a \<longrightarrow> main_start dl cfg v6 (opts @ (CHR ''c'', a) # r) w = Inl OutOfBounds)"
proof -
  from parse_options_ok [OF assms options_hold_default] obtain opt where
    opt: "options_hold opt opts" "parse_options (opts @ r) default_options = parse_options r opt" for r by auto
  have "length (config_file opt) = PATH_MAX" using opt(1) by (simp add: options_hold_def)
  then show ?thesis
    using main_start_run [OF assms, of dl cfg v6 w] opt(2) by (simp add: main_start_def c_strcpy_def c_memcpy_def)
qed

text \<open>A linker without modules and a configuration that denies by default, for the witness.\<close>

definition no_modules :: "(unit, unit) dl_env" where
  "no_modules = \<lparr>MODULE_DIR = ''/m'', dlopen = (\<lambda>_. None), dlsym = (\<lambda>_ _. None)\<rparr>"

definition deny_config :: "string \<Rightarrow> unit cfg_env" where
  "deny_config path = \<lparr>cfg_parse = (\<lambda>_ w. (CFG_SUCCESS None (Some ''deny''), w)), fopen_log = (\<lambda>_. False)\<rparr>"

theorem start_from_options_witness:
  "main_start no_modules deny_config True [(CHR ''t'', ''4''), (CHR ''c'', ''/etc/w.conf''), (CHR ''t'', ''x'')] () =
     Inr (Some (4, \<lparr>core_plugins = [], core_deny_by_default = True, core_have_ipv6 = True\<rparr>, ()))
   \<and> main_start no_modules deny_config True [(CHR ''t'', ''4'')] () = Inl Uninitialised
   \<and> main_start no_modules deny_config True [(CHR ''c'', replicate 4096 (CHR ''x''))] () = Inl OutOfBounds"
proof -
  have ok: "list_all option_ok [(CHR ''t'', ''4''), (CHR ''c'', ''/etc/w.conf''), (CHR ''t'', ''x'')]"
    "list_all option_ok [(CHR ''t'', ''4'')]" "list_all option_ok []"
    by (simp_all add: option_ok_def PATH_MAX_def)
  have opts: "init_config (deny_config p) [] () = Inr (0, True, False, ())" for p
    by (simp add: init_config_run use_config_def deny_config_def)
  have "scan_zu ''4'' = Some (4, [])" "scan_zu ''x'' = None"
    by (simp_all add: scan_zu_def is_space_def is_digit_def less_eq_char_def strtoul_def digits_val_def
        digit_val_def Let_def)
  then have "started no_modules deny_config True [(CHR ''t'', ''4''), (CHR ''c'', ''/etc/w.conf''), (CHR ''t'', ''x'')] () p =
      Inr (Some (4, \<lparr>core_plugins = [], core_deny_by_default = True, core_have_ipv6 = True\<rparr>, ()))" for p
    by (simp add: started_def named_plugins_def last_arg_def opts thread_count_def)
  with start_from_options [OF ok(1), of no_modules deny_config True "()"]
    start_from_options [OF ok(2), of no_modules deny_config True "()"]
    start_from_options [OF ok(3), of no_modules deny_config True "()" "replicate 4096 (CHR ''x'')" "[]"]
  show ?thesis by (simp add: last_arg_def PATH_MAX_def)
qed

text \<open>
  C33: the start needs a configuration that says what the default is.  For options as in C32
  with a \<open>-c\<close>, when the plugins could be loaded: a file that cannot be read, after which the
  code means to continue with default values, and a file that was read but does not set
  \<open>default_behavior\<close>, both end the start in a null pointer dereference, before any
  configuration hook runs; a parse error ends it with \<open>exit (-1)\<close>; otherwise the hooks of the
  loaded plugins run in order, and the workers deny by default exactly if the file says
  \<open>deny\<close>.
\<close>

theorem configuration_needed:
  assumes "list_all option_ok opts" "last_arg CHR ''c'' opts = Some path"
    and "named_plugins dl opts w = Inr (ps, w1)" "list_all named ps"
  shows "main_start dl cfg v6 opts w =
    (case cfg_parse (cfg path) (core_options @ sections ps) w1 of
       (CFG_FILE_ERROR, _) \<Rightarrow> Inl NullDeref
     | (CFG_PARSE_ERROR, _) \<Rightarrow> Inr None
     | (CFG_SUCCESS logfile None, _) \<Rightarrow> Inl NullDeref
     | (CFG_SUCCESS logfile (Some behavior), w2) \<Rightarrow>
         c_bind (run_config_hooks ps w2) (\<lambda>w3.
         Inr (Some (thread_count opts,
           \<lparr>core_plugins = ps, core_deny_by_default = (behavior = ''deny''), core_have_ipv6 = v6\<rparr>, w3))))"
  using assms(2,3)
  by (simp add: main_start_run [OF assms(1)] started_def init_config_run [OF assms(4)] use_config_def c_bind_assoc
      split: prod.split cfg_result.split option.split)

definition bad_config :: "cfg_result \<Rightarrow> string \<Rightarrow> unit cfg_env" where
  "bad_config result path = \<lparr>cfg_parse = (\<lambda>_ w. (result, w)), fopen_log = (\<lambda>_. False)\<rparr>"

theorem configuration_needed_witness:
  "main_start no_modules (bad_config CFG_FILE_ERROR) True [(CHR ''c'', ''/etc/w.conf'')] () = Inl NullDeref
   \<and> main_start no_modules (bad_config (CFG_SUCCESS None None)) True [(CHR ''c'', ''/etc/w.conf'')] () = Inl NullDeref
   \<and> main_start no_modules deny_config True [(CHR ''c'', ''/etc/w.conf'')] () =
       Inr (Some (2, \<lparr>core_plugins = [], core_deny_by_default = True, core_have_ipv6 = True\<rparr>, ()))"
proof -
  let ?opts = "[(CHR ''c'', ''/etc/w.conf'')]"
  have ok: "list_all option_ok ?opts" "last_arg CHR ''c'' ?opts = Some ''/etc/w.conf''"
    "named_plugins no_modules ?opts () = Inr ([], ())" "thread_count ?opts = 2"
    by (simp_all add: option_ok_def PATH_MAX_def last_arg_def named_plugins_def thread_count_def)
  note start = configuration_needed [OF ok(1,2,3), simplified]
  show ?thesis by (simp add: start ok(4) bad_config_def deny_config_def)
qed

end
