(* ===== verification/Worker_Pool.thy ===== *)
theory Worker_Pool
  imports Worker "HOL-Library.Multiset"
begin

text \<open>
  The worker threads of \<open>src/core/main.c\<close> running together: the loop of \<open>worker\<close> cut into
  steps, any number of threads, the jobs of the shared queue and one world behind the
  plugins.  Between two steps of a thread any other thread may run.

  A step is one call of \<open>queue_dequeue\<close> with the parsing that follows it (which touches only
  the thread's own request), one hook, or one reply.  The queue is the list of its content
  (its monitor is a component of its own).
\<close>

section \<open>Threads\<close>

datatype 'w thread_at =
    Dequeuing
  | Handling request "'w plugin list"
  | Storing request "'w plugin list"
  | Terminated

record 'w pool =
  job_queue :: "buffer option list"
  threads :: "'w thread_at list"
  outside :: 'w
  stdout_lines :: "string list"

definition pool_init :: "nat \<Rightarrow> buffer option list \<Rightarrow> 'w \<Rightarrow> 'w pool" where
  "pool_init n js w = \<lparr>job_queue = js, threads = replicate n Dequeuing, outside = w, stdout_lines = []\<rparr>"

text \<open>One step of one thread, as a function of its program point.\<close>

definition dequeue_step :: "'w core \<Rightarrow> net_env \<Rightarrow> nat \<Rightarrow> 'w pool \<Rightarrow> 'w pool c_result option" where
  "dequeue_step core env i s =
     (case job_queue s of
        [] \<Rightarrow> None
      | None # js \<Rightarrow> Some (Inr (s\<lparr>job_queue := js, threads := (threads s)[i := Terminated]\<rparr>))
      | Some line # js \<Rightarrow>
          Some (c_bind (parse_job (core_have_ipv6 core) env line) (\<lambda>(req, valid).
            if valid
            then Inr (s\<lparr>job_queue := js, threads := (threads s)[i := Handling req (core_plugins core)]\<rparr>)
            else Inr (s\<lparr>job_queue := js, stdout_lines := stdout_lines s @ printed (refuse req)\<rparr>))))"

text \<open>The \<open>break\<close> of the handler loop leaves no plugin to ask.\<close>

fun handle_step :: "request \<Rightarrow> 'w plugin \<Rightarrow> 'w plugin list \<Rightarrow> nat \<Rightarrow> 'w pool \<Rightarrow> 'w pool c_result" where
  "handle_step req p ps i s =
     (case pl_handle_request p of
        None \<Rightarrow> Inr (s\<lparr>threads := (threads s)[i := Handling req ps]\<rparr>)
      | Some h \<Rightarrow>
          c_bind (h req (outside s)) (\<lambda>(status, req', w).
          Inr (s\<lparr>outside := w, threads := (threads s)[i := Handling (req'\<lparr>response_result := status_code status\<rparr>)
            (if status \<noteq> HANDLER_GO_ON then [] else ps)]\<rparr>)))"

definition reply_step :: "'w core \<Rightarrow> request \<Rightarrow> nat \<Rightarrow> 'w pool \<Rightarrow> 'w pool" where
  "reply_step core req i s =
     (let (out, go_on) = answer (core_deny_by_default core) req
      in s\<lparr>threads := (threads s)[i := if go_on \<and> \<not> skip_post_handle_request req
             then Storing req (core_plugins core) else Dequeuing],
           stdout_lines := stdout_lines s @ [out]\<rparr>)"

fun post_step :: "request \<Rightarrow> 'w plugin list \<Rightarrow> nat \<Rightarrow> 'w pool \<Rightarrow> 'w pool c_result" where
  "post_step req [] i s = Inr (s\<lparr>threads := (threads s)[i := Dequeuing]\<rparr>)"
| "post_step req (p # ps) i s =
     (case pl_post_handle_request p of
        None \<Rightarrow> Inr (s\<lparr>threads := (threads s)[i := Storing req ps]\<rparr>)
      | Some h \<Rightarrow>
          c_bind (h req (outside s)) (\<lambda>(_, req', w).
          Inr (s\<lparr>outside := w, threads := (threads s)[i := Storing req' ps]\<rparr>)))"

text \<open>What thread \<open>i\<close> does next; \<open>None\<close> when it waits in \<open>queue_dequeue\<close> or has ended.\<close>

definition thread_step :: "'w core \<Rightarrow> net_env \<Rightarrow> nat \<Rightarrow> 'w pool \<Rightarrow> 'w pool c_result option" where
  "thread_step core env i s =
     (case threads s ! i of
        Dequeuing \<Rightarrow> dequeue_step core env i s
      | Handling req [] \<Rightarrow> Some (Inr (reply_step core req i s))
      | Handling req (p # ps) \<Rightarrow> Some (handle_step req p ps i s)
      | Storing req ps \<Rightarrow> Some (post_step req ps i s)
      | Terminated \<Rightarrow> None)"

inductive pool_step :: "'w core \<Rightarrow> net_env \<Rightarrow> 'w pool \<Rightarrow> 'w pool \<Rightarrow> bool" for core env where
  thread: "i < length (threads s) \<Longrightarrow> thread_step core env i s = Some (Inr s') \<Longrightarrow> pool_step core env s s'"

inductive_cases pool_stepE: "pool_step core env s s'"

section \<open>Where each job is\<close>

definition job_channel :: "buffer option \<Rightarrow> size_t multiset" where
  "job_channel j =
     (case j of
        None \<Rightarrow> {#}
      | Some b \<Rightarrow>
          (case buf_ptr b of
             None \<Rightarrow> {#}
           | Some blk \<Rightarrow> (case c_string blk of Inl _ \<Rightarrow> {#} | Inr s \<Rightarrow> {#line_channel s#})))"

fun thread_channel :: "'w thread_at \<Rightarrow> size_t multiset" where
  "thread_channel (Handling req ps) = {#channel req#}"
| "thread_channel _ = {#}"

text \<open>The channels of the jobs in the queue, with a thread, and answered.\<close>

definition accounted :: "'w pool \<Rightarrow> size_t multiset" where
  "accounted s =
     sum_list (map job_channel (job_queue s)) + sum_list (map thread_channel (threads s))
     + mset (map line_channel (stdout_lines s))"

definition reply_line :: "string \<Rightarrow> bool" where
  "reply_line out \<longleftrightarrow> squid_reply (line_channel out) out"

fun thread_ok :: "'w plugin list \<Rightarrow> 'w thread_at \<Rightarrow> bool" where
  "thread_ok plugins (Handling req ps) \<longleftrightarrow> (\<exists>a. request_wf req a) \<and> set ps \<subseteq> set plugins \<and> length ps \<le> length plugins"
| "thread_ok plugins (Storing req ps) \<longleftrightarrow> (\<exists>a. request_wf req a) \<and> set ps \<subseteq> set plugins \<and> length ps \<le> length plugins"
| "thread_ok plugins _ \<longleftrightarrow> True"

definition pool_ok :: "('w \<Rightarrow> bool) \<Rightarrow> 'w core \<Rightarrow> size_t multiset \<Rightarrow> 'w pool \<Rightarrow> bool" where
  "pool_ok wok core channels s \<longleftrightarrow>
     wok (outside s) \<and> list_all (thread_ok (core_plugins core)) (threads s)
     \<and> list_all reply_line (stdout_lines s) \<and> accounted s = channels
     \<and> (\<exists>bs ts k. job_queue s = map Some bs @ replicate k None \<and> list_all2 buf_cstr bs ts
          \<and> (Terminated \<in> set (threads s) \<longrightarrow> bs = []))"

lemma squid_reply_channel: "squid_reply n out \<Longrightarrow> line_channel out = n"
  using squid_reply_line [of n out] by (auto simp: line_channel_def)

lemma reply_line_reply: "squid_reply n out \<Longrightarrow> reply_line out"
  using squid_reply_channel [of n out] by (simp add: reply_line_def)

lemma job_channel_Some: "buf_cstr b t \<Longrightarrow> job_channel (Some b) = {#line_channel (until_nul t)#}"
  by (erule buf_cstr_string) (simp add: job_channel_def)

lemma sum_list_update_thread:
  assumes "i < length ts"
  shows "sum_list (map f (ts[i := x])) + f (ts ! i) = sum_list (map f ts) + (f x :: 'b :: comm_monoid_add)"
  using assms
proof (induction ts arbitrary: i)
  case (Cons t ts)
  then show ?case by (cases i) (auto simp: ac_simps)
qed simp

lemma list_all_update: "list_all P xs \<Longrightarrow> P x \<Longrightarrow> list_all P (xs[i := x])"
  by (induction xs arbitrary: i) (auto split: nat.split)

text \<open>The steps that are left for the jobs, at most.\<close>

definition job_work :: "'w core \<Rightarrow> buffer option \<Rightarrow> nat" where
  "job_work core j = (case j of None \<Rightarrow> 1 | Some _ \<Rightarrow> 2 * length (core_plugins core) + 4)"

fun thread_work :: "'w core \<Rightarrow> 'w thread_at \<Rightarrow> nat" where
  "thread_work core (Handling req ps) = length (core_plugins core) + length ps + 3"
| "thread_work core (Storing req ps) = Suc (length ps)"
| "thread_work core _ = 0"

definition pool_work :: "'w core \<Rightarrow> 'w pool \<Rightarrow> nat" where
  "pool_work core s = sum_list (map (job_work core) (job_queue s)) + sum_list (map (thread_work core) (threads s))"

lemma pool_ok_thread:
  assumes "pool_ok wok core channels s" "i < length (threads s)" "wok w" "thread_ok (core_plugins core) x"
    and "x \<noteq> Terminated" "list_all reply_line outs"
    and "thread_channel (threads s ! i) = thread_channel x + mset (map line_channel outs)"
  shows "pool_ok wok core channels
    (s\<lparr>outside := w, threads := (threads s)[i := x], stdout_lines := stdout_lines s @ outs\<rparr>)"
proof -
  have "Terminated \<in> set ((threads s)[i := x]) \<Longrightarrow> Terminated \<in> set (threads s)"
    using assms(5) set_update_subset_insert [of "threads s" i x] by auto
  moreover have "accounted (s\<lparr>outside := w, threads := (threads s)[i := x], stdout_lines := stdout_lines s @ outs\<rparr>)
      = accounted s"
    using sum_list_update_thread [OF assms(2), of thread_channel x] assms(7)
    by (simp add: accounted_def ac_simps)
  ultimately show ?thesis
    using assms(1,3,4,6) unfolding pool_ok_def by (auto simp: list_all_update)
qed

lemma pool_work_thread:
  assumes "i < length (threads s)" "thread_work core x < thread_work core (threads s ! i)"
  shows "pool_work core (s\<lparr>outside := w, threads := (threads s)[i := x], stdout_lines := out\<rparr>) < pool_work core s"
  using sum_list_update_thread [OF assms(1), of "thread_work core" x] assms(2) by (simp add: pool_work_def)

text \<open>The hook that thread \<open>i\<close> is about to ask, of the plugin \<open>p\<close>, faults with \<open>e\<close>.\<close>

definition hook_fault :: "'w pool \<Rightarrow> nat \<Rightarrow> 'w plugin \<Rightarrow> fault \<Rightarrow> bool" where
  "hook_fault s i p e \<longleftrightarrow>
     (\<exists>req ps h. threads s ! i = Handling req (p # ps) \<and> pl_handle_request p = Some h \<and> h req (outside s) = Inl e)"

context guarded_chain
begin

lemma dequeue_null_ok:
  assumes ok: "pool_ok wok core channels s" and i: "i < length (threads s)" "threads s ! i = Dequeuing"
    and q: "job_queue s = replicate (Suc k) None"
  defines "s' \<equiv> s\<lparr>job_queue := replicate k None, threads := (threads s)[i := Terminated]\<rparr>"
  shows "pool_ok wok core channels s' \<and> pool_work core s' < pool_work core s"
proof -
  note upd = sum_list_update_thread [OF i(1), unfolded i(2)]
  have "accounted s' = accounted s"
    using q upd [of thread_channel Terminated] by (simp add: s'_def accounted_def job_channel_def)
  moreover have "\<exists>bs ts n. replicate k None = map Some bs @ replicate n None \<and> list_all2 buf_cstr bs ts \<and> bs = []"
    by (intro exI [of _ "[]"] exI [of _ k]) simp
  moreover have "pool_work core s' < pool_work core s"
    using q upd [of "thread_work core" Terminated] by (simp add: s'_def pool_work_def job_work_def)
  ultimately show ?thesis
    using ok unfolding pool_ok_def s'_def by (auto simp: list_all_update)
qed

lemma dequeue_valid_ok:
  assumes core: "core_plugins core = plugins" and ok: "pool_ok wok core channels s"
    and i: "i < length (threads s)" "threads s ! i = Dequeuing"
    and q: "job_queue s = Some b # js" "job_channel (Some b) = {#channel req#}" "\<exists>a. request_wf req a"
    and rest: "\<exists>bs ts n. js = map Some bs @ replicate n None \<and> list_all2 buf_cstr bs ts
        \<and> (Terminated \<in> set (threads s) \<longrightarrow> bs = [])"
  defines "s' \<equiv> s\<lparr>job_queue := js, threads := (threads s)[i := Handling req plugins]\<rparr>"
  shows "pool_ok wok core channels s' \<and> pool_work core s' < pool_work core s"
proof -
  note upd = sum_list_update_thread [OF i(1), unfolded i(2)]
  have "accounted s' = accounted s"
    using q upd [of thread_channel "Handling req plugins"] by (simp add: s'_def accounted_def)
  moreover have "pool_work core s' < pool_work core s"
    using q core upd [of "thread_work core" "Handling req plugins"] by (simp add: s'_def pool_work_def job_work_def)
  moreover have "Terminated \<in> set ((threads s)[i := Handling req plugins]) \<Longrightarrow> Terminated \<in> set (threads s)"
    using set_update_subset_insert [of "threads s" i "Handling req plugins"] by auto
  ultimately show ?thesis
    using ok rest q(3) core unfolding pool_ok_def s'_def by (auto simp: list_all_update)
qed

lemma dequeue_invalid_ok:
  assumes ok: "pool_ok wok core channels s"
    and q: "job_queue s = Some b # js" "job_channel (Some b) = {#channel req#}"
    and rest: "\<exists>bs ts n. js = map Some bs @ replicate n None \<and> list_all2 buf_cstr bs ts
        \<and> (Terminated \<in> set (threads s) \<longrightarrow> bs = [])"
  defines "s' \<equiv> s\<lparr>job_queue := js, stdout_lines := stdout_lines s @ printed (refuse req)\<rparr>"
  shows "pool_ok wok core channels s' \<and> pool_work core s' < pool_work core s"
proof -
  obtain out where out: "printed (refuse req) = [out]" "squid_reply (channel req) out"
    using squid_reply_address by (simp add: refuse_def)
  have "accounted s' = accounted s"
    using q out squid_reply_channel [OF out(2)] by (simp add: s'_def accounted_def)
  moreover have "pool_work core s' < pool_work core s"
    using q by (simp add: s'_def pool_work_def job_work_def)
  ultimately show ?thesis
    using ok rest out(1) reply_line_reply [OF out(2)] unfolding pool_ok_def s'_def by auto
qed

lemma dequeue_step_ok:
  assumes core: "core_plugins core = plugins" and ok: "pool_ok wok core channels s"
    and i: "i < length (threads s)" "threads s ! i = Dequeuing" and r: "dequeue_step core env i s = Some r"
  shows "\<exists>s'. r = Inr s' \<and> pool_ok wok core channels s' \<and> pool_work core s' < pool_work core s
    \<and> length (threads s') = length (threads s)"
proof -
  from ok obtain bs ts k where
    q: "job_queue s = map Some bs @ replicate k None" "list_all2 buf_cstr bs ts"
      "Terminated \<in> set (threads s) \<longrightarrow> bs = []"
    unfolding pool_ok_def by blast
  show ?thesis
  proof (cases bs)
    case Nil
    with q(1) r obtain k' where k: "k = Suc k'" by (cases k) (auto simp: dequeue_step_def)
    with q(1) Nil r dequeue_null_ok [OF ok i, of k'] show ?thesis by (auto simp: dequeue_step_def)
  next
    case (Cons b bs')
    then obtain t ts' where t: "buf_cstr b t" "list_all2 buf_cstr bs' ts'"
      using q(2) by (auto simp: list_all2_Cons1)
    let ?js = "map Some bs' @ replicate k None"
    have js: "job_queue s = Some b # ?js" using q(1) Cons by simp
    have rest: "\<exists>bs ts n. ?js = map Some bs @ replicate n None \<and> list_all2 buf_cstr bs ts
        \<and> (Terminated \<in> set (threads s) \<longrightarrow> bs = [])"
      using t(2) q(3) Cons by (intro exI [of _ bs'] exI [of _ ts'] exI [of _ k]) simp
    obtain req v where job: "parse_job (core_have_ipv6 core) env b = Inr (req, v)"
      "channel req = line_channel (until_nul t)" "v \<longrightarrow> (\<exists>a. request_wf req a)"
      using parse_job_ok [OF t(1), of "core_have_ipv6 core" env] by (auto simp: parsed_request_def)
    have ch: "job_channel (Some b) = {#channel req#}" by (simp add: job_channel_Some [OF t(1)] job(2))
    show ?thesis
      using r js job dequeue_valid_ok [OF core ok i js ch _ rest] dequeue_invalid_ok [OF ok js ch rest] core
      by (cases v) (auto simp: dequeue_step_def)
  qed
qed

lemma handle_step_guarded:
  assumes core: "core_plugins core = plugins" and ok: "pool_ok wok core channels s"
    and i: "i < length (threads s)" "threads s ! i = Handling req (p # ps)"
  shows "case handle_step req p ps i s of
      Inl e \<Rightarrow> bad e \<and> (\<exists>p \<in> set plugins. hook_fault s i p e)
    | Inr s' \<Rightarrow> pool_ok wok core channels s' \<and> pool_work core s' < pool_work core s
        \<and> length (threads s') = length (threads s)"
proof -
  have "thread_ok plugins (threads s ! i)" and w: "wok (outside s)"
    using ok i(1) core by (auto simp: pool_ok_def list_all_length)
  with i(2) obtain a where t: "request_wf req a" "p \<in> set plugins" "set ps \<subseteq> set plugins" "length ps \<le> length plugins"
    by auto
  show ?thesis
  proof (cases "pl_handle_request p")
    case None
    have "pool_ok wok core channels (s\<lparr>outside := outside s, threads := (threads s)[i := Handling req ps],
        stdout_lines := stdout_lines s @ []\<rparr>)"
      by (rule pool_ok_thread [OF ok i(1) w]) (use t i(2) core in auto)
    moreover have "pool_work core (s\<lparr>outside := outside s, threads := (threads s)[i := Handling req ps],
        stdout_lines := stdout_lines s @ []\<rparr>) < pool_work core s"
      by (rule pool_work_thread [OF i(1)]) (simp add: i(2))
    ultimately show ?thesis using None by simp
  next
    case (Some h)
    have "hook_guarded wok bad h" using plugins_guarded [OF t(2)] Some by (simp add: plugin_guarded_def)
    from this t(1) w show ?thesis
    proof (cases rule: hook_guardedE)
      case (fault e)
      with Some i(2) t(2) show ?thesis by (auto simp: hook_fault_def)
    next
      case (result st req' w')
      let ?x = "Handling (req'\<lparr>response_result := status_code st\<rparr>) (if st \<noteq> HANDLER_GO_ON then [] else ps)"
      have wf: "request_wf (req'\<lparr>response_result := status_code st\<rparr>) a"
        using t(1) request_wf_cong [of "req'\<lparr>response_result := status_code st\<rparr>" req a] result(4) by simp
      have "pool_ok wok core channels (s\<lparr>outside := w', threads := (threads s)[i := ?x],
          stdout_lines := stdout_lines s @ []\<rparr>)"
        by (rule pool_ok_thread [OF ok i(1) result(2)]) (use wf t i(2) core result(3) in auto)
      moreover have "pool_work core (s\<lparr>outside := w', threads := (threads s)[i := ?x],
          stdout_lines := stdout_lines s @ []\<rparr>) < pool_work core s"
        by (rule pool_work_thread [OF i(1)]) (simp add: i(2))
      ultimately show ?thesis using Some result(1) by simp
    qed
  qed
qed

lemma post_step_ok:
  assumes core: "core_plugins core = plugins" and ok: "pool_ok wok core channels s"
    and i: "i < length (threads s)" "threads s ! i = Storing req ps"
  shows "\<exists>s'. post_step req ps i s = Inr s' \<and> pool_ok wok core channels s' \<and> pool_work core s' < pool_work core s
    \<and> length (threads s') = length (threads s)"
proof -
  have "thread_ok plugins (threads s ! i)" and w: "wok (outside s)"
    using ok i(1) core by (auto simp: pool_ok_def list_all_length)
  with i(2) obtain a where t: "request_wf req a" "set ps \<subseteq> set plugins" "length ps \<le> length plugins"
    by auto
  have go: "\<exists>s'. Inr (s\<lparr>outside := w', threads := (threads s)[i := x], stdout_lines := stdout_lines s @ []\<rparr>) = Inr s'
      \<and> pool_ok wok core channels s' \<and> pool_work core s' < pool_work core s \<and> length (threads s') = length (threads s)"
    if "wok w'" "thread_ok plugins x" "x \<noteq> Terminated" "thread_channel x = {#}" "thread_work core x < Suc (length ps)" for w' x
    using pool_ok_thread [OF ok i(1) that(1), of x "[]"] pool_work_thread [OF i(1), of core x "stdout_lines s @ []" w']
      that i(2) core by auto
  show ?thesis
  proof (cases ps)
    case Nil
    with go [OF w, of Dequeuing] show ?thesis by simp
  next
    case (Cons p ps')
    show ?thesis
    proof (cases "pl_post_handle_request p")
      case None
      with go [OF w, of "Storing req ps'"] t Cons show ?thesis by auto
    next
      case (Some h)
      have "hook_ok wok h" using plugins_guarded [of p] t(2) Cons Some by (simp add: plugin_guarded_def)
      from hook_okE [OF this t(1) w] obtain st req' w' where
        h: "h req (outside s) = Inr (st, req', w')" "wok w'" "ip_addr req' = ip_addr req" by metis
      then have "request_wf req' a" using t(1) request_wf_cong [of req' req a] by simp
      with go [OF h(2), of "Storing req' ps'"] t Cons Some h(1) show ?thesis by auto
    qed
  qed
qed

lemma reply_step_ok:
  assumes core: "core_plugins core = plugins" and ok: "pool_ok wok core channels s"
    and i: "i < length (threads s)" "threads s ! i = Handling req []"
  shows "pool_ok wok core channels (reply_step core req i s) \<and> pool_work core (reply_step core req i s) < pool_work core s
    \<and> length (threads (reply_step core req i s)) = length (threads s)"
proof -
  have "thread_ok plugins (threads s ! i)" and w: "wok (outside s)"
    using ok i(1) core by (auto simp: pool_ok_def list_all_length)
  with i(2) obtain a where t: "request_wf req a" by auto
  obtain out go_on where a: "answer (core_deny_by_default core) req = (out, go_on)" by fastforce
  then have out: "squid_reply (channel req) out" using squid_reply_answer [of req] by (metis fst_conv)
  define x where "x = (if go_on \<and> \<not> skip_post_handle_request req then Storing req plugins else Dequeuing)"
  let ?s = "s\<lparr>outside := outside s, threads := (threads s)[i := x], stdout_lines := stdout_lines s @ [out]\<rparr>"
  have "pool_ok wok core channels ?s"
    by (rule pool_ok_thread [OF ok i(1) w])
      (use t i(2) core squid_reply_channel [OF out] reply_line_reply [OF out] in \<open>auto simp: x_def\<close>)
  moreover have "pool_work core ?s < pool_work core s"
    by (rule pool_work_thread [OF i(1)]) (simp add: i(2) core x_def)
  moreover have "reply_step core req i s = ?s"
    by (simp add: reply_step_def a core x_def)
  ultimately show ?thesis by simp
qed

lemma thread_step_guarded:
  assumes "core_plugins core = plugins" "pool_ok wok core channels s" "i < length (threads s)"
    and "thread_step core env i s = Some r"
  shows "case r of
      Inl e \<Rightarrow> bad e \<and> (\<exists>p \<in> set plugins. hook_fault s i p e)
    | Inr s' \<Rightarrow> pool_ok wok core channels s' \<and> pool_work core s' < pool_work core s
        \<and> length (threads s') = length (threads s)"
proof (cases "threads s ! i")
  case Dequeuing
  with assms dequeue_step_ok [OF assms(1-3), of env r] show ?thesis by (auto simp: thread_step_def)
next
  case (Handling req ps)
  then show ?thesis
  proof (cases ps)
    case Nil
    with Handling assms reply_step_ok [OF assms(1-3), of req] show ?thesis
      by (auto simp: thread_step_def)
  next
    case (Cons p ps')
    with Handling assms handle_step_guarded [OF assms(1-3), of req p ps'] show ?thesis
      by (simp add: thread_step_def del: handle_step.simps)
  qed
next
  case (Storing req ps)
  with assms post_step_ok [OF assms(1-3), of req ps] show ?thesis by (auto simp: thread_step_def)
next
  case Terminated
  with assms(4) show ?thesis by (simp add: thread_step_def)
qed

end

context plugin_chain
begin

lemma thread_step_ok:
  assumes "core_plugins core = plugins" "pool_ok wok core channels s" "i < length (threads s)"
    and "thread_step core env i s = Some r"
  shows "\<exists>s'. r = Inr s' \<and> pool_ok wok core channels s' \<and> pool_work core s' < pool_work core s
    \<and> length (threads s') = length (threads s)"
  using thread_step_guarded [OF assms] by (cases r) auto

lemma pool_reachable_ok:
  assumes "core_plugins core = plugins" "pool_ok wok core channels s0"
  shows "(pool_step core env)\<^sup>*\<^sup>* s0 s \<Longrightarrow> pool_ok wok core channels s \<and> length (threads s) = length (threads s0)"
proof (induction rule: rtranclp_induct)
  case (step s s')
  from step.hyps(2) obtain i where "i < length (threads s)" "thread_step core env i s = Some (Inr s')"
    by (auto elim: pool_stepE)
  with step.IH thread_step_ok [OF assms(1), of channels s i env] show ?case by auto
qed (use assms(2) in simp)

end

lemma pool_init_ok:
  assumes "wok w" "list_all2 buf_cstr bs ts"
  shows "pool_ok wok core (mset (map (\<lambda>t. line_channel (until_nul t)) ts)) (pool_init n (map Some bs @ replicate k None) w)"
proof -
  have "sum_list (map job_channel (map Some bs)) = mset (map (\<lambda>t. line_channel (until_nul t)) ts)"
    using assms(2) by (induction rule: list_all2_induct) (auto simp: job_channel_Some)
  moreover have "sum_list (map job_channel (replicate m None)) = {#}" for m
    by (induction m) (simp_all add: job_channel_def)
  moreover have "sum_list (map thread_channel (replicate m Dequeuing)) = {#}" for m
    by (induction m) simp_all
  moreover have "list_all (thread_ok ps) (replicate m Dequeuing)" for m ps
    by (induction m) simp_all
  ultimately show ?thesis
    using assms unfolding pool_ok_def pool_init_def accounted_def by auto
qed

lemma pool_stuck_answered:
  assumes "pool_ok wok core channels s" "threads s \<noteq> []"
    and stuck: "\<And>i. i < length (threads s) \<Longrightarrow> thread_step core env i s = None"
  shows "mset (map line_channel (stdout_lines s)) = channels"
proof -
  have at: "t = Terminated \<or> t = Dequeuing \<and> job_queue s = []" if "t \<in> set (threads s)" for t
  proof -
    from that obtain i where "i < length (threads s)" "threads s ! i = t" by (auto simp: in_set_conv_nth)
    with stuck [of i] show ?thesis
      by (auto simp: thread_step_def dequeue_step_def split: thread_at.splits list.splits option.splits)
  qed
  have "sum_list (map thread_channel ts) = {#}" if "\<And>t. t \<in> set ts \<Longrightarrow> thread_channel t = {#}"
    for ts :: "'a thread_at list"
    using that by (induction ts) auto
  then have "sum_list (map thread_channel (threads s)) = {#}" using at by force
  moreover have "sum_list (map job_channel (job_queue s)) = {#}"
  proof -
    from assms(1) obtain bs k where q: "job_queue s = map Some bs @ replicate k None"
      "Terminated \<in> set (threads s) \<longrightarrow> bs = []" unfolding pool_ok_def by blast
    obtain t where "t \<in> set (threads s)" using assms(2) by (meson hd_in_set)
    with at have "job_queue s = [] \<or> Terminated \<in> set (threads s)" by blast
    with q have "bs = []" by auto
    moreover have "sum_list (map job_channel (replicate m None)) = {#}" for m
      by (induction m) (simp_all add: job_channel_def)
    ultimately show ?thesis using q(1) by simp
  qed
  ultimately show ?thesis using assms(1) by (simp add: pool_ok_def accounted_def)
qed

definition pool_stuck :: "'w core \<Rightarrow> net_env \<Rightarrow> 'w pool \<Rightarrow> bool" where
  "pool_stuck core env s \<longleftrightarrow> (\<forall>i < length (threads s). thread_step core env i s = None)"

lemma pool_finishes:
  assumes "plugin_chain wok (core_plugins core)"
  shows "pool_ok wok core channels s \<Longrightarrow> \<exists>s'. (pool_step core env)\<^sup>*\<^sup>* s s' \<and> pool_stuck core env s'"
proof (induction "pool_work core s" arbitrary: s rule: less_induct)
  case less
  show ?case
  proof (cases "pool_stuck core env s")
    case False
    then obtain i r where i: "i < length (threads s)" "thread_step core env i s = Some r"
      by (auto simp: pool_stuck_def)
    from plugin_chain.thread_step_ok [OF assms refl less.prems i] obtain s1 where
      s1: "r = Inr s1" "pool_ok wok core channels s1" "pool_work core s1 < pool_work core s" by blast
    from less.hyps [OF s1(3,2)] obtain s' where "(pool_step core env)\<^sup>*\<^sup>* s1 s'" "pool_stuck core env s'" by blast
    moreover have "pool_step core env s s1" using i s1(1) by (auto intro: pool_step.thread)
    ultimately show ?thesis by (meson converse_rtranclp_into_rtranclp)
  qed blast
qed

text \<open>
  C4: the pool of workers answers every job exactly once, under every interleaving.  For
  plugins that keep the contract, any number of threads, any jobs followed by any number of
  null pointers: no step of any thread faults and each one uses up some of a finite amount
  of work; every line on stdout is a reply of the protocol, and the channels answered so
  far are channels of jobs, none answered more often than asked; from every reachable state
  the pool runs to one where nothing is left to do, and there, with at least one thread,
  the channels answered are exactly the channels asked, each as often as it was asked.
\<close>

theorem pool_answers_every_job:
  assumes "plugin_chain wok (core_plugins core)" "wok w" "list_all2 buf_cstr bs ts"
    and "(pool_step core env)\<^sup>*\<^sup>* (pool_init n (map Some bs @ replicate k None) w) s"
  defines "asked \<equiv> mset (map (\<lambda>t. line_channel (until_nul t)) ts)"
    and "answered \<equiv> mset (map line_channel (stdout_lines s))"
  shows "(\<forall>i r. i < length (threads s) \<longrightarrow> thread_step core env i s = Some r \<longrightarrow>
          (\<exists>s'. r = Inr s' \<and> pool_work core s' < pool_work core s))
    \<and> wok (outside s) \<and> list_all (\<lambda>out. squid_reply (line_channel out) out) (stdout_lines s)
    \<and> answered \<subseteq># asked
    \<and> (pool_stuck core env s \<longrightarrow> 0 < n \<longrightarrow> answered = asked)
    \<and> (\<exists>s'. (pool_step core env)\<^sup>*\<^sup>* s s' \<and> pool_stuck core env s')"
proof -
  have "pool_ok wok core asked (pool_init n (map Some bs @ replicate k None) w)"
    unfolding asked_def by (rule pool_init_ok) (rule assms(2), rule assms(3))
  from plugin_chain.pool_reachable_ok [OF assms(1) refl this assms(4)]
  have ok: "pool_ok wok core asked s" and len: "length (threads s) = n"
    by (simp_all add: asked_def pool_init_def)
  from plugin_chain.thread_step_ok [OF assms(1) refl ok]
  have "\<exists>s'. r = Inr s' \<and> pool_work core s' < pool_work core s"
    if "i < length (threads s)" "thread_step core env i s = Some r" for i r using that by blast
  moreover have "answered \<subseteq># asked"
    using ok by (auto simp: pool_ok_def accounted_def answered_def)
  moreover have "answered = asked" if "pool_stuck core env s" "0 < n"
    using pool_stuck_answered [OF ok] that len by (auto simp: pool_stuck_def answered_def)
  ultimately show ?thesis
    using ok pool_finishes [OF assms(1) ok] by (auto simp: pool_ok_def reply_line_def [abs_def])
qed

theorem pool_answers_every_job_witness:
  "\<exists>b s. buf_cstr b ''7 10.0.0.1''
     \<and> (pool_step deny_core one_address)\<^sup>*\<^sup>* (pool_init 2 [Some b, Some b, None, None] ()) s
     \<and> mset (map line_channel (stdout_lines s)) = {#line_channel ''7 10.0.0.1'', line_channel ''7 10.0.0.1''#}"
proof -
  obtain b where b: "buf_cstr b ''7 10.0.0.1''" by (rule line_buffer)
  let ?init = "pool_init 2 (map Some [b, b] @ replicate 2 None) ()"
  have bs: "list_all2 buf_cstr [b, b] [''7 10.0.0.1'', ''7 10.0.0.1'']" using b by simp
  note pool = pool_answers_every_job [OF deny_all_chain TrueI bs, of one_address 2 2]
  from pool [OF rtranclp.rtrancl_refl] obtain s where
    s: "(pool_step deny_core one_address)\<^sup>*\<^sup>* ?init s" "pool_stuck deny_core one_address s" by blast
  with pool [OF s(1)] b show ?thesis
    by (intro exI [of _ b] exI [of _ s]) (simp add: numeral_eq_Suc)
qed

end
