(* ===== verification/Deployment.thy ===== *)
theory Deployment
  imports Line_Reader Worker Txtfile Plugin_Loader Active_Directory
begin

text \<open>
  The helper put together: the plugins as their init functions set them up, the worker's
  contract discharged for them, the way of a request from the bytes on stdin to the reply on
  stdout, and what the cache does in front of a backend.

  Nothing here models further code; the definitions name combinations of the components.
\<close>

section \<open>The plugins as they are loaded\<close>

definition txtfile_plugin :: "'w txt_access \<Rightarrow> 'w \<Rightarrow> 'w plugin" where
  "txtfile_plugin acc w = fst (projr (webcontrol_mod_txtfile_plugin_init acc new_plugin w))"

definition memcached_plugin :: "('w, 's) mc_lib \<Rightarrow> 'w plugin" where
  "memcached_plugin lib = projr (webcontrol_mod_memcached_plugin_init lib new_plugin)"

definition activedirectory_plugin :: "('w, 'r, 'e, 'a) ad_lib \<Rightarrow> 'w \<Rightarrow> 'w plugin" where
  "activedirectory_plugin lib w = fst (projr (webcontrol_mod_activedirectory_plugin_init lib new_plugin w))"

lemma plugin_name_ok:
  assumes "length s \<le> 64" "NUL \<notin> set s"
  obtains b where "buffer_init_string (Some (cstr s)) = Inr b"
  using buffer_init_string_ok [of s "[]"] assms by (auto simp: TEXT_LIMIT_def)

lemma txtfile_plugin_hooks:
  "pl_handle_request (txtfile_plugin acc w) = Some (\<lambda>r w.
     c_bind (webcontrol_txtfile_handle_request r (txt_get acc w)) (\<lambda>st. Inr (st, r, w)))"
  "pl_post_handle_request (txtfile_plugin acc w) = None"
  "pl_thread_init (txtfile_plugin acc w) = None"
  "pl_thread_free (txtfile_plugin acc w) = None"
  by (rule plugin_name_ok [of "''txtfile''"];
    simp add: txtfile_plugin_def webcontrol_mod_txtfile_plugin_init_def new_plugin_def)+

lemma memcached_plugin_hooks:
  "pl_handle_request (memcached_plugin lib) = Some (webcontrol_memcached_handle_request lib)"
  "pl_post_handle_request (memcached_plugin lib) = Some (webcontrol_memcached_post_handle_request lib)"
  "pl_thread_init (memcached_plugin lib) = Some (webcontrol_memcached_thread_init lib)"
  "pl_thread_free (memcached_plugin lib) = None"
  by (rule plugin_name_ok [of "''memcached''"];
    simp add: memcached_plugin_def webcontrol_mod_memcached_plugin_init_def new_plugin_def)+

lemma activedirectory_plugin_hooks:
  "pl_handle_request (activedirectory_plugin lib w) = Some (webcontrol_activedirectory_handle_request lib)"
  "pl_post_handle_request (activedirectory_plugin lib w) = None"
  "pl_thread_init (activedirectory_plugin lib w) = Some (webcontrol_activedirectory_thread_init lib)"
  "pl_thread_free (activedirectory_plugin lib w) = Some (\<lambda>w. Inr w)"
  by (rule plugin_name_ok [of "''ActiveDirectory''"];
    simp add: activedirectory_plugin_def webcontrol_mod_activedirectory_plugin_init_def new_plugin_def)+

section \<open>The plugins keep the worker's contract\<close>

lemma txtfile_plugin_ok:
  assumes "\<And>w. wok w \<Longrightarrow> txt_ok acc w"
  shows "plugin_ok wok (txtfile_plugin acc w0)"
  using txtfile_hook_ok [of wok acc] assms by (simp add: plugin_ok_def txtfile_plugin_hooks)

lemma memcached_plugin_ok:
  assumes "mc_contract lib ok contents"
  shows "plugin_ok (mc_ok ok contents) (memcached_plugin lib)"
  using memcached_hooks_ok [OF assms] memcached_thread_init_ok [OF assms]
  by (auto simp: plugin_ok_def memcached_plugin_hooks)

lemma activedirectory_plugin_guarded:
  assumes "ad_contract lib ok"
  shows "plugin_guarded (ad_ok lib ok) (directory_fault lib) (activedirectory_plugin lib w0)"
  using activedirectory_hook_guarded [OF assms] activedirectory_thread_init_ok [OF assms]
  by (auto simp: plugin_guarded_def activedirectory_plugin_hooks)

interpretation txtfile_alone: plugin_chain "txt_ok acc" "[txtfile_plugin acc w0]" for acc w0
  by unfold_locales (use txtfile_plugin_ok [of "txt_ok acc" acc w0] in simp)

text \<open>
  The helper started with \<open>-p memcached,activedirectory,txtfile\<close>.  Each library is relied
  on for its own contract and for leaving the data of the other plugins alone.
\<close>

definition all_plugins ::
  "('w, 's) mc_lib \<Rightarrow> ('w, 'r, 'e, 'a) ad_lib \<Rightarrow> 'w txt_access \<Rightarrow> 'w \<Rightarrow> 'w plugin list" where
  "all_plugins mc ad acc w0 = [memcached_plugin mc, activedirectory_plugin ad w0, txtfile_plugin acc w0]"

definition libraries_ok ::
  "('w, 's) mc_lib \<Rightarrow> ('w, 'r, 'e, 'a) ad_lib \<Rightarrow> 'w txt_access \<Rightarrow> ('w \<Rightarrow> string \<Rightarrow> string option) \<Rightarrow> bool" where
  "libraries_ok mc ad acc contents \<longleftrightarrow>
     mc_contract mc (\<lambda>w. filter_ok (ad_data ad w) \<and> txt_ok acc w) contents \<and>
     ad_contract ad (\<lambda>w. cache_sane contents w \<and> txt_ok acc w)"

definition helper_ok ::
  "('w, 'r, 'e, 'a) ad_lib \<Rightarrow> 'w txt_access \<Rightarrow> ('w \<Rightarrow> string \<Rightarrow> string option) \<Rightarrow> 'w \<Rightarrow> bool" where
  "helper_ok ad acc contents w \<longleftrightarrow> filter_ok (ad_data ad w) \<and> txt_ok acc w \<and> cache_sane contents w"

lemma helper_ok_views:
  "mc_ok (\<lambda>w. filter_ok (ad_data ad w) \<and> txt_ok acc w) contents = helper_ok ad acc contents"
  "ad_ok ad (\<lambda>w. cache_sane contents w \<and> txt_ok acc w) = helper_ok ad acc contents"
  by (auto simp: fun_eq_iff mc_ok_def ad_ok_def helper_ok_def)

lemma deployed_plugins:
  assumes "libraries_ok mc ad acc contents"
  shows "plugin_ok (helper_ok ad acc contents) (memcached_plugin mc)"
    "plugin_ok (helper_ok ad acc contents) (txtfile_plugin acc w0)"
    "plugin_guarded (helper_ok ad acc contents) (directory_fault ad) (activedirectory_plugin ad w0)"
proof -
  show "plugin_ok (helper_ok ad acc contents) (memcached_plugin mc)"
    using assms unfolding libraries_ok_def helper_ok_views(1) [symmetric]
    by (intro memcached_plugin_ok) simp
  show "plugin_ok (helper_ok ad acc contents) (txtfile_plugin acc w0)"
    by (rule txtfile_plugin_ok) (simp add: helper_ok_def)
  show "plugin_guarded (helper_ok ad acc contents) (directory_fault ad) (activedirectory_plugin ad w0)"
    using assms unfolding libraries_ok_def helper_ok_views(2) [symmetric]
    by (intro activedirectory_plugin_guarded) simp
qed

text \<open>
  The loaded plugins as a chain that faults only with the faults of the directory's values; the
  contracts of the libraries are a part of the invariant, so that it is one interpretation for
  all libraries.
\<close>

interpretation deployed:
  guarded_chain "\<lambda>w. libraries_ok mc ad acc contents \<and> helper_ok ad acc contents w"
    "all_plugins mc ad acc w0" "directory_fault ad"
  for mc ad acc contents w0
proof
  fix p assume "p \<in> set (all_plugins mc ad acc w0)"
  then show "plugin_guarded (\<lambda>w. libraries_ok mc ad acc contents \<and> helper_ok ad acc contents w) (directory_fault ad) p"
  proof (cases "libraries_ok mc ad acc contents")
    case True
    with \<open>p \<in> set (all_plugins mc ad acc w0)\<close> deployed_plugins [OF True] show ?thesis
      by (auto simp: all_plugins_def intro: plugin_ok_guarded)
  qed (simp add: plugin_guarded_def hook_guarded_def hook_ok_def)
qed

lemma all_plugins_guarded:
  assumes "libraries_ok mc ad acc contents"
  shows "guarded_chain (helper_ok ad acc contents) (all_plugins mc ad acc w0) (directory_fault ad)"
  using deployed.guarded_chain_axioms [of mc ad acc contents w0] assms by simp

text \<open>When the directory holds no short value no hook faults.\<close>

lemma all_plugins_chain:
  assumes "libraries_ok mc ad acc contents" "\<And>e. \<not> directory_fault ad e"
  shows "plugin_chain (helper_ok ad acc contents) (all_plugins mc ad acc w0)"
proof
  fix p assume "p \<in> set (all_plugins mc ad acc w0)"
  then have "plugin_guarded (helper_ok ad acc contents) (directory_fault ad) p"
    using guarded_chain.plugins_guarded [OF all_plugins_guarded [OF assms(1)]] by blast
  moreover have "directory_fault ad = (\<lambda>_. False)" using assms(2) by auto
  ultimately show "plugin_ok (helper_ok ad acc contents) p" by (simp add: plugin_guarded_none)
qed

text \<open>The plugins' data are separate parts of the world.\<close>

definition data_separate ::
  "('w, 's) mc_lib \<Rightarrow> ('w, 'r, 'e, 'a) ad_lib \<Rightarrow> 'w txt_access \<Rightarrow> ('w \<Rightarrow> string \<Rightarrow> string option) \<Rightarrow> bool" where
  "data_separate mc ad acc contents \<longleftrightarrow>
     (\<forall>pd w. txt_get acc (txt_put acc pd w) = pd \<and> ad_data ad (txt_put acc pd w) = ad_data ad w
        \<and> contents (txt_put acc pd w) = contents w) \<and>
     (\<forall>s w. txt_get acc (txt_print acc s w) = txt_get acc w \<and> ad_data ad (txt_print acc s w) = ad_data ad w
        \<and> contents (txt_print acc s w) = contents w) \<and>
     (\<forall>c w. ad_data ad (ad_put_data ad c w) = c \<and> txt_get acc (ad_put_data ad c w) = txt_get acc w
        \<and> contents (ad_put_data ad c w) = contents w) \<and>
     (\<forall>v w. txt_get acc (mc_put_servers mc v w) = txt_get acc w \<and> ad_data ad (mc_put_servers mc v w) = ad_data ad w
        \<and> contents (mc_put_servers mc v w) = contents w)"

lemma txtfile_config_hook:
  "pl_config_file_parsed (txtfile_plugin acc w) = Some (webcontrol_txtfile_process_config acc)"
  by (rule plugin_name_ok [of "''txtfile''"])
    (simp_all add: txtfile_plugin_def webcontrol_mod_txtfile_plugin_init_def)

lemma memcached_config_hook:
  "pl_config_file_parsed (memcached_plugin mc) = Some (webcontrol_memcached_processconfig mc)"
  by (rule plugin_name_ok [of "''memcached''"])
    (simp_all add: memcached_plugin_def webcontrol_mod_memcached_plugin_init_def)

lemma activedirectory_config_hook:
  "pl_config_file_parsed (activedirectory_plugin ad w) =
     Some (\<lambda>w. Inr (ad_put_data ad (webcontrol_activedirectory_processconfig (ad_data ad w)) w))"
  by (rule plugin_name_ok [of "''ActiveDirectory''"])
    (simp_all add: activedirectory_plugin_def webcontrol_mod_activedirectory_plugin_init_def)

lemmas config_hooks = txtfile_config_hook memcached_config_hook activedirectory_config_hook

lemma processconfig_filter_ok:
  assumes "ad_filter c = Some fmt" "template_ok fmt"
  shows "filter_ok (webcontrol_activedirectory_processconfig c)"
  using assms by (simp add: filter_ok_def template_ok_def webcontrol_activedirectory_processconfig_def)

text \<open>
  C23: the configuration hooks establish the invariant the request hooks need.  When they
  have run after the configuration was read, with a filter template that uses its argument
  once, usable hosts data and no foreign entries in the cache, the world satisfies the
  invariant of the deployment.  Under that invariant every hook of the memcached plugin and
  of the hosts file plugin returns on a well-formed request, keeps the invariant and leaves
  the request's channel and address alone; the hooks of the directory plugin do the same,
  except that its \<open>handle_request\<close> may fault, and then on a value of the directory that is
  missing or shorter than the four bytes it is compared with; when the directory has no such
  value, that hook does not fault either.
\<close>

theorem start_establishes_invariant:
  assumes "libraries_ok mc ad acc contents" "data_separate mc ad acc contents"
    and "run_config_hooks (all_plugins mc ad acc w0) w1 = Inr w2"
    and "ad_filter (ad_data ad w1) = Some fmt" "template_ok fmt"
    and "chain_ok (txt_get acc w1)" "cache_sane contents w1"
  shows "helper_ok ad acc contents w2
    \<and> plugin_ok (helper_ok ad acc contents) (memcached_plugin mc)
    \<and> plugin_ok (helper_ok ad acc contents) (txtfile_plugin acc w0)
    \<and> plugin_guarded (helper_ok ad acc contents) (directory_fault ad) (activedirectory_plugin ad w0)
    \<and> ((\<nexists>e. directory_fault ad e) \<longrightarrow> plugin_ok (helper_ok ad acc contents) (activedirectory_plugin ad w0))"
proof (intro conjI impI)
  note sep = assms(2) [unfolded data_separate_def]
  obtain wa where a: "webcontrol_memcached_processconfig mc w1 = Inr wa"
    "txt_get acc wa = txt_get acc w1" "ad_data ad wa = ad_data ad w1" "contents wa = contents w1"
    using sep by (cases "mc_section mc (mc_put_servers mc None w1)")
      (simp_all add: webcontrol_memcached_processconfig_def Let_def)
  define wb where "wb = ad_put_data ad (webcontrol_activedirectory_processconfig (ad_data ad w1)) wa"
  have b: "txt_get acc wb = txt_get acc w1" "contents wb = contents w1" "filter_ok (ad_data ad wb)"
    using sep a processconfig_filter_ok [OF assms(4,5)] by (simp_all add: wb_def)
  have "webcontrol_txtfile_process_config acc wb = Inr w2"
    using assms(3) a(1,3) by (auto simp: all_plugins_def config_hooks wb_def c_bind_eq_Inr)
  then obtain out pd where
    "parse_file (txt_v6 acc) (txt_net acc) (txt_files acc wb) (txt_get acc wb) = Inr (out, pd)"
    "w2 = txt_print acc out (txt_put acc pd wb)"
    by (auto simp: webcontrol_txtfile_process_config_def c_bind_eq_Inr)
  with parse_file_chain_ok [OF this(1)] sep b assms(6,7) show "helper_ok ad acc contents w2"
    by (simp add: helper_ok_def txt_ok_def cache_sane_def)
  show "plugin_ok (helper_ok ad acc contents) (activedirectory_plugin ad w0)" if "\<nexists>e. directory_fault ad e"
    using plugin_chain.plugins_ok [OF all_plugins_chain [OF assms(1)]] that by (auto simp: all_plugins_def)
qed (use deployed_plugins [OF assms(1)] in simp_all)

section \<open>A small deployment\<close>

text \<open>A world for the witnesses: the hosts list, a cache that forgets nothing and the directory plugin's configuration.\<close>

record demo =
  d_hosts :: plugin_data
  d_cache :: "string \<Rightarrow> string option"
  d_ad :: ad_config
  d_out :: string

definition demo_mc :: "(demo, unit) mc_lib" where
  "demo_mc = \<lparr>memcached_create = (\<lambda>w. (True, w)), memcached_server_push = (\<lambda>s w. (True, w)),
     memcached_servers_parse = (\<lambda>s. ()), memcached_server_list_append = (\<lambda>s h p. ()),
     memcached_get = (\<lambda>k w. (d_cache w k, w)),
     memcached_set = (\<lambda>k x w. (True, w\<lparr>d_cache := (d_cache w)(k \<mapsto> x)\<rparr>)),
     mc_servers = (\<lambda>w. None), mc_put_servers = (\<lambda>s w. w), mc_section = (\<lambda>w. None)\<rparr>"

definition demo_ad :: "(demo, unit, unit, unit) ad_lib" where
  "demo_ad = \<lparr>getnameinfo = (\<lambda>sa w. (None, w)), ldap_initialize = (\<lambda>uri w. (0, w)),
     ldap_sasl_bind = (\<lambda>dn pw w. ((0, 1), w)), ldap_search_ext = (\<lambda>base f a w. ((0, 2), w)),
     ldap_result = (\<lambda>id w. ((if id = 1 then 0x61 else 0x64, ()), w)),
     ldap_first_entry = Some, ldap_first_attribute = Some, ldap_get_values_len = (\<lambda>e a. Some [''TRUE'']),
     ad_data = d_ad, ad_put_data = (\<lambda>c w. w\<lparr>d_ad := c\<rparr>)\<rparr>"

definition demo_acc :: "demo txt_access" where
  "demo_acc = \<lparr>txt_get = d_hosts, txt_put = (\<lambda>pd w. w\<lparr>d_hosts := pd\<rparr>),
     txt_files = (\<lambda>w _. Some (render hosts_file)), txt_print = (\<lambda>s w. w\<lparr>d_out := d_out w @ s\<rparr>),
     txt_v6 = True, txt_net = two_hosts\<rparr>"

definition demo_world :: demo where
  "demo_world = \<lparr>d_hosts = empty_data, d_cache = Map.empty,
     d_ad = good_config\<lparr>ad_uri := Some ''ldap://10.1.1.10''\<rparr>, d_out = []\<rparr>"

definition demo_core :: "demo core" where
  "demo_core = \<lparr>core_plugins = all_plugins demo_mc demo_ad demo_acc demo_world,
     core_deny_by_default = True, core_have_ipv6 = True\<rparr>"

lemma demo_libraries: "libraries_ok demo_mc demo_ad demo_acc d_cache"
  by (auto simp: libraries_ok_def mc_contract_def ad_contract_def demo_mc_def demo_ad_def demo_acc_def txt_ok_def)

lemma demo_no_fault: "\<not> directory_fault demo_ad e"
  by (simp add: directory_fault_def demo_ad_def)

lemma demo_helper_ok: "helper_ok demo_ad demo_acc d_cache demo_world"
  by (simp add: helper_ok_def demo_world_def demo_ad_def demo_acc_def txt_ok_def chain_ok_def empty_data_def
      cache_sane_def good_config_ok(2) [unfolded filter_ok_def] filter_ok_def)

lemma demo_data_separate: "data_separate demo_mc demo_ad demo_acc d_cache"
  by (simp add: data_separate_def demo_mc_def demo_ad_def demo_acc_def)

theorem start_establishes_invariant_witness:
  "\<exists>w2. run_config_hooks (all_plugins demo_mc demo_ad demo_acc demo_world) demo_world = Inr w2
     \<and> helper_ok demo_ad demo_acc d_cache w2
     \<and> plugin_ok (helper_ok demo_ad demo_acc d_cache) (activedirectory_plugin demo_ad demo_world)"
proof -
  obtain es where "parse_file True two_hosts (\<lambda>_. Some (render hosts_file)) empty_data =
      Inr ([], empty_data\<lparr>entry_chain := rev es\<rparr>)"
    using parse_file_render [OF hosts_file_ok, of "\<lambda>_. Some (render hosts_file)" empty_data] by auto
  then obtain w2 where run:
    "run_config_hooks (all_plugins demo_mc demo_ad demo_acc demo_world) demo_world = Inr w2"
    by (auto simp: all_plugins_def config_hooks webcontrol_memcached_processconfig_def
        webcontrol_txtfile_process_config_def demo_mc_def demo_ad_def demo_acc_def demo_world_def)
  have "ad_filter (ad_data demo_ad demo_world) = Some sample_filter"
    by (simp add: demo_ad_def demo_world_def good_config_ok(1))
  moreover have "template_ok sample_filter"
    using sample_filter_args by (simp add: template_ok_def) (simp add: sample_filter_def TEXT_LIMIT_def)
  moreover have "chain_ok (txt_get demo_acc demo_world)" "cache_sane d_cache demo_world"
    by (simp_all add: demo_acc_def demo_world_def chain_ok_def empty_data_def cache_sane_def)
  ultimately show ?thesis
    using start_establishes_invariant [OF demo_libraries demo_data_separate run] run demo_no_fault by blast
qed

section \<open>From stdin to stdout\<close>

text \<open>A lookup as Squid sends it: the channel, a blank and the address.\<close>

definition ask_line :: "size_t \<times> string \<Rightarrow> string" where
  "ask_line q = show_zu (fst q) @ CHR '' '' # snd q"

definition query_ok :: "size_t \<times> string \<Rightarrow> bool" where
  "query_ok q \<longleftrightarrow> NL \<notin> set (snd q) \<and> NUL \<notin> set (snd q)"

lemma ask_line_plain:
  assumes "query_ok q"
  shows "plain_line (ask_line q)" "until_nul (ask_line q) = ask_line q" "line_channel (ask_line q) = fst q"
proof -
  have "NUL \<notin> set (show_zu n)" for n
    using show_nat_digits [of "unat n"] by (auto simp: show_zu_def list_all_iff is_digit_def less_eq_char_def)
  with assms have nul: "NUL \<notin> set (ask_line q)" by (simp add: ask_line_def query_ok_def)
  then show "until_nul (ask_line q) = ask_line q" by simp
  show "plain_line (ask_line q)"
    using assms nul NL_not_in_show_zu by (simp add: plain_line_def ask_line_def query_ok_def)
  show "line_channel (ask_line q) = fst q"
    using scan_zu_show [of "CHR '' '' # snd q" "[]" "fst q"]
    by (simp add: ask_line_def line_channel_def is_digit_def less_eq_char_def)
qed

lemma conversation_replies:
  assumes "list_all query_ok qs"
    and "list_all2 (\<lambda>t out. squid_reply (line_channel (until_nul t)) out) (map ask_line qs) outs"
  shows "list_all2 (\<lambda>q out. squid_reply (fst q) out
    \<and> (\<exists>l r. out = l @ [NL] \<and> NL \<notin> set l \<and> scan_zu out = Some (fst q, r))) qs outs"
proof -
  have "list_all2 (\<lambda>q out. query_ok q \<and> squid_reply (line_channel (until_nul (ask_line q))) out) qs outs"
    using assms by (auto simp: list_all2_conv_all_nth list_all_length)
  then show ?thesis
    by (rule list_all2_mono) (metis ask_line_plain(2,3) squid_reply_line)
qed

text \<open>
  C3: the conversation with Squid, for the helper started with a single worker
  (\<open>-t 1\<close>).  With all three plugins loaded, libraries that keep their contracts and
  \<open>thread_init\<close> hooks that succeed, whatever lookups Squid sends and however the operating
  system cuts them into reads, the reader does not fault, and the worker either faults on a
  value of the directory that is missing or shorter than four bytes, or prints one line for
  each lookup, in order, each a reply of the protocol that carries the lookup's channel,
  ends at the null pointer of the shutdown, and the plugins' invariant still holds.  (With
  several workers the order of the replies is that of the schedule: C1 and C4.)
\<close>

theorem squid_conversation:
  assumes "libraries_ok mc ad acc contents" "helper_ok ad acc contents w"
    and "core_plugins core = all_plugins mc ad acc w0"
    and "run_thread_init (core_plugins core) w = Inr (True, w1)"
    and "list_all query_ok qs" "concat (map read_data rs) = lines_stream (map ask_line qs) []"
    and "list_all read_fits rs" "ReadBytes [] \<notin> set rs" "length (lines_stream (map ask_line qs) []) \<le> TEXT_LIMIT"
  shows "\<exists>s. stdin_events rs reader_init = Inr s
    \<and> (case worker core env (map Some (jobs s) @ [None]) w of
         Inl e \<Rightarrow> directory_fault ad e
       | Inr (es, w', terminated, js) \<Rightarrow>
           terminated \<and> js = [] \<and> helper_ok ad acc contents w'
           \<and> list_all2 (\<lambda>q out. squid_reply (fst q) out
               \<and> (\<exists>l r. out = l @ [NL] \<and> NL \<notin> set l \<and> scan_zu out = Some (fst q, r))) qs (printed es))"
proof -
  have "list_all plain_line (map ask_line qs)"
    using assms(5) ask_line_plain(1) by (auto simp: list_all_iff)
  from reader_lines_run [OF this _ assms(6-9)] obtain s where
    s: "stdin_events rs reader_init = Inr s" "list_all2 buf_cstr (jobs s) (map ask_line qs)" by auto
  have "guarded_chain (helper_ok ad acc contents) (core_plugins core) (directory_fault ad)"
    using all_plugins_guarded [OF assms(1)] assms(3) by simp
  from guarded_chain.worker_guarded [OF this refl assms(2) s(2) assms(4), of "[]" env]
  show ?thesis
    using s(1) conversation_replies [OF assms(5)]
    by (intro exI [of _ s]) (auto split: sum.split)
qed

lemma demo_thread_init: "run_thread_init (core_plugins demo_core) demo_world = Inr (True, demo_world)"
  by (simp add: demo_core_def all_plugins_def memcached_plugin_hooks activedirectory_plugin_hooks txtfile_plugin_hooks
      webcontrol_memcached_thread_init_def webcontrol_activedirectory_thread_init_def demo_world_def
      webcontrol_activedirectory_ldap_open_def demo_mc_def demo_ad_def LDAP_SUCCESS_def LDAP_RES_BIND_def)

theorem squid_conversation_witness:
  "\<exists>s es w' o1 o2. stdin_events [ReadBytes ''3 10.0'', ReadError 11, ReadBytes (''.0.1'' @ [NL] @ ''4 x'' @ [NL])]
      reader_init = Inr s
    \<and> worker demo_core two_hosts (map Some (jobs s) @ [None]) demo_world = Inr (es, w', True, [])
    \<and> printed es = [o1, o2] \<and> squid_reply 3 o1 \<and> squid_reply 4 o2"
proof -
  let ?rs = "[ReadBytes ''3 10.0'', ReadError 11, ReadBytes (''.0.1'' @ [NL] @ ''4 x'' @ [NL])]"
  let ?qs = "[(3, ''10.0.0.1''), (4, ''x'')] :: (size_t \<times> string) list"
  have c: "core_plugins demo_core = all_plugins demo_mc demo_ad demo_acc demo_world"
    by (simp add: demo_core_def)
  have ask: "map ask_line ?qs = [''3 10.0.0.1'', ''4 x'']"
    by (simp add: ask_line_def show_zu_def show_nat.simps digit_char_def char_of_eq_iff)
  have 1: "list_all query_ok ?qs" by (simp add: query_ok_def)
  have 2: "concat (map read_data ?rs) = lines_stream (map ask_line ?qs) []"
    unfolding ask by (simp add: lines_stream_def)
  have 3: "list_all read_fits ?rs" "ReadBytes [] \<notin> set ?rs" by (simp_all add: STDIN_BUF_CHUNKSIZE_def)
  have 4: "length (lines_stream (map ask_line ?qs) []) \<le> TEXT_LIMIT"
    unfolding ask by (simp add: lines_stream_def TEXT_LIMIT_def)
  from squid_conversation [OF demo_libraries demo_helper_ok c demo_thread_init 1 2 3 4, of two_hosts]
  obtain s where s: "stdin_events ?rs reader_init = Inr s"
    and run: "case worker demo_core two_hosts (map Some (jobs s) @ [None]) demo_world of
         Inl e \<Rightarrow> directory_fault demo_ad e
       | Inr (es, w', terminated, js) \<Rightarrow>
           terminated \<and> js = [] \<and> helper_ok demo_ad demo_acc d_cache w'
           \<and> list_all2 (\<lambda>q out. squid_reply (fst q) out
               \<and> (\<exists>l r. out = l @ [NL] \<and> NL \<notin> set l \<and> scan_zu out = Some (fst q, r))) ?qs (printed es)" by blast
  from run obtain es w' where "worker demo_core two_hosts (map Some (jobs s) @ [None]) demo_world = Inr (es, w', True, [])"
    "\<exists>o1 o2. printed es = [o1, o2] \<and> squid_reply 3 o1 \<and> squid_reply 4 o2"
    by (cases "worker demo_core two_hosts (map Some (jobs s) @ [None]) demo_world")
      (auto simp: demo_no_fault list_all2_Cons1)
  with s show ?thesis by blast
qed

end
