(* ===== verification/Cache_Front.thy ===== *)
theory Cache_Front
  imports Deployment
begin

text \<open>
  The cache in front of another backend, the use the README recommends it for
  (\<open>-p memcached,txtfile\<close>): a backend that answers by address alone, the invariant that ties
  the entries of the cache to its answers, and what a reload of the backend's data does to it.
\<close>

section \<open>Backends that answer by address\<close>

text \<open>
  What the cache relies on: the backend answers every well-formed request, and the answer is
  determined by the binary address, hence by the address text the key is made of.
\<close>

locale address_backend =
  fixes ask :: "request \<Rightarrow> 'd \<Rightarrow> handler_status c_result" and good :: "'d \<Rightarrow> bool"
  assumes ask_total: "good d \<Longrightarrow> request_wf req a \<Longrightarrow> \<exists>st. ask req d = Inr st"
    and ask_address: "good d \<Longrightarrow> sockaddr_of v6 env a (ip_sockaddr (ip_addr r))
      \<Longrightarrow> sockaddr_of v6 env a (ip_sockaddr (ip_addr r')) \<Longrightarrow> ask r d = ask r' d"

text \<open>A plugin whose handler is such a lookup on the data \<open>get w\<close>, without post-request hook.\<close>

definition asks :: "(request \<Rightarrow> 'd \<Rightarrow> handler_status c_result) \<Rightarrow> ('w \<Rightarrow> 'd) \<Rightarrow> 'w plugin \<Rightarrow> bool" where
  "asks ask get p \<longleftrightarrow>
     pl_handle_request p = Some (\<lambda>r w. c_bind (ask r (get w)) (\<lambda>st. Inr (st, r, w))) \<and>
     pl_post_handle_request p = None"

text \<open>Every entry of the cache is the decision the backend would give.\<close>

definition cache_agrees :: "bool \<Rightarrow> net_env \<Rightarrow> (request \<Rightarrow> 'd \<Rightarrow> handler_status c_result) \<Rightarrow>
    ('w \<Rightarrow> string \<Rightarrow> string option) \<Rightarrow> 'd \<Rightarrow> 'w \<Rightarrow> bool" where
  "cache_agrees v6 env ask contents d w \<longleftrightarrow>
     (\<forall>req a v. request_wf req a \<longrightarrow> sockaddr_of v6 env a (ip_sockaddr (ip_addr req))
        \<longrightarrow> contents w (cache_key a) = Some v \<longrightarrow> ask req d = Inr (cached_status v))"

text \<open>The server keeps the backend's data out of its reach.\<close>

definition mc_separate ::
  "('w, 's) mc_lib \<Rightarrow> ('w \<Rightarrow> 'd) \<Rightarrow> ('w \<Rightarrow> string \<Rightarrow> string option) \<Rightarrow> bool" where
  "mc_separate lib get contents \<longleftrightarrow> (\<forall>d. mc_contract lib (\<lambda>w. get w = d) contents)"

definition cached_ok :: "bool \<Rightarrow> net_env \<Rightarrow> (request \<Rightarrow> 'd \<Rightarrow> handler_status c_result) \<Rightarrow> ('d \<Rightarrow> bool) \<Rightarrow>
    ('w \<Rightarrow> 'd) \<Rightarrow> ('w \<Rightarrow> string \<Rightarrow> string option) \<Rightarrow> 'w \<Rightarrow> bool" where
  "cached_ok v6 env ask good get contents w \<longleftrightarrow>
     good (get w) \<and> cache_sane contents w \<and> cache_agrees v6 env ask contents (get w) w"

lemma cached_okD:
  assumes "cached_ok v6 env ask good get contents w"
  shows "good (get w)" "mc_ok (\<lambda>x. get x = get w) contents w" "cache_agrees v6 env ask contents (get w) w"
  using assms by (simp_all add: cached_ok_def mc_ok_def)

text \<open>A server that is up and drops nothing.\<close>

definition mc_retains :: "('w, 's) mc_lib \<Rightarrow> ('w \<Rightarrow> string \<Rightarrow> string option) \<Rightarrow> bool" where
  "mc_retains lib contents \<longleftrightarrow>
     (\<forall>k w. memcached_get lib k w = (contents w k, w)) \<and>
     (\<forall>k x w. contents (snd (memcached_set lib k x w)) = (contents w)(k \<mapsto> x))"

lemma answer_allow:
  "fst (answer d r) = send_response (channel r) 0 None \<longleftrightarrow> response_result r = status_code HANDLER_ALLOW"
  by (auto simp: answer_def send_response_def)

lemma cache_agrees_mono:
  assumes "cache_agrees v6 env ask contents d w"
    and "\<And>j. contents w' j = None \<or> contents w' j = contents w j"
  shows "cache_agrees v6 env ask contents d w'"
  using assms unfolding cache_agrees_def by (metis option.distinct(1))

context address_backend
begin

lemma cache_agrees_store:
  assumes "cache_agrees v6 env ask contents d w" "good d"
    and "sockaddr_of v6 env a (ip_sockaddr (ip_addr req))" "ask req d = Inr (cached_status x)"
    and "\<And>j. contents w' j = None \<or> contents w' j = contents w j \<or> j = cache_key a \<and> contents w' j = Some x"
  shows "cache_agrees v6 env ask contents d w'"
  unfolding cache_agrees_def
proof (intro allI impI)
  fix r b v assume r: "request_wf r b" "sockaddr_of v6 env b (ip_sockaddr (ip_addr r))"
    and v: "contents w' (cache_key b) = Some v"
  from assms(5) [of "cache_key b"] v consider "contents w (cache_key b) = Some v" | "b = a" "v = x"
    by (auto simp: cache_key_def)
  then show "ask r d = Inr (cached_status v)"
  proof cases
    case 1
    with assms(1) r show ?thesis unfolding cache_agrees_def by blast
  next
    case 2
    with ask_address [OF assms(2) _ assms(3), of r] r(2) assms(4) show ?thesis by simp
  qed
qed

text \<open>Asking the cache and then the backend: a hit, or the backend's own answer.\<close>

lemma cached_handlers:
  assumes sep: "mc_separate lib get contents" and p: "asks ask get p"
    and ok: "cached_ok v6 env ask good get contents w"
    and req: "request_wf req a" "sockaddr_of v6 env a (ip_sockaddr (ip_addr req))"
  obtains v w' where "memcached_get lib (cache_key a) w = (Some v, w')"
      "ask req (get w) = Inr (cached_status v)" "cached_ok v6 env ask good get contents w'" "get w' = get w"
      "run_handlers [memcached_plugin lib, p] req w =
         Inr (req\<lparr>skip_post_handle_request := True, response_result := status_code (cached_status v)\<rparr>, w')"
  | st w' where "ask req (get w) = Inr st" "cached_ok v6 env ask good get contents w'" "get w' = get w"
      "run_handlers [memcached_plugin lib, p] req w = Inr (req\<lparr>response_result := status_code st\<rparr>, w')"
proof -
  note contract = sep [unfolded mc_separate_def, THEN spec, of "get w"]
  note inv = cached_okD [OF ok]
  have frame: "cached_ok v6 env ask good get contents w' \<and> get w' = get w"
    if "memcached_get lib (cache_key a) w = (x, w')" for x w'
  proof -
    have m: "mc_ok (\<lambda>x. get x = get w) contents w'" by (rule mc_get_sane [OF contract that inv(2)])
    moreover have "cache_agrees v6 env ask contents (get w) w'"
      by (rule cache_agrees_mono [OF inv(3)]) (rule mc_getD(3) [OF contract that refl])
    ultimately show ?thesis using inv(1) by (simp add: cached_ok_def mc_ok_def)
  qed
  note hooks = p [unfolded asks_def]
  from contract inv(2) req(1) show ?thesis
  proof (cases rule: handle_request_cases)
    case (1 w')
    obtain st where st: "ask req (get w) = Inr st" using ask_total [OF inv(1) req(1)] ..
    have "ask (req\<lparr>response_result := 0\<rparr>) (get w) = ask req (get w)"
      by (rule ask_address [OF inv(1)]) (use req(2) in auto)
    with 1 st frame [OF 1(3)] hooks show ?thesis
      by (intro that(2) [of st w']) (auto simp: memcached_plugin_hooks Let_def)
  next
    case (2 v w')
    have "ask req (get w) = Inr (cached_status v)"
      using inv(3) req 2(1) unfolding cache_agrees_def by blast
    moreover have "cached_status v \<noteq> HANDLER_GO_ON" by (simp add: cached_status_def)
    ultimately show ?thesis
      using 2 frame [OF 2(4)] hooks by (intro that(1) [of v w']) (auto simp: memcached_plugin_hooks Let_def)
  qed
qed

text \<open>The post-request hook stores the backend's decision.\<close>

lemma cached_post:
  assumes sep: "mc_separate lib get contents" and p: "asks ask get p"
    and ok: "cached_ok v6 env ask good get contents w"
    and req: "request_wf req a" "sockaddr_of v6 env a (ip_sockaddr (ip_addr req))"
    and st: "ask req (get w) = Inr st" "st = HANDLER_ALLOW \<or> st = HANDLER_DENY"
  defines "r \<equiv> req\<lparr>response_result := status_code st\<rparr>"
  shows "\<exists>w'. run_post_handlers [memcached_plugin lib, p] r w = Inr (r, w')
    \<and> w' = snd (memcached_set lib (cache_key a) (cache_value r) w)
    \<and> cached_ok v6 env ask good get contents w' \<and> get w' = get w"
proof -
  note contract = sep [unfolded mc_separate_def, THEN spec, of "get w"]
  note inv = cached_okD [OF ok]
  obtain b w' where s: "memcached_set lib (cache_key a) (cache_value r) w = (b, w')" by fastforce
  have wf: "request_wf r a" using req(1) request_wf_cong [of r req a] by (simp add: r_def)
  have m: "mc_ok (\<lambda>x. get x = get w) contents w'"
    by (rule mc_set_sane [OF contract s inv(2) cache_value_cases])
  have step: "contents w' j = None \<or> contents w' j = contents w j
      \<or> j = cache_key a \<and> contents w' j = Some (cache_value r)" for j
    using mc_setD(2) [OF contract s refl] mc_setD(3) [OF contract s refl, of j] by (cases "j = cache_key a") auto
  have "cached_status (cache_value r) = st"
    using st(2) by (auto simp: r_def cache_value_def cached_status_def)
  with st(1) have "ask req (get w) = Inr (cached_status (cache_value r))" by simp
  from cache_agrees_store [OF inv(3,1) req(2) this step]
  have "cache_agrees v6 env ask contents (get w) w'" .
  with m inv(1) have "cached_ok v6 env ask good get contents w'" "get w' = get w"
    by (simp_all add: cached_ok_def mc_ok_def)
  with s p post_handle_request_run [OF wf, of lib w] show ?thesis
    by (simp add: memcached_plugin_hooks asks_def)
qed

lemma plain_handlers:
  assumes "asks ask get p" "ask req (get w) = Inr st"
  shows "run_handlers [p] req w = Inr (req\<lparr>response_result := status_code st\<rparr>, w)"
  using assms by (simp add: asks_def Let_def)

lemma plain_answer:
  assumes "asks ask get p" "ask req (get w) = Inr st"
  shows "c_bind (run_handlers [p] req w) (respond (core\<lparr>core_plugins := [p]\<rparr>)) =
    Inr ([Print (fst (answer (core_deny_by_default core) (req\<lparr>response_result := status_code st\<rparr>)))], w)"
  unfolding plain_handlers [OF assms] using assms(1) by (simp add: respond_def asks_def)

text \<open>The whole treatment of one request: the answer is the backend's, and an ALLOW ends up in the cache.\<close>

lemma cached_answer:
  assumes sep: "mc_separate lib get contents" and p: "asks ask get p"
    and core: "core_plugins core = [memcached_plugin lib, p]"
    and ok: "cached_ok v6 env ask good get contents w"
    and req: "request_wf req a" "sockaddr_of v6 env a (ip_sockaddr (ip_addr req))" "\<not> skip_post_handle_request req"
  shows "\<exists>st w'. ask req (get w) = Inr st
    \<and> c_bind (run_handlers (core_plugins core) req w) (respond core) =
        Inr ([Print (fst (answer (core_deny_by_default core) (req\<lparr>response_result := status_code st\<rparr>)))], w')
    \<and> cached_ok v6 env ask good get contents w' \<and> get w' = get w
    \<and> (mc_retains lib contents \<longrightarrow> st = HANDLER_ALLOW \<longrightarrow> contents w' (cache_key a) = Some ''TRUE'')"
  using sep p ok req(1,2)
proof (cases rule: cached_handlers)
  case (1 v w')
  have "fst (answer d (req\<lparr>skip_post_handle_request := True, response_result := x\<rparr>)) =
      fst (answer d (req\<lparr>response_result := x\<rparr>))" for d x
    by (simp add: answer_def)
  then have "c_bind (run_handlers (core_plugins core) req w) (respond core) =
      Inr ([Print (fst (answer (core_deny_by_default core)
        (req\<lparr>response_result := status_code (cached_status v)\<rparr>)))], w')"
    using core 1(5) by (simp add: respond_def wants_post_def del: run_handlers.simps)
  moreover have "mc_retains lib contents \<longrightarrow> cached_status v = HANDLER_ALLOW \<longrightarrow>
      contents w' (cache_key a) = Some ''TRUE''"
    using 1(1) by (auto simp: mc_retains_def cached_status_def split: if_splits)
  ultimately show ?thesis using 1(2-4) by blast
next
  case (2 st w')
  let ?r = "req\<lparr>response_result := status_code st\<rparr>"
  have run: "c_bind (run_handlers (core_plugins core) req w) (respond core) = respond core (?r, w')"
    using core 2(4) by (simp del: run_handlers.simps)
  show ?thesis
  proof (cases "st = HANDLER_ALLOW \<or> st = HANDLER_DENY")
    case dec: True
    have "ask req (get w') = Inr st" using 2(1,3) by simp
    from cached_post [OF sep p 2(2) req(1,2) this dec] obtain w2 where
      post: "run_post_handlers [memcached_plugin lib, p] ?r w' = Inr (?r, w2)"
        "cached_ok v6 env ask good get contents w2" "get w2 = get w'"
        "w2 = snd (memcached_set lib (cache_key a) (cache_value ?r) w')" by blast
    have "wants_post ?r" using dec req(3) by (auto simp: wants_post_def)
    then have "respond core (?r, w') = Inr ([Print (fst (answer (core_deny_by_default core) ?r))], w2)"
      using core post(1) by (simp add: respond_def del: run_post_handlers.simps)
    moreover have "mc_retains lib contents \<longrightarrow> st = HANDLER_ALLOW \<longrightarrow> contents w2 (cache_key a) = Some ''TRUE''"
      using post(4) by (simp add: mc_retains_def cache_value_def)
    ultimately show ?thesis using run 2(1,3) post(2,3) by auto
  next
    case False
    then have "\<not> wants_post ?r" by (cases st) (auto simp: wants_post_def)
    with run 2 False show ?thesis by (auto simp: respond_def)
  qed
qed

text \<open>One job: the cache changes neither the reply nor the backend's data.\<close>

lemma cached_request:
  fixes core :: "'w core"
  assumes sep: "mc_separate lib get contents" and p: "asks ask get p"
    and core: "core_plugins core = [memcached_plugin lib, p]"
    and ok: "cached_ok (core_have_ipv6 core) env ask good get contents w" and line: "buf_cstr line t"
  shows "\<exists>es w'. worker_request core env line w = Inr (es, w')
    \<and> (\<forall>x. get x = get w \<longrightarrow> worker_request (core\<lparr>core_plugins := [p]\<rparr>) env line x = Inr (es, x))
    \<and> cached_ok (core_have_ipv6 core) env ask good get contents w' \<and> get w' = get w
    \<and> (mc_retains lib contents \<longrightarrow> printed es = [send_response (line_channel (until_nul t)) 0 None] \<longrightarrow>
         contents w' (cache_key (line_address (core_have_ipv6 core) (until_nul t))) = Some ''TRUE'')"
proof -
  let ?v6 = "core_have_ipv6 core" and ?s = "until_nul t"
  let ?a = "line_address ?v6 ?s" and ?plain = "core\<lparr>core_plugins := [p]\<rparr>"
  note run = worker_request_run [where 'w = 'w, OF line, of ?v6 env]
  show ?thesis
  proof (cases "valid_address ?v6 env ?a")
    case False
    with run obtain es where "worker_request core env line w = Inr (es, w)"
      "worker_request ?plain env line x = Inr (es, x)"
      "printed es = [send_response (line_channel ?s) (-1) (Some ''Valid IP address expected'')]" for x by auto
    moreover have "send_response n (-1) (Some m) \<noteq> send_response n 0 None" for n m
      by (simp add: send_response_def)
    ultimately show ?thesis using ok by auto
  next
    case True
    with run obtain req where req: "parsed_request ?v6 env ?s req"
      and r: "worker_request core env line w = c_bind (run_handlers (core_plugins core) req w) (respond core)"
        "worker_request ?plain env line x = c_bind (run_handlers [p] req x) (respond ?plain)" for x
      by auto
    from req have wf: "request_wf req ?a" "sockaddr_of ?v6 env ?a (ip_sockaddr (ip_addr req))"
      "\<not> skip_post_handle_request req" "channel req = line_channel ?s"
      by (simp_all add: parsed_request_def)
    from cached_answer [OF sep p core ok wf(1-3)] obtain st w' where
      st: "ask req (get w) = Inr st" "cached_ok ?v6 env ask good get contents w'" "get w' = get w"
        "mc_retains lib contents \<longrightarrow> st = HANDLER_ALLOW \<longrightarrow> contents w' (cache_key ?a) = Some ''TRUE''"
      and out: "worker_request core env line w = Inr ([Print (fst (answer (core_deny_by_default core)
        (req\<lparr>response_result := status_code st\<rparr>)))], w')"
      unfolding r(1) by blast
    have "fst (answer d (req\<lparr>response_result := status_code st\<rparr>)) = send_response (line_channel ?s) 0 None
        \<longleftrightarrow> st = HANDLER_ALLOW" for d
      using answer_allow [of d "req\<lparr>response_result := status_code st\<rparr>"] wf(4)
      by (simp del: status_code.simps)
    with st out plain_answer [OF p] show ?thesis unfolding r(2) by auto
  qed
qed

lemma cached_loop:
  assumes sep: "mc_separate lib get contents" and p: "asks ask get p"
    and core: "core_plugins core = [memcached_plugin lib, p]"
  shows "list_all2 buf_cstr bs ts \<Longrightarrow> cached_ok (core_have_ipv6 core) env ask good get contents w \<Longrightarrow>
    \<exists>es w'. worker_loop core env (map Some bs @ [None]) w = Inr (es, w', True, [])
    \<and> (\<forall>x. get x = get w \<longrightarrow>
         worker_loop (core\<lparr>core_plugins := [p]\<rparr>) env (map Some bs @ [None]) x = Inr (es, x, True, []))
    \<and> cached_ok (core_have_ipv6 core) env ask good get contents w' \<and> get w' = get w"
proof (induction bs ts arbitrary: w rule: list_all2_induct)
  case (Cons b bs t ts)
  from cached_request [OF sep p core Cons.prems Cons.hyps(1)] obtain es w1 where
    1: "worker_request core env b w = Inr (es, w1)" "get w1 = get w"
      "cached_ok (core_have_ipv6 core) env ask good get contents w1"
      "\<And>x. get x = get w \<Longrightarrow> worker_request (core\<lparr>core_plugins := [p]\<rparr>) env b x = Inr (es, x)" by blast
  from Cons.IH [OF 1(3)] obtain es' w' where
    2: "worker_loop core env (map Some bs @ [None]) w1 = Inr (es', w', True, [])"
      "\<And>x. get x = get w1 \<Longrightarrow>
        worker_loop (core\<lparr>core_plugins := [p]\<rparr>) env (map Some bs @ [None]) x = Inr (es', x, True, [])"
      "cached_ok (core_have_ipv6 core) env ask good get contents w'" "get w' = get w1" by blast
  from 1 2 show ?case by (intro exI [of _ "es @ es'"] exI [of _ w']) simp
qed auto

end

section \<open>The hosts file as the backend\<close>

lemma compare_same_address:
  assumes "sockaddr_of v6 env a (ip_sockaddr x)" "sockaddr_of v6 env a (ip_sockaddr y)"
  shows "compare_addresses x b = compare_addresses y b"
  using assms by (auto simp: compare_addresses_def sockaddr_of_def Let_def split: if_splits sa_family.split)

lemma lookup_same_address:
  assumes "sockaddr_of v6 env a (ip_sockaddr (ip_addr r))" "sockaddr_of v6 env a (ip_sockaddr (ip_addr r'))"
  shows "lookup_entry r es = lookup_entry r' es"
proof (induction es)
  case (Cons e es)
  then show ?case by (simp add: compare_same_address [OF assms, of "he_address e"] cong: if_cong)
qed simp

interpretation hosts_backend: address_backend webcontrol_txtfile_handle_request chain_ok
proof
  fix d :: plugin_data and req a
  assume "chain_ok d" "request_wf req a"
  then show "\<exists>st. webcontrol_txtfile_handle_request req d = Inr st"
    using lookup_total [OF request_sockaddr_ok] by (simp add: webcontrol_txtfile_handle_request_def chain_ok_def)
next
  fix d :: plugin_data and v6 env a and r r' :: request
  assume "sockaddr_of v6 env a (ip_sockaddr (ip_addr r))" "sockaddr_of v6 env a (ip_sockaddr (ip_addr r'))"
  then show "webcontrol_txtfile_handle_request r d = webcontrol_txtfile_handle_request r' d"
    using lookup_same_address [of v6 env a r r'] by (simp add: webcontrol_txtfile_handle_request_def)
qed

lemma txtfile_asks: "asks webcontrol_txtfile_handle_request (txt_get acc) (txtfile_plugin acc w0)"
  by (simp add: asks_def txtfile_plugin_hooks)

definition hosts_cached ::
  "bool \<Rightarrow> net_env \<Rightarrow> 'w txt_access \<Rightarrow> ('w \<Rightarrow> string \<Rightarrow> string option) \<Rightarrow> 'w \<Rightarrow> bool" where
  "hosts_cached v6 env acc contents w \<longleftrightarrow>
     cached_ok v6 env webcontrol_txtfile_handle_request chain_ok (txt_get acc) contents w"

lemma cold_cache:
  assumes "chain_ok (txt_get acc w)" "\<And>a. contents w (cache_key a) = None"
  shows "hosts_cached v6 env acc contents w"
  using assms by (simp add: hosts_cached_def cached_ok_def cache_sane_def cache_agrees_def)

text \<open>
  C6: the cache is transparent.  With memcached in front of the hosts file, a memcached
  server that may drop entries and refuse to store at any moment, and a cache that starts
  empty or otherwise agrees with the hosts list, the helper prints for every list of jobs
  exactly what it would print with the hosts file alone; afterwards every entry of the
  cache is still the decision the hosts list gives, and the list is unchanged.
\<close>

theorem cache_is_transparent:
  assumes "mc_separate mc (txt_get acc) contents"
    and "core_plugins core = [memcached_plugin mc, txtfile_plugin acc w0]"
    and "hosts_cached (core_have_ipv6 core) env acc contents w" "list_all2 buf_cstr bs ts"
  shows "\<exists>es w'. worker_loop core env (map Some bs @ [None]) w = Inr (es, w', True, [])
    \<and> worker_loop (core\<lparr>core_plugins := [txtfile_plugin acc w0]\<rparr>) env (map Some bs @ [None]) w = Inr (es, w, True, [])
    \<and> hosts_cached (core_have_ipv6 core) env acc contents w' \<and> txt_get acc w' = txt_get acc w"
  using hosts_backend.cached_loop [OF assms(1) txtfile_asks assms(2,4) assms(3) [unfolded hosts_cached_def]]
  unfolding hosts_cached_def by blast

definition cached_core :: "demo core" where
  "cached_core = \<lparr>core_plugins = [memcached_plugin demo_mc, txtfile_plugin demo_acc demo_world],
     core_deny_by_default = True, core_have_ipv6 = True\<rparr>"

lemma demo_separate: "mc_separate demo_mc (txt_get demo_acc) d_cache"
  by (auto simp: mc_separate_def mc_contract_def demo_mc_def demo_acc_def)

lemma demo_cold: "hosts_cached True env demo_acc d_cache demo_world"
  by (rule cold_cache) (simp_all add: demo_acc_def demo_world_def chain_ok_def empty_data_def)

theorem cache_is_transparent_witness:
  "\<exists>b es w'. buf_cstr b ''7 10.0.0.1''
     \<and> worker_loop cached_core two_hosts [Some b, Some b, None] demo_world = Inr (es, w', True, [])
     \<and> worker_loop (cached_core\<lparr>core_plugins := [txtfile_plugin demo_acc demo_world]\<rparr>) two_hosts
         [Some b, Some b, None] demo_world = Inr (es, demo_world, True, [])"
proof -
  obtain b where b: "buf_cstr b ''7 10.0.0.1''" by (rule line_buffer)
  have c: "core_plugins cached_core = [memcached_plugin demo_mc, txtfile_plugin demo_acc demo_world]"
    by (simp add: cached_core_def)
  have h: "hosts_cached (core_have_ipv6 cached_core) two_hosts demo_acc d_cache demo_world"
    by (simp add: cached_core_def demo_cold)
  have "list_all2 buf_cstr [b, b] [''7 10.0.0.1'', ''7 10.0.0.1'']" using b by simp
  from cache_is_transparent [OF demo_separate c h this] b show ?thesis by auto
qed

lemma allowed_valid:
  assumes "buf_cstr line t" "worker_request core env line w = Inr (es, w')"
    and "printed es = [send_response n 0 None]" "line_channel (until_nul t) = n"
  shows "valid_address (core_have_ipv6 core) env (line_address (core_have_ipv6 core) (until_nul t))"
proof (rule ccontr)
  assume "\<not> ?thesis"
  from worker_request_invalid [OF assms(1) this, of w] assms(2-4) show False
    by (auto simp: send_response_def)
qed

lemma cache_allows:
  assumes "request_wf req a" "memcached_get mc (cache_key a) w = (Some ''TRUE'', w)"
    and "core_plugins core = memcached_plugin mc # ps"
  shows "c_bind (run_handlers (core_plugins core) req w) (respond core) =
    Inr ([Print (send_response (channel req) 0 None)], w)"
proof -
  have "str4_cmp (map Some ''TRUE'') CHR ''T'' CHR ''R'' CHR ''U'' CHR ''E'' = Inr True"
    using str4_cmp_eq [of "CHR ''T''" "CHR ''R''" "CHR ''U''" "CHR ''E''" "[]"] by simp
  then show ?thesis
    using assms handle_request_run [OF assms(1), of mc w]
    by (simp add: memcached_plugin_hooks respond_def wants_post_def answer_def Let_def)
qed

lemma ask_line_address: "line_address v6 (ask_line (n, a)) = scan_token (if v6 then 45 else 15) (CHR '' '' # a)"
  using scan_zu_show [of "CHR '' '' # a" "[]" n]
  by (simp add: ask_line_def line_address_def is_digit_def less_eq_char_def)

text \<open>
  C26: a revoked host stays allowed.  Entries are stored without an expiry time and
  reloading the hosts file does not touch the cache: once a request for an address has been
  answered OK, then whatever the hosts list is replaced by (one that denies the address, an
  empty one), the next request for the address is answered OK again, as long as the server
  keeps the entry.
\<close>

theorem reload_keeps_cached_decision:
  assumes "mc_separate mc (txt_get acc) contents" "mc_retains mc contents"
    and "core_plugins core = [memcached_plugin mc, txtfile_plugin acc w0]"
    and "hosts_cached (core_have_ipv6 core) env acc contents w"
    and "\<And>pd x. contents (txt_put acc pd x) = contents x"
    and "buf_cstr line (ask_line (n, a))" "buf_cstr line' (ask_line (m, a))" "query_ok (n, a)"
    and "worker_request core env line w = Inr (es, w1)" "printed es = [send_response n 0 None]"
  shows "worker_request core env line' (txt_put acc pd w1) =
    Inr ([Print (send_response m 0 None)], txt_put acc pd w1)"
proof -
  let ?v6 = "core_have_ipv6 core" and ?x = "txt_put acc pd w1"
  let ?a = "line_address ?v6 (ask_line (n, a))"
  have n: "until_nul (ask_line (n, a)) = ask_line (n, a)" "line_channel (ask_line (n, a)) = n"
    using ask_line_plain(2,3) [OF assms(8)] by (simp_all only: fst_conv)
  have m: "until_nul (ask_line (m, a)) = ask_line (m, a)" "line_channel (ask_line (m, a)) = m"
    using ask_line_plain(2,3) [of "(m, a)"] assms(8) by (simp_all only: fst_conv snd_conv query_ok_def simp_thms)
  have same: "line_address ?v6 (ask_line (m, a)) = ?a" by (simp only: ask_line_address)
  from hosts_backend.cached_request [OF assms(1) txtfile_asks assms(3) assms(4) [unfolded hosts_cached_def] assms(6)]
  have "contents w1 (cache_key ?a) = Some ''TRUE''"
    unfolding n assms(9) using assms(2,10) by auto
  then have get: "memcached_get mc (cache_key ?a) ?x = (Some ''TRUE'', ?x)"
    using assms(2,5) by (simp add: mc_retains_def)
  have "valid_address ?v6 env (line_address ?v6 (ask_line (m, a)))"
    unfolding same by (rule allowed_valid [OF assms(6,9,10), unfolded n(1), OF n(2)])
  from worker_request_valid [OF assms(7), unfolded m(1), OF this] obtain req where
    req: "parsed_request ?v6 env (ask_line (m, a)) req"
      "worker_request core env line' ?x = c_bind (run_handlers (core_plugins core) req ?x) (respond core)"
    by metis
  then have "request_wf req ?a" "channel req = m"
    unfolding parsed_request_def same m(2) by simp_all
  from cache_allows [OF this(1) get assms(3)] this(2) req(2) show ?thesis by simp
qed

definition allow_hosts :: plugin_data where
  "allow_hosts = empty_data\<lparr>entry_chain := [\<lparr>he_address = ip_addr request_1, he_flag = HANDLER_ALLOW\<rparr>]\<rparr>"

lemma first_answer:
  assumes "buf_cstr b ''7 10.0.0.1''"
  shows "worker_request (cached_core\<lparr>core_plugins := [txtfile_plugin demo_acc demo_world]\<rparr>) two_hosts b
      (demo_world\<lparr>d_hosts := allow_hosts\<rparr>) =
    Inr ([Print (send_response 7 0 None)], demo_world\<lparr>d_hosts := allow_hosts\<rparr>)" (is "worker_request ?core _ _ ?w = _")
proof -
  have a: "line_address True ''7 10.0.0.1'' = ''10.0.0.1''" "line_channel ''7 10.0.0.1'' = 7"
    by (simp_all add: line_address_def line_channel_def scan_zu_def scan_token_def is_space_def is_digit_def
        less_eq_char_def Let_def strtoul_def digits_val_def digit_val_def)
  have "valid_address (core_have_ipv6 ?core) two_hosts (line_address (core_have_ipv6 ?core) (until_nul ''7 10.0.0.1''))"
    using a by (simp add: cached_core_def valid_address_def two_hosts_def)
  from worker_request_valid [OF assms this] obtain req where
    req: "parsed_request True two_hosts ''7 10.0.0.1'' req"
      "worker_request ?core two_hosts b ?w = c_bind (run_handlers (core_plugins ?core) req ?w) (respond ?core)"
    by (auto simp: cached_core_def)
  then have "webcontrol_txtfile_handle_request req (txt_get demo_acc ?w) = Inr HANDLER_ALLOW"
    using a by (auto simp: parsed_request_def sockaddr_of_def two_hosts_def demo_acc_def allow_hosts_def request_1_def
        webcontrol_txtfile_handle_request_def compare_addresses_def init_value_def)
  moreover have "channel req = 7" using req(1) a(2) by (simp add: parsed_request_def)
  ultimately show ?thesis
    using req(2) by (simp add: txtfile_plugin_hooks respond_def answer_def Let_def)
qed

theorem reload_keeps_cached_decision_witness:
  "\<exists>b w1. buf_cstr b ''7 10.0.0.1''
     \<and> worker_request cached_core two_hosts b (demo_world\<lparr>d_hosts := allow_hosts\<rparr>)
         = Inr ([Print (send_response 7 0 None)], w1)
     \<and> worker_request cached_core two_hosts b (w1\<lparr>d_hosts := empty_data\<rparr>)
         = Inr ([Print (send_response 7 0 None)], w1\<lparr>d_hosts := empty_data\<rparr>)"
proof -
  let ?w = "demo_world\<lparr>d_hosts := allow_hosts\<rparr>"
  obtain b where b: "buf_cstr b ''7 10.0.0.1''" by (rule line_buffer)
  have line: "ask_line (7, ''10.0.0.1'') = ''7 10.0.0.1''"
    by (simp add: ask_line_def show_zu_def show_nat.simps digit_char_def char_of_eq_iff)
  have c: "core_plugins cached_core = [memcached_plugin demo_mc, txtfile_plugin demo_acc demo_world]"
    by (simp add: cached_core_def)
  have "chain_ok (txt_get demo_acc ?w)"
    by (simp add: chain_ok_def demo_acc_def allow_hosts_def request_1_def sockaddr_ok_def)
  then have h: "hosts_cached (core_have_ipv6 cached_core) two_hosts demo_acc d_cache ?w"
    by (rule cold_cache) (simp add: demo_world_def)
  have r: "mc_retains demo_mc d_cache" by (simp add: mc_retains_def demo_mc_def)
  have p: "d_cache (txt_put demo_acc pd x) = d_cache x" for pd x by (simp add: demo_acc_def)
  have q: "query_ok (7, ''10.0.0.1'')" by (simp add: query_ok_def)
  obtain w1 where w1: "worker_request cached_core two_hosts b ?w = Inr ([Print (send_response 7 0 None)], w1)"
    using hosts_backend.cached_request [OF demo_separate txtfile_asks c h [unfolded hosts_cached_def] b]
      first_answer [OF b] by (auto simp: demo_acc_def)
  have "worker_request cached_core two_hosts b (txt_put demo_acc empty_data w1) =
      Inr ([Print (send_response 7 0 None)], txt_put demo_acc empty_data w1)"
    by (rule reload_keeps_cached_decision [OF demo_separate r c h p _ _ q w1])
      (simp_all only: line b printed_simps)
  with b w1 show ?thesis by (auto simp: demo_acc_def)
qed

end
