(* ===== verification/Buffer_Getline.thy ===== *)
theory Buffer_Getline
  imports Buffer
begin

text \<open>
  \<open>buffer_getline\<close> of \<open>src/core/webcontrol_buffer.c\<close>, which the program exports and does not
  call.  \<open>getline\<close> is a parameter; \<open>getline_contract\<close> says what is relied on of it, and a
  \<open>getline\<close> on strings satisfies it.

  The function stores the number of characters \<open>getline\<close> read in \<open>len\<close>, where every other
  operation counts the terminator as well.
\<close>

type_synonym 'f getline = "block option \<Rightarrow> size_t \<Rightarrow> 'f \<Rightarrow> size_t \<times> block option \<times> size_t \<times> 'f"

definition buffer_getline :: "'f getline \<Rightarrow> buffer option \<Rightarrow> 'f \<Rightarrow> (size_t \<times> buffer \<times> 'f) c_result" where
  "buffer_getline getline bo f =
     c_bind (c_deref bo) (\<lambda>b.
     let (nbytes, ptr, capacity, f') = getline (buf_ptr b) (buf_capacity b) f
     in Inr (nbytes, b\<lparr>buf_ptr := ptr, buf_capacity := capacity, buf_len := nbytes\<rparr>, f'))"

text \<open>
  Unless it returns \<open>-1\<close>, \<open>getline\<close> has read a line (at least one character), stored it with a
  terminator in a block it may have moved, and updated the capacity.
\<close>

definition getline_contract :: "'f getline \<Rightarrow> bool" where
  "getline_contract getline \<longleftrightarrow>
     (\<forall>p c f n p' c' f'. getline p c f = (n, p', c', f') \<longrightarrow> n \<noteq> -1 \<longrightarrow>
        (\<exists>line rest. line \<noteq> [] \<and> unat n = length line \<and> p' = Some (map Some line @ Some NUL # rest)
           \<and> unat c' = Suc (length line + length rest)))"

text \<open>A line that has no NUL inside leaves a buffer that represents no text at all.\<close>

theorem getline_breaks_representation:
  assumes "getline_contract getline" "buffer_getline getline (Some b) f = Inr (n, b', f')"
    and "n \<noteq> -1" "\<forall>blk. buf_ptr b' = Some blk \<longrightarrow> Some NUL \<notin> set (take (unat n) blk)"
  shows "\<not> buf_repr b' s"
proof -
  obtain n0 p c f0 where g: "getline (buf_ptr b) (buf_capacity b) f = (n0, p, c, f0)"
    by (metis prod_cases4)
  with assms(2) have b': "b' = b\<lparr>buf_ptr := p, buf_capacity := c, buf_len := n\<rparr>" and n: "n0 = n"
    by (auto simp: buffer_getline_def)
  from g n assms(1,3) obtain line rest where line: "line \<noteq> []" "unat n = length line"
    "p = Some (map Some line @ Some NUL # rest)" unfolding getline_contract_def by blast
  have "n \<noteq> 0" using line(1,2) by auto
  have "NUL \<notin> set line" using assms(4) b' line(2,3) by auto
  moreover have "take (length line) (map Some line @ Some NUL # rest) = map Some line" by simp
  moreover have "map Some line \<noteq> cstr s"
  proof
    assume "map Some line = cstr s"
    then have "Some NUL \<in> set (map Some line)" by (simp add: cstr_def)
    with \<open>NUL \<notin> set line\<close> show False by auto
  qed
  ultimately show ?thesis using b' line \<open>n \<noteq> 0\<close> by (auto simp: buf_repr_def)
qed

section \<open>A \<open>getline\<close> on strings\<close>

fun next_line :: "string \<Rightarrow> string" where
  "next_line [] = []"
| "next_line (c # s) = (if c = NL then [c] else c # next_line s)"

definition text_getline :: "string getline" where
  "text_getline p c s =
     (let line = next_line s; blk = map Some line @ [Some NUL] in
      if s = [] \<or> length blk \<ge> 2 ^ 63 then (-1, p, c, s)
      else (of_nat (length line), Some blk, of_nat (length blk), drop (length line) s))"

lemma text_getline_contract: "getline_contract text_getline"
  unfolding getline_contract_def
proof (intro allI impI)
  fix p c f n p' c' f' assume "text_getline p c f = (n, p', c', f')" "n \<noteq> -1"
  then have f: "f \<noteq> []" "\<not> 2 ^ 63 \<le> length (map Some (next_line f) @ [Some NUL])"
    and n: "n = of_nat (length (next_line f))" "p' = Some (map Some (next_line f) @ [Some NUL])"
      "c' = of_nat (length (map Some (next_line f) @ [Some NUL]))"
    by (auto simp: text_getline_def Let_def split: if_splits)
  have "next_line f \<noteq> []" using f(1) by (cases f) auto
  moreover have "unat n = length (next_line f)" unfolding n(1)
    by (rule unat_of_nat_small) (use f(2) in simp)
  moreover have "unat c' = length (map Some (next_line f) @ [Some NUL])" unfolding n(3)
    by (rule unat_of_nat_small) (use f(2) in simp)
  ultimately show "\<exists>line rest. line \<noteq> [] \<and> unat n = length line \<and> p' = Some (map Some line @ Some NUL # rest)
      \<and> unat c' = Suc (length line + length rest)"
    using n(2) by (intro exI [of _ "next_line f"] exI [of _ "[]"]) simp
qed

lemma getline_breaks_representation_instance:
  "\<exists>n b. buffer_getline text_getline (Some buffer_init) (''ab'' @ [NL]) = Inr (n, b, []) \<and> \<not> buf_repr b s"
proof -
  let ?b = "\<lparr>buf_ptr = Some (map Some (''ab'' @ [NL]) @ [Some NUL]), buf_len = 3, buf_capacity = 4\<rparr>"
  have run: "buffer_getline text_getline (Some buffer_init) (''ab'' @ [NL]) = Inr (3, ?b, [])"
    by (simp add: buffer_getline_def text_getline_def buffer_init_def Let_def)
  from getline_breaks_representation [OF text_getline_contract this] have "\<not> buf_repr ?b s" by simp
  with run show ?thesis by blast
qed

end
