(* ===== verification/C_Heap.thy ===== *)
theory C_Heap
  imports Prelude "HOL-Library.AList"
begin

text \<open>
  The part of the C machine that the theories on ownership need: objects that \<open>malloc\<close>
  returned, reached through pointers, and \<open>free\<close>.

  A heap is the list of the blocks that are allocated, each with its content; a pointer is
  null or an address.  Reading, writing or freeing a block that is not in the list (because
  it was freed before) is the fault \<open>BadPointer\<close>.  Which address \<open>malloc\<close> picks is a
  parameter, of which only \<open>malloc_contract\<close> is relied on: it may reuse addresses.
\<close>

type_synonym addr = nat
type_synonym 'c heap = "(addr \<times> 'c) list"

definition hp_load :: "'c heap \<Rightarrow> addr option \<Rightarrow> 'c c_result" where
  "hp_load h p =
     c_bind (c_deref p) (\<lambda>a. case map_of h a of None \<Rightarrow> Inl BadPointer | Some c \<Rightarrow> Inr c)"

definition hp_store :: "'c heap \<Rightarrow> addr option \<Rightarrow> 'c \<Rightarrow> 'c heap c_result" where
  "hp_store h p c =
     c_bind (c_deref p) (\<lambda>a. if map_of h a = None then Inl BadPointer else Inr (AList.update a c h))"

definition hp_free :: "'c heap \<Rightarrow> addr option \<Rightarrow> 'c heap c_result" where
  "hp_free h p =
     (case p of
        None \<Rightarrow> Inr h
      | Some a \<Rightarrow> if map_of h a = None then Inl BadPointer else Inr (AList.delete a h))"

definition hp_malloc :: "('c heap \<Rightarrow> addr) \<Rightarrow> 'c \<Rightarrow> 'c heap \<Rightarrow> addr \<times> 'c heap" where
  "hp_malloc pick c h = (pick h, (pick h, c) # h)"

text \<open>\<open>malloc\<close> returns a block that is not in use.\<close>

definition malloc_contract :: "('c heap \<Rightarrow> addr) \<Rightarrow> bool" where
  "malloc_contract pick \<longleftrightarrow> (\<forall>h. map_of h (pick h) = None)"

text \<open>An allocator that satisfies it, and reuses addresses.\<close>

fun above_all :: "'c heap \<Rightarrow> addr" where
  "above_all [] = 0"
| "above_all ((a, c) # h) = max (Suc a) (above_all h)"

lemma above_all: "a \<in> fst ` set h \<Longrightarrow> a < above_all h"
  by (induction h rule: above_all.induct) (force simp: less_max_iff_disj)+

lemma above_all_contract: "malloc_contract above_all"
  unfolding malloc_contract_def map_of_eq_None_iff using above_all by blast

lemma malloc_fresh: "malloc_contract pick \<Longrightarrow> pick h \<notin> fst ` set h"
  by (simp add: malloc_contract_def map_of_eq_None_iff)

lemma hp_load_Some [mem_simps]: "map_of h a = Some c \<Longrightarrow> hp_load h (Some a) = Inr c"
  by (simp add: hp_load_def)

lemma hp_load_head [simp]: "hp_load ((a, c) # h) (Some a) = Inr c"
  by (simp add: hp_load_def)

lemma hp_store_head [simp]: "hp_store ((a, c) # h) (Some a) c' = Inr ((a, c') # h)"
  by (simp add: hp_store_def)

lemma hp_free_null [simp]: "hp_free h None = Inr h"
  by (simp add: hp_free_def)

lemma hp_free_Some [mem_simps]: "map_of h a = Some c \<Longrightarrow> hp_free h (Some a) = Inr (AList.delete a h)"
  by (simp add: hp_free_def)

lemma addresses_delete: "fst ` set (AList.delete a h) = fst ` set h - {a}"
  by (force simp: AList.delete_eq)

lemma hp_free_head: "a \<notin> fst ` set h \<Longrightarrow> hp_free ((a, c) # h) (Some a) = Inr h"
  by (simp add: hp_free_def)

lemma hp_free_shorter: "hp_free h (Some a) = Inr h' \<Longrightarrow> length h' < length h"
  by (auto simp: hp_free_def map_of_eq_None_iff AList.delete_eq split: if_splits
      intro!: length_filter_less)

lemma hp_load_freed: "a \<notin> fst ` set h \<Longrightarrow> hp_load h (Some a) = Inl BadPointer"
  by (simp add: hp_load_def map_of_eq_None_iff [symmetric])

lemma hp_free_freed: "a \<notin> fst ` set h \<Longrightarrow> hp_free h (Some a) = Inl BadPointer"
  by (simp add: hp_free_def map_of_eq_None_iff [symmetric])

end
