(* ===== verification/Host_Chain.thy ===== *)
theory Host_Chain
  imports Txtfile C_Heap
begin

text \<open>
  The chain of \<open>src/plugins/mod_txtfile/webcontrol_txtfile.c\<close> as the code has it: entries
  that \<open>malloc\<close> returned, linked by \<open>next\<close>, pushed in front while the file is read, walked
  by a lookup and freed one by one before a reload and at the end.

  \<open>Txtfile\<close> describes the same functions on lists.  The lemmas here show that the list is
  what the pointers represent, and that no entry is used after it was freed, freed twice
  or lost.
\<close>

section \<open>Cells and pointers\<close>

text \<open>\<open>address\<close> and \<open>flag\<close> are indeterminate until \<open>parse_line\<close> has filled them in.\<close>

record host_cell =
  hc_entry :: "host_entry option"
  hc_next :: "addr option"

text \<open>One round of the loop of \<open>clear_entries\<close>: the heap and the next entry.\<close>

definition free_entry :: "host_cell heap \<Rightarrow> addr option \<Rightarrow> (host_cell heap \<times> addr option) c_result" where
  "free_entry h entry =
     c_bind (hp_load h entry) (\<lambda>c. c_bind (hp_free h entry) (\<lambda>h'. Inr (h', hc_next c)))"

lemma free_entry_shorter: "free_entry h (Some a) = Inr (h', q) \<Longrightarrow> length h' < length h"
  by (auto simp: free_entry_def c_bind_eq_Inr hp_free_shorter)

function clear_entries_at :: "host_cell heap \<Rightarrow> addr option \<Rightarrow> (host_cell heap \<times> addr option) c_result" where
  "clear_entries_at h None = Inr (h, None)"
| "clear_entries_at h (Some a) = c_bind (free_entry h (Some a)) (\<lambda>(h', next). clear_entries_at h' next)"
  by pat_completeness auto
termination by (relation "measure (length \<circ> fst)") (auto simp: free_entry_shorter)

definition parse_line_at ::
  "(host_cell heap \<Rightarrow> addr) \<Rightarrow> bool \<Rightarrow> net_env \<Rightarrow> block \<Rightarrow> host_cell heap \<Rightarrow> (addr option \<times> host_cell heap) c_result" where
  "parse_line_at pick v6 env line h =
     (let (entry, h) = hp_malloc pick \<lparr>hc_entry = None, hc_next = None\<rparr> h in
      c_bind (parse_line v6 env line) (\<lambda>parsed.
      case parsed of
        None \<Rightarrow> c_bind (hp_free h (Some entry)) (\<lambda>h. Inr (None, h))
      | Some e \<Rightarrow> c_bind (hp_store h (Some entry) \<lparr>hc_entry = Some e, hc_next = None\<rparr>) (\<lambda>h.
          Inr (Some entry, h))))"

text \<open>\<open>current_entry->next = pd->entry_chain; pd->entry_chain = current_entry\<close>.\<close>

definition push_entry ::
  "host_cell heap \<Rightarrow> addr option \<Rightarrow> addr option \<Rightarrow> (host_cell heap \<times> addr option) c_result" where
  "push_entry h current chain =
     c_bind (hp_load h current) (\<lambda>c.
     c_bind (hp_store h current (c\<lparr>hc_next := chain\<rparr>)) (\<lambda>h. Inr (h, current)))"

text \<open>One round of the loop of \<open>parse_file\<close>: the heap and \<open>entry_chain\<close>.\<close>

definition read_entry ::
  "(host_cell heap \<Rightarrow> addr) \<Rightarrow> bool \<Rightarrow> net_env \<Rightarrow> block \<Rightarrow> host_cell heap \<Rightarrow> addr option
     \<Rightarrow> (host_cell heap \<times> addr option) c_result" where
  "read_entry pick v6 env line h chain =
     c_bind (parse_line_at pick v6 env line h) (\<lambda>(current, h).
     if current = None then Inr (h, chain) else push_entry h current chain)"

function parse_entries_at ::
  "(host_cell heap \<Rightarrow> addr) \<Rightarrow> bool \<Rightarrow> net_env \<Rightarrow> string \<Rightarrow> host_cell heap \<Rightarrow> addr option
     \<Rightarrow> (host_cell heap \<times> addr option) c_result" where
  "parse_entries_at pick v6 env s h chain =
     (case fgets LINE_MAX s of
        None \<Rightarrow> Inr (h, chain)
      | Some (line, rest) \<Rightarrow>
          c_bind (read_entry pick v6 env (cstr line) h chain) (\<lambda>(h, chain).
          parse_entries_at pick v6 env rest h chain))"
  by pat_completeness auto
termination
  by (relation "measure (\<lambda>(pick, v6, env, s, h, chain). length s)") (auto dest: fgets_shorter)

declare parse_entries_at.simps [simp del]

text \<open>What is printed, the heap and the new \<open>entry_chain\<close>, for the contents of the file.\<close>

definition parse_file_at ::
  "(host_cell heap \<Rightarrow> addr) \<Rightarrow> bool \<Rightarrow> net_env \<Rightarrow> string option \<Rightarrow> host_cell heap \<Rightarrow> addr option
     \<Rightarrow> (string \<times> host_cell heap \<times> addr option) c_result" where
  "parse_file_at pick v6 env handle h chain =
     (case handle of
        None \<Rightarrow> Inr (''ERROR'' @ [NL], h, chain)
      | Some s \<Rightarrow>
          c_bind (clear_entries_at h chain) (\<lambda>(h, chain).
          c_bind (parse_entries_at pick v6 env s h chain) (\<lambda>(h, chain). Inr ([], h, chain))))"

text \<open>One round of the loop of the lookup: an answer, or the next entry to look at.\<close>

definition visit_entry :: "request \<Rightarrow> host_cell heap \<Rightarrow> addr option \<Rightarrow> (handler_status + addr option) c_result" where
  "visit_entry req h entry =
     c_bind (hp_load h entry) (\<lambda>c.
     c_bind (init_value (hc_entry c)) (\<lambda>e.
     c_bind (compare_addresses (ip_addr req) (he_address e)) (\<lambda>r.
     Inr (if r = 1 then Inl (he_flag e) else Inr (hc_next c)))))"

text \<open>The loop itself; on a chain with a cycle it would not return (\<open>None\<close>).\<close>

partial_function (option) lookup_at :: "request \<Rightarrow> host_cell heap \<Rightarrow> addr option \<Rightarrow> handler_status c_result option" where
  "lookup_at req h entry =
     (case entry of
        None \<Rightarrow> Some (Inr HANDLER_GO_ON)
      | Some a \<Rightarrow>
          (case visit_entry req h entry of
             Inl e \<Rightarrow> Some (Inl e)
           | Inr (Inl status) \<Rightarrow> Some (Inr status)
           | Inr (Inr next) \<Rightarrow> lookup_at req h next))"

section \<open>The list a pointer stands for\<close>

fun host_list :: "host_cell heap \<Rightarrow> addr option \<Rightarrow> addr list \<Rightarrow> host_entry list \<Rightarrow> bool" where
  "host_list h p [] [] \<longleftrightarrow> p = None"
| "host_list h p (a # as) (e # es) \<longleftrightarrow>
     p = Some a \<and> (\<exists>q. map_of h a = Some \<lparr>hc_entry = Some e, hc_next = q\<rparr> \<and> host_list h q as es)"
| "host_list h p _ _ \<longleftrightarrow> False"

text \<open>The heap holds the entries of the chain, each once, and nothing else.\<close>

definition chain_heap :: "host_cell heap \<Rightarrow> addr option \<Rightarrow> host_entry list \<Rightarrow> bool" where
  "chain_heap h p es \<longleftrightarrow>
     (\<exists>as. host_list h p as es \<and> distinct as \<and> distinct (map fst h) \<and> fst ` set h = set as)"

lemma host_list_cong:
  "(\<And>a. a \<in> set as \<Longrightarrow> map_of h' a = map_of h a) \<Longrightarrow> host_list h' p as es = host_list h p as es"
  by (induction h p as es rule: host_list.induct) auto

lemma host_list_None: "host_list h None as es \<longleftrightarrow> as = [] \<and> es = []"
  by (cases as; cases es) auto

lemma host_list_SomeE:
  assumes "host_list h (Some a) as es"
  obtains as' e es' q where "as = a # as'" "es = e # es'" "host_list h q as' es'"
    "map_of h a = Some \<lparr>hc_entry = Some e, hc_next = q\<rparr>"
  using assms by (cases as; cases es) auto

lemma host_list_length: "host_list h p as es \<Longrightarrow> length as = length es"
  by (induction h p as es rule: host_list.induct) auto

lemma chain_heap_Nil: "chain_heap [] None []"
  by (auto simp: chain_heap_def intro: exI [of _ "[]"])

lemma chain_heap_None: "chain_heap h None es \<Longrightarrow> h = [] \<and> es = []"
  by (auto simp: chain_heap_def host_list_None)

lemma chain_heap_length: "chain_heap h p es \<Longrightarrow> length h = length es"
  unfolding chain_heap_def using host_list_length
  by (metis distinct_card length_map list.set_map)

text \<open>A freed entry: the rest stays a chain.\<close>

lemma chain_heap_free:
  assumes "chain_heap h (Some a) es"
  obtains e q es' where "es = e # es'" "free_entry h (Some a) = Inr (AList.delete a h, q)"
    "chain_heap (AList.delete a h) q es'"
proof -
  from assms obtain as where as: "host_list h (Some a) as es" "distinct as" "distinct (map fst h)"
    "fst ` set h = set as" by (auto simp: chain_heap_def)
  from as(1) obtain as' e es' q where l: "as = a # as'" "es = e # es'" "host_list h q as' es'"
    "map_of h a = Some \<lparr>hc_entry = Some e, hc_next = q\<rparr>" by (rule host_list_SomeE)
  have "host_list (AList.delete a h) q as' es'"
    using l(1,3) as(2) by (subst host_list_cong [of _ _ h]) (auto simp: AList.delete_conv')
  moreover have "fst ` set (AList.delete a h) = set as'"
    using as(2,4) l(1) by (auto simp: addresses_delete)
  ultimately have "chain_heap (AList.delete a h) q es'"
    using as(2,3) l(1) by (auto simp: chain_heap_def AList.distinct_delete)
  moreover have "free_entry h (Some a) = Inr (AList.delete a h, q)"
    using l(4) by (simp add: free_entry_def mem_simps)
  ultimately show ?thesis using l(2) that by blast
qed

text \<open>A pushed entry.\<close>

lemma chain_heap_push:
  assumes "chain_heap h p es" "a \<notin> fst ` set h"
  shows "chain_heap ((a, \<lparr>hc_entry = Some e, hc_next = p\<rparr>) # h) (Some a) (e # es)"
proof -
  from assms obtain as where as: "host_list h p as es" "distinct as" "distinct (map fst h)"
    "fst ` set h = set as" by (auto simp: chain_heap_def)
  moreover have "host_list ((a, \<lparr>hc_entry = Some e, hc_next = p\<rparr>) # h) p as es"
    using as assms(2) by (subst host_list_cong [of _ _ h]) auto
  ultimately show ?thesis using assms(2) unfolding chain_heap_def
    by (intro exI [of _ "a # as"]) auto
qed

section \<open>Each function does on the pointers what it does on the list\<close>

lemma clear_entries_at_ok: "chain_heap h p es \<Longrightarrow> clear_entries_at h p = Inr ([], None)"
proof (induction es arbitrary: h p)
  case Nil
  show ?case
  proof (cases p)
    case None
    with Nil show ?thesis using chain_heap_None by auto
  next
    case (Some a)
    with Nil show ?thesis by (auto elim: chain_heap_free)
  qed
next
  case (Cons e es)
  then obtain a where p: "p = Some a" using chain_heap_None by (cases p) auto
  with Cons.prems obtain q where "free_entry h (Some a) = Inr (AList.delete a h, q)"
    "chain_heap (AList.delete a h) q es" by (auto elim: chain_heap_free)
  with p Cons.IH show ?case by simp
qed

lemma read_entry_run:
  assumes "malloc_contract pick"
  shows "read_entry pick v6 env line h chain =
    c_bind (parse_line v6 env line) (\<lambda>parsed. Inr (case parsed of
      None \<Rightarrow> (h, chain)
    | Some e \<Rightarrow> ((pick h, \<lparr>hc_entry = Some e, hc_next = chain\<rparr>) # h, Some (pick h))))"
  using malloc_fresh [OF assms, of h]
  by (cases "parse_line v6 env line")
    (auto simp: read_entry_def parse_line_at_def push_entry_def hp_malloc_def hp_free_head split: option.split)

lemma parse_entries_at_ok:
  assumes "malloc_contract pick"
  shows "chain_heap h p es \<Longrightarrow>
    (case parse_entries v6 env s es of
       Inl e \<Rightarrow> parse_entries_at pick v6 env s h p = Inl e
     | Inr es' \<Rightarrow> \<exists>h' p'. parse_entries_at pick v6 env s h p = Inr (h', p') \<and> chain_heap h' p' es')"
proof (induction v6 env s es arbitrary: h p rule: parse_entries.induct)
  case (1 v6 env s es h p)
  note unfold = parse_entries.simps [of v6 env s es] parse_entries_at.simps [of pick v6 env s h p]
    read_entry_run [OF assms]
  show ?case
  proof (cases "fgets LINE_MAX s")
    case None
    with 1(3) show ?thesis by (simp add: unfold)
  next
    case (Some lr)
    then obtain l r where lr: "fgets LINE_MAX s = Some (l, r)" by (cases lr) auto
    show ?thesis
    proof (cases "parse_line v6 env (cstr l)")
      case (Inl e)
      then show ?thesis by (simp add: unfold lr)
    next
      case (Inr current)
      show ?thesis
      proof (cases current)
        case None
        with 1(1) [OF lr refl Inr None 1(3)] Inr show ?thesis
          by (simp add: unfold lr cong: sum.case_cong)
      next
        case (Some e)
        from 1(2) [OF lr refl Inr Some chain_heap_push [OF 1(3) malloc_fresh [OF assms]]] Inr Some
        show ?thesis by (simp add: unfold lr cong: sum.case_cong)
      qed
    qed
  qed
qed

lemma visit_entry_run:
  assumes "map_of h a = Some \<lparr>hc_entry = Some e, hc_next = q\<rparr>"
  shows "visit_entry req h (Some a) =
    c_bind (compare_addresses (ip_addr req) (he_address e)) (\<lambda>r. Inr (if r = 1 then Inl (he_flag e) else Inr q))"
  using assms by (simp add: visit_entry_def mem_simps init_value_def cong: if_cong)

lemma lookup_at_run: "host_list h p as es \<Longrightarrow> lookup_at req h p = Some (lookup_entry req es)"
proof (induction h p as es rule: host_list.induct)
  case (1 h p)
  then show ?case by (simp add: lookup_at.simps)
next
  case (2 h p a as e es)
  then obtain q where "p = Some a" "map_of h a = Some \<lparr>hc_entry = Some e, hc_next = q\<rparr>" "host_list h q as es"
    by auto
  with "2.IH" show ?case
    by (cases "compare_addresses (ip_addr req) (he_address e)")
      (auto simp: lookup_at.simps [of req h "Some a"] visit_entry_run)
qed auto

lemma parse_file_at_ok:
  assumes "malloc_contract pick" "chain_heap h p (entry_chain pd)"
  shows "case parse_file v6 env fs pd of
      Inl e \<Rightarrow> parse_file_at pick v6 env (fs (filename pd)) h p = Inl e
    | Inr (out, pd') \<Rightarrow> \<exists>h' p'. parse_file_at pick v6 env (fs (filename pd)) h p = Inr (out, h', p')
        \<and> chain_heap h' p' (entry_chain pd')"
proof (cases "fs (filename pd)")
  case None
  with assms(2) show ?thesis by (simp add: parse_file_def parse_file_at_def)
next
  case (Some s)
  from parse_entries_at_ok [OF assms(1) chain_heap_Nil, of v6 env s] show ?thesis
    by (cases "parse_entries v6 env s []")
      (auto simp: parse_file_def parse_file_at_def Some clear_entries_at_ok [OF assms(2)]
        clear_entries_def clear_chain_Nil)
qed

section \<open>Properties\<close>

text \<open>
  C8: the pointers of the hosts list are sound.  Wherever \<open>malloc\<close> places the entries, a reload
  on a heap that holds exactly the loaded entries faults only where reading the file
  itself does, and leaves a heap that holds exactly the new ones, each once: nothing is
  read or freed after it was freed, nothing is lost.  The chain is the list \<open>Txtfile\<close>
  describes, every lookup on it returns and gives the same answer, and the final
  \<open>clear_entries\<close> frees every block.
\<close>

theorem host_chain_refines_list:
  assumes "malloc_contract pick" "chain_heap h p (entry_chain pd)"
  shows "case parse_file v6 env fs pd of
      Inl e \<Rightarrow> parse_file_at pick v6 env (fs (filename pd)) h p = Inl e
    | Inr (out, pd') \<Rightarrow> \<exists>h' p'. parse_file_at pick v6 env (fs (filename pd)) h p = Inr (out, h', p')
        \<and> chain_heap h' p' (entry_chain pd') \<and> length h' = length (entry_chain pd')
        \<and> (\<forall>req. lookup_at req h' p' = Some (webcontrol_txtfile_handle_request req pd'))
        \<and> clear_entries_at h' p' = Inr ([], None)"
proof (cases "parse_file v6 env fs pd")
  case (Inl e)
  with parse_file_at_ok [OF assms, of v6 env fs] show ?thesis by simp
next
  case (Inr r)
  then obtain out pd' where r: "parse_file v6 env fs pd = Inr (out, pd')" by (cases r) auto
  from parse_file_at_ok [OF assms, of v6 env fs] r obtain h' p' where
    run: "parse_file_at pick v6 env (fs (filename pd)) h p = Inr (out, h', p')"
    and ch: "chain_heap h' p' (entry_chain pd')" by auto
  from ch obtain as where "host_list h' p' as (entry_chain pd')" by (auto simp: chain_heap_def)
  then have "lookup_at req h' p' = Some (webcontrol_txtfile_handle_request req pd')" for req
    by (simp add: lookup_at_run webcontrol_txtfile_handle_request_def)
  with r run ch chain_heap_length [OF ch] clear_entries_at_ok [OF ch] show ?thesis by auto
qed

theorem host_chain_refines_list_witness:
  "\<exists>h p. parse_file_at above_all True two_hosts (Some (render hosts_file)) [] None = Inr ([], h, p)
    \<and> length h = 3 \<and> lookup_at request_1 h p = Some (Inr HANDLER_ALLOW) \<and> clear_entries_at h p = Inr ([], None)"
proof -
  obtain es where es: "parse_file True two_hosts (\<lambda>_. Some (render hosts_file)) empty_data =
      Inr ([], empty_data\<lparr>entry_chain := rev es\<rparr>)" "list_all2 (entry_of True two_hosts) (rules hosts_file) es"
    using parse_file_render [OF hosts_file_ok, of "\<lambda>_. Some (render hosts_file)" empty_data] by auto
  have "length es = 3" using list_all2_lengthD [OF es(2)] by (simp add: hosts_file_def)
  moreover have "lookup_entry request_1 (rev es) = Inr HANDLER_ALLOW"
  proof -
    have "(case find (rule_matches True two_hosts request_1) (rev (rules hosts_file)) of
        None \<Rightarrow> HANDLER_GO_ON | Some r \<Rightarrow> flag_status (snd r)) = HANDLER_ALLOW"
      by (simp add: hosts_file_def two_hosts_def request_1_def rule_matches_def sockaddr_of_def
          flag_status_def upper_char_def char_of_def)
    moreover from es(2) have "list_all2 (entry_of True two_hosts) (rev (rules hosts_file)) (rev es)"
      by (simp add: list_all2_rev)
    note lookup_rules [OF request_sockaddr_ok [OF request_1_wf] this]
    ultimately show ?thesis by simp
  qed
  moreover have "chain_heap [] None (entry_chain empty_data)" by (simp add: empty_data_def chain_heap_Nil)
  ultimately show ?thesis
    using host_chain_refines_list [OF above_all_contract, of "[]" None empty_data True two_hosts "\<lambda>_. Some (render hosts_file)"] es(1)
    by (auto simp: webcontrol_txtfile_handle_request_def)
qed

end
