(* ===== verification/Host_Sharing.thy ===== *)
theory Host_Sharing
  imports Host_Chain
begin

text \<open>
  The hosts list shared between the event loop, which reloads it in \<open>file_change_cb\<close>, and the
  worker threads, which look addresses up in it: \<open>parse_file\<close> and the lookup of
  \<open>webcontrol_txtfile.c\<close> cut into steps at every lock operation, every entry freed, every line
  read and every entry visited.  Between two steps any other thread may run; only the mutex
  \<open>pd->mtx\<close> keeps them apart.

  The lemmas show that what the threads observe is what a single thread would that runs one
  reload or one lookup at a time, which is how \<open>Txtfile\<close> and the theories that use it take
  the hooks.
\<close>

section \<open>Threads and the shared list\<close>

datatype holder = Loader | Lookup nat

datatype loader_pc =
    Watching
  | LoadWaiting string   \<comment> \<open>the file is open, at \<open>pthread_mutex_lock\<close>\<close>
  | Clearing string
  | Reading string       \<comment> \<open>what is left of the file\<close>

datatype lookup_pc =
    Ready
  | LookWaiting request
  | Walking request "addr option"
  | Unlocking request handler_status

record sharing =
  entries :: "host_cell heap"
  first_entry :: "addr option"
  mtx :: "holder option"
  loader :: loader_pc
  lookups :: "lookup_pc list"
  answers :: "(request \<times> handler_status) list"

definition sharing_init :: "nat \<Rightarrow> sharing" where
  "sharing_init n = \<lparr>entries = [], first_entry = None, mtx = None, loader = Watching,
     lookups = replicate n Ready, answers = []\<rparr>"

text \<open>
  One step of the event loop's thread.  \<open>handle\<close> is what \<open>fopen\<close> finds when the file has
  changed; \<open>None\<close> as the result means that the thread waits for the mutex.
\<close>

definition load_step ::
  "(host_cell heap \<Rightarrow> addr) \<Rightarrow> bool \<Rightarrow> net_env \<Rightarrow> string option \<Rightarrow> sharing \<Rightarrow> sharing c_result option" where
  "load_step pick v6 env handle s =
     (case loader s of
        Watching \<Rightarrow> Some (Inr (case handle of None \<Rightarrow> s | Some text \<Rightarrow> s\<lparr>loader := LoadWaiting text\<rparr>))
      | LoadWaiting text \<Rightarrow>
          if mtx s = None then Some (Inr (s\<lparr>mtx := Some Loader, loader := Clearing text\<rparr>)) else None
      | Clearing text \<Rightarrow>
          if first_entry s = None then Some (Inr (s\<lparr>loader := Reading text\<rparr>))
          else Some (c_bind (free_entry (entries s) (first_entry s)) (\<lambda>(h, next).
            Inr (s\<lparr>entries := h, first_entry := next\<rparr>)))
      | Reading text \<Rightarrow>
          (case fgets LINE_MAX text of
             None \<Rightarrow> Some (Inr (s\<lparr>mtx := None, loader := Watching\<rparr>))
           | Some (line, rest) \<Rightarrow>
               Some (c_bind (read_entry pick v6 env (cstr line) (entries s) (first_entry s)) (\<lambda>(h, chain).
                 Inr (s\<lparr>entries := h, first_entry := chain, loader := Reading rest\<rparr>)))))"

text \<open>One step of worker \<open>i\<close>; \<open>req\<close> is the request it is asked about when it is not busy.\<close>

definition lookup_step :: "nat \<Rightarrow> request \<Rightarrow> sharing \<Rightarrow> sharing c_result option" where
  "lookup_step i req s =
     (case lookups s ! i of
        Ready \<Rightarrow> Some (Inr (s\<lparr>lookups := (lookups s)[i := LookWaiting req]\<rparr>))
      | LookWaiting req \<Rightarrow>
          if mtx s = None
          then Some (Inr (s\<lparr>mtx := Some (Lookup i), lookups := (lookups s)[i := Walking req (first_entry s)]\<rparr>))
          else None
      | Walking req entry \<Rightarrow>
          if entry = None then Some (Inr (s\<lparr>lookups := (lookups s)[i := Unlocking req HANDLER_GO_ON]\<rparr>))
          else Some (c_bind (visit_entry req (entries s) entry) (\<lambda>r.
            Inr (s\<lparr>lookups := (lookups s)[i :=
              (case r of Inl status \<Rightarrow> Unlocking req status | Inr next \<Rightarrow> Walking req next)]\<rparr>)))
      | Unlocking req status \<Rightarrow>
          Some (Inr (s\<lparr>mtx := None, lookups := (lookups s)[i := Ready], answers := answers s @ [(req, status)]\<rparr>)))"

text \<open>
  The files that \<open>fopen\<close> has delivered, in order: one more when the loader, not busy, opens
  the changed file.
\<close>

definition delivered :: "sharing \<Rightarrow> string option \<Rightarrow> string list \<Rightarrow> string list" where
  "delivered s handle texts =
     (if loader s = Watching then texts @ (case handle of None \<Rightarrow> [] | Some text \<Rightarrow> [text]) else texts)"

inductive sharing_reachable ::
  "(host_cell heap \<Rightarrow> addr) \<Rightarrow> bool \<Rightarrow> net_env \<Rightarrow> nat \<Rightarrow> string list \<Rightarrow> sharing \<Rightarrow> bool" for pick v6 env n where
  init: "sharing_reachable pick v6 env n [] (sharing_init n)"
| load: "sharing_reachable pick v6 env n texts s \<Longrightarrow> load_step pick v6 env handle s = Some (Inr s') \<Longrightarrow>
    sharing_reachable pick v6 env n (delivered s handle texts) s'"
| look: "sharing_reachable pick v6 env n texts s \<Longrightarrow> i < n \<Longrightarrow> request_wf req a \<Longrightarrow>
    lookup_step i req s = Some (Inr s') \<Longrightarrow> sharing_reachable pick v6 env n texts s'"

section \<open>One at a time\<close>

text \<open>
  The list and the answers so far when every reload and every lookup is a single step:
  \<open>texts\<close> are the files that have been loaded, in order, each from beginning to end.
\<close>

inductive one_at_a_time ::
  "bool \<Rightarrow> net_env \<Rightarrow> string list \<Rightarrow> host_entry list \<Rightarrow> (request \<times> handler_status) list \<Rightarrow> bool" for v6 env where
  start: "one_at_a_time v6 env [] [] []"
| reload: "one_at_a_time v6 env texts es log \<Longrightarrow> parse_entries v6 env text [] = Inr es' \<Longrightarrow>
    one_at_a_time v6 env (texts @ [text]) es' log"
| lookup: "one_at_a_time v6 env texts es log \<Longrightarrow> lookup_entry req es = Inr status \<Longrightarrow>
    one_at_a_time v6 env texts es (log @ [(req, status)])"

section \<open>Who may touch what\<close>

abbreviation entries_usable :: "host_entry list \<Rightarrow> bool" where
  "entries_usable \<equiv> list_all (\<lambda>e. sockaddr_ok (ip_sockaddr (he_address e)))"

fun loader_outside :: "loader_pc \<Rightarrow> bool" where
  "loader_outside Watching = True"
| "loader_outside (LoadWaiting text) = True"
| "loader_outside _ = False"

fun lookup_outside :: "lookup_pc \<Rightarrow> bool" where
  "lookup_outside Ready = True"
| "lookup_outside (LookWaiting req) = (\<exists>a. request_wf req a)"
| "lookup_outside _ = False"

text \<open>The files loaded completely: all but the last one while a reload is under way, which is of that one.\<close>

fun loaded :: "loader_pc \<Rightarrow> string list \<Rightarrow> string list" where
  "loaded Watching texts = texts"
| "loaded _ texts = butlast texts"

fun loads_last :: "loader_pc \<Rightarrow> string list \<Rightarrow> bool" where
  "loads_last Watching texts = True"
| "loads_last (LoadWaiting text) texts = (texts \<noteq> [] \<and> last texts = text)"
| "loads_last (Clearing text) texts = (texts \<noteq> [] \<and> last texts = text)"
| "loads_last (Reading rest) texts = (texts \<noteq> [])"

text \<open>
  Without the lock held, the list is complete and the answers so far are explained.  The
  invariants speak of the heap \<open>h\<close>, the pointer \<open>p\<close> to the first entry and the answers \<open>log\<close>.
\<close>

definition settled ::
  "bool \<Rightarrow> net_env \<Rightarrow> string list \<Rightarrow> host_cell heap \<Rightarrow> addr option \<Rightarrow> (request \<times> handler_status) list \<Rightarrow> host_entry list \<Rightarrow> bool" where
  "settled v6 env ts h p log es \<longleftrightarrow> chain_heap h p es \<and> entries_usable es \<and> one_at_a_time v6 env ts es log"

text \<open>While it loads, only the event loop's thread is inside, and the old answers stand.\<close>

fun loading_ok ::
  "bool \<Rightarrow> net_env \<Rightarrow> string list \<Rightarrow> host_cell heap \<Rightarrow> addr option \<Rightarrow> (request \<times> handler_status) list \<Rightarrow> loader_pc \<Rightarrow> bool" where
  "loading_ok v6 env texts h p log (Clearing text) \<longleftrightarrow>
     (\<exists>es. chain_heap h p es) \<and> (\<exists>es. one_at_a_time v6 env (butlast texts) es log)"
| "loading_ok v6 env texts h p log (Reading text) \<longleftrightarrow>
     (\<exists>es. chain_heap h p es \<and> entries_usable es
        \<and> parse_entries v6 env (last texts) [] = parse_entries v6 env text es)
     \<and> (\<exists>es. one_at_a_time v6 env (butlast texts) es log)"
| "loading_ok v6 env texts h p log _ \<longleftrightarrow> False"

text \<open>While it walks, a lookup has the rest of the list before it that decides its answer.\<close>

fun walking_ok ::
  "bool \<Rightarrow> net_env \<Rightarrow> string list \<Rightarrow> host_cell heap \<Rightarrow> addr option \<Rightarrow> (request \<times> handler_status) list \<Rightarrow> lookup_pc \<Rightarrow> bool" where
  "walking_ok v6 env ts h p log (Walking req entry) \<longleftrightarrow>
     (\<exists>a. request_wf req a) \<and> (\<exists>es as es'. settled v6 env ts h p log es
        \<and> host_list h entry as es' \<and> entries_usable es' \<and> lookup_entry req es = lookup_entry req es')"
| "walking_ok v6 env ts h p log (Unlocking req status) \<longleftrightarrow>
     (\<exists>es. settled v6 env ts h p log es \<and> lookup_entry req es = Inr status)"
| "walking_ok v6 env ts h p log _ \<longleftrightarrow> False"

definition sharing_ok :: "bool \<Rightarrow> net_env \<Rightarrow> nat \<Rightarrow> string list \<Rightarrow> sharing \<Rightarrow> bool" where
  "sharing_ok v6 env n texts s \<longleftrightarrow> length (lookups s) = n \<and> loads_last (loader s) texts \<and>
     (case mtx s of
        None \<Rightarrow> loader_outside (loader s) \<and> (\<forall>j < n. lookup_outside (lookups s ! j))
          \<and> (\<exists>es. settled v6 env (loaded (loader s) texts) (entries s) (first_entry s) (answers s) es)
      | Some Loader \<Rightarrow> loading_ok v6 env texts (entries s) (first_entry s) (answers s) (loader s)
          \<and> (\<forall>j < n. lookup_outside (lookups s ! j))
      | Some (Lookup i) \<Rightarrow> i < n \<and> loader_outside (loader s)
          \<and> walking_ok v6 env (loaded (loader s) texts) (entries s) (first_entry s) (answers s) (lookups s ! i)
          \<and> (\<forall>j < n. j \<noteq> i \<longrightarrow> lookup_outside (lookups s ! j)))"

lemma sharing_ok_init: "sharing_ok v6 env n [] (sharing_init n)"
  by (auto simp: sharing_ok_def sharing_init_def settled_def
      intro!: exI [of _ "[]"] chain_heap_Nil one_at_a_time.start)

lemma sharing_ok_answers: "sharing_ok v6 env n texts s \<Longrightarrow> \<exists>es. one_at_a_time v6 env (loaded (loader s) texts) es (answers s)"
  by (auto simp: sharing_ok_def settled_def split: option.splits holder.splits
      elim!: loading_ok.elims walking_ok.elims)

lemma sharing_ok_LoaderD:
  assumes "sharing_ok v6 env n texts s" "\<not> loader_outside (loader s)"
  shows "mtx s = Some Loader" "loading_ok v6 env texts (entries s) (first_entry s) (answers s) (loader s)"
    "\<forall>j < n. lookup_outside (lookups s ! j)" "length (lookups s) = n" "loads_last (loader s) texts"
  using assms by (auto simp: sharing_ok_def split: option.splits holder.splits)

lemma sharing_ok_LookupD:
  assumes "sharing_ok v6 env n texts s" "i < n" "\<not> lookup_outside (lookups s ! i)"
  shows "mtx s = Some (Lookup i)" "loader_outside (loader s)"
    "walking_ok v6 env (loaded (loader s) texts) (entries s) (first_entry s) (answers s) (lookups s ! i)"
    "\<forall>j < n. j \<noteq> i \<longrightarrow> lookup_outside (lookups s ! j)" "length (lookups s) = n" "loads_last (loader s) texts"
  using assms by (auto simp: sharing_ok_def split: option.splits holder.splits)

section \<open>Every step keeps the invariant\<close>

text \<open>What a step of the event loop may end in.\<close>

definition bad_line :: "bool \<Rightarrow> net_env \<Rightarrow> loader_pc \<Rightarrow> fault \<Rightarrow> bool" where
  "bad_line v6 env l e \<longleftrightarrow> (\<exists>text line rest. l = Reading text \<and> fgets LINE_MAX text = Some (line, rest)
     \<and> parse_line v6 env (cstr line) = Inl e)"

lemma reading_okI:
  "chain_heap h p es \<Longrightarrow> entries_usable es \<Longrightarrow> parse_entries v6 env (last texts) [] = parse_entries v6 env text es \<Longrightarrow>
     one_at_a_time v6 env (butlast texts) es0 log \<Longrightarrow> loading_ok v6 env texts h p log (Reading text)"
  by (simp, blast)

lemma clear_step_ok:
  assumes "sharing_ok v6 env n texts s" "loader s = Clearing text" "load_step pick v6 env handle s = Some r"
  shows "\<exists>s'. r = Inr s' \<and> sharing_ok v6 env n texts s'"
proof -
  note inv = sharing_ok_LoaderD [OF assms(1), unfolded assms(2), simplified]
  from inv(2) obtain es es0 where es: "chain_heap (entries s) (first_entry s) es"
    and log: "one_at_a_time v6 env (butlast texts) es0 (answers s)" by blast
  show ?thesis
  proof (cases "first_entry s")
    case None
    with es have "es = []" using chain_heap_None by auto
    with es None have "chain_heap (entries s) None []" by simp
    then have "loading_ok v6 env texts (entries s) None (answers s) (Reading text)"
      using reading_okI [OF _ _ _ log, of "entries s" None "[]" "text"] inv(5) \<open>chain_heap (entries s) None []\<close> by (simp del: loading_ok.simps)
    with None inv(1,3,4,5) assms(2,3) show ?thesis
      by (auto simp: load_step_def sharing_ok_def simp del: loading_ok.simps)
  next
    case (Some a)
    from chain_heap_free [OF es [unfolded Some]] obtain q es' where
      "free_entry (entries s) (Some a) = Inr (AList.delete a (entries s), q)"
      "chain_heap (AList.delete a (entries s)) q es'" by blast
    with Some log inv(1,3,4,5) assms(2,3) show ?thesis
      by (auto simp: load_step_def sharing_ok_def)
  qed
qed

lemma read_step_ok:
  assumes pick: "malloc_contract pick" and "sharing_ok v6 env n texts s" "loader s = Reading text"
    and "load_step pick v6 env handle s = Some r"
  shows "case r of Inl e \<Rightarrow> bad_line v6 env (loader s) e | Inr s' \<Rightarrow> sharing_ok v6 env n texts s'"
proof -
  note inv = sharing_ok_LoaderD [OF assms(2), unfolded assms(3), simplified]
  from inv(2) obtain es es0 where es: "chain_heap (entries s) (first_entry s) es" "entries_usable es"
    and all: "parse_entries v6 env (last texts) [] = parse_entries v6 env text es"
    and log: "one_at_a_time v6 env (butlast texts) es0 (answers s)" by blast
  note unfold = parse_entries.simps [of v6 env "text" es]
  show ?thesis
  proof (cases "fgets LINE_MAX text")
    case None
    have "one_at_a_time v6 env (butlast texts @ [last texts]) es (answers s)"
      using all None by (intro one_at_a_time.reload [OF log]) (simp add: unfold)
    with es inv(5) have "settled v6 env texts (entries s) (first_entry s) (answers s) es" by (simp add: settled_def)
    with None inv(1,3,4,5) assms(3,4) show ?thesis by (auto simp: load_step_def sharing_ok_def)
  next
    case (Some lr)
    then obtain line rest where lr: "fgets LINE_MAX text = Some (line, rest)" by (cases lr) auto
    note step = assms(4) [unfolded load_step_def assms(3) loader_pc.case lr option.case prod.case
        read_entry_run [OF pick]]
    show ?thesis
    proof (cases "parse_line v6 env (cstr line)")
      case (Inl e)
      with step lr assms(3) show ?thesis by (auto simp: bad_line_def)
    next
      case (Inr current)
      note all = all [unfolded unfold lr option.case prod.case Inr c_bind.simps]
      show ?thesis
      proof (cases current)
        case None
        with step Inr reading_okI [OF es all [unfolded None option.case] log] inv(1,3,4,5) show ?thesis
          by (auto simp: sharing_ok_def simp del: loading_ok.simps)
      next
        case (Some e)
        have "entries_usable (e # es)" using es(2) Inr Some by (auto dest: parse_line_chain_ok)
        from reading_okI [OF chain_heap_push [OF es(1) malloc_fresh [OF pick]] this
            all [unfolded Some option.case] log] step Inr Some inv(1,3,4,5) show ?thesis
          by (auto simp: sharing_ok_def simp del: loading_ok.simps)
      qed
    qed
  qed
qed


lemma load_step_ok:
  assumes "malloc_contract pick" "sharing_ok v6 env n texts s" "load_step pick v6 env handle s = Some r"
  shows "case r of Inl e \<Rightarrow> bad_line v6 env (loader s) e
    | Inr s' \<Rightarrow> sharing_ok v6 env n (delivered s handle texts) s'"
proof (cases "loader s")
  case Watching
  with assms(2,3) show ?thesis
    by (auto simp: load_step_def sharing_ok_def delivered_def split: option.splits holder.splits)
next
  case (LoadWaiting t)
  with assms(2,3) show ?thesis
    by (auto simp: load_step_def sharing_ok_def settled_def delivered_def split: if_splits)
next
  case (Clearing t)
  then have "delivered s handle texts = texts" by (simp add: delivered_def)
  then show ?thesis using clear_step_ok [OF assms(2) Clearing assms(3)] by (auto simp only: sum.case)
next
  case (Reading t)
  then have "delivered s handle texts = texts" by (simp add: delivered_def)
  then show ?thesis using read_step_ok [OF assms(1,2) Reading assms(3)] by (simp only:)
qed

lemma walking_okI:
  "settled v6 env ts h p log es \<Longrightarrow> request_wf req a \<Longrightarrow> host_list h entry as es' \<Longrightarrow> entries_usable es' \<Longrightarrow>
     lookup_entry req es = lookup_entry req es' \<Longrightarrow> walking_ok v6 env ts h p log (Walking req entry)"
  by (simp, blast)

lemma walk_step_ok:
  assumes "sharing_ok v6 env n texts s" "i < n" "lookups s ! i = Walking req0 entry" "lookup_step i req s = Some r"
  shows "\<exists>s'. r = Inr s' \<and> sharing_ok v6 env n texts s'"
proof -
  note inv = sharing_ok_LookupD [OF assms(1,2), unfolded assms(3), simplified]
  from inv(3) obtain a es as es' where req: "request_wf req0 a" and set: "settled v6 env (loaded (loader s) texts) (entries s) (first_entry s) (answers s) es"
    and es': "host_list (entries s) entry as es'" "entries_usable es'" "lookup_entry req0 es = lookup_entry req0 es'"
    by blast
  have step: "sharing_ok v6 env n texts (s\<lparr>lookups := (lookups s)[i := pc]\<rparr>)"
    if "walking_ok v6 env (loaded (loader s) texts) (entries s) (first_entry s) (answers s) pc" for pc
    using that inv(1,2,4,5,6) assms(2) by (auto simp: sharing_ok_def nth_list_update)
  show ?thesis
  proof (cases entry)
    case None
    with es' have "lookup_entry req0 es = Inr HANDLER_GO_ON" by (simp add: host_list_None)
    with set None assms(3,4) step [of "Unlocking req0 HANDLER_GO_ON"] show ?thesis
      by (auto simp: lookup_step_def)
  next
    case (Some b)
    from es'(1) [unfolded Some] obtain as' e es2 q where l: "es' = e # es2" "host_list (entries s) q as' es2"
      "map_of (entries s) b = Some \<lparr>hc_entry = Some e, hc_next = q\<rparr>" by (rule host_list_SomeE)
    obtain c where c: "compare_addresses (ip_addr req0) (he_address e) = Inr c"
      using compare_ok [OF request_sockaddr_ok [OF req]] es'(2) l(1) by auto
    let ?pc = "if c = 1 then Unlocking req0 (he_flag e) else Walking req0 q"
    have "walking_ok v6 env (loaded (loader s) texts) (entries s) (first_entry s) (answers s) ?pc"
      using set l es' c walking_okI [OF set req l(2)] by auto
    from step [OF this] Some c l(3) assms(3,4) show ?thesis
      by (auto simp: lookup_step_def visit_entry_run split: if_splits)
  qed
qed

lemma lookup_step_ok:
  assumes "sharing_ok v6 env n texts s" "i < n" "request_wf req a" "lookup_step i req s = Some r"
  shows "\<exists>s'. r = Inr s' \<and> sharing_ok v6 env n texts s'"
proof (cases "lookups s ! i")
  case Ready
  with assms(4) have "r = Inr (s\<lparr>lookups := (lookups s)[i := LookWaiting req]\<rparr>)"
    by (simp add: lookup_step_def)
  moreover have "sharing_ok v6 env n texts (s\<lparr>lookups := (lookups s)[i := LookWaiting req]\<rparr>)"
    using assms(1-3) Ready by (auto simp: sharing_ok_def nth_list_update split: option.splits holder.splits)
  ultimately show ?thesis by simp
next
  case (LookWaiting req0)
  with assms(4) have r: "mtx s = None"
    "r = Inr (s\<lparr>mtx := Some (Lookup i), lookups := (lookups s)[i := Walking req0 (first_entry s)]\<rparr>)"
    by (auto simp: lookup_step_def split: if_splits)
  with assms(1) obtain es where es: "settled v6 env (loaded (loader s) texts) (entries s) (first_entry s) (answers s) es"
    and out: "loader_outside (loader s)" "\<forall>j < n. lookup_outside (lookups s ! j)" "length (lookups s) = n"
      "loads_last (loader s) texts"
    by (auto simp: sharing_ok_def)
  from es obtain as where "host_list (entries s) (first_entry s) as es" "entries_usable es"
    by (auto simp: settled_def chain_heap_def)
  moreover from out(2) assms(2) LookWaiting obtain b where "request_wf req0 b" by fastforce
  ultimately have "walking_ok v6 env (loaded (loader s) texts) (entries s) (first_entry s) (answers s) (Walking req0 (first_entry s))"
    using walking_okI [OF es] by blast
  with r out assms(2) show ?thesis by (auto simp: sharing_ok_def nth_list_update simp del: walking_ok.simps)
next
  case (Walking req0 entry)
  from walk_step_ok [OF assms(1,2) this assms(4)] show ?thesis .
next
  case (Unlocking req0 status)
  note inv = sharing_ok_LookupD [OF assms(1,2), unfolded Unlocking, simplified]
  from inv(3) obtain es where "settled v6 env (loaded (loader s) texts) (entries s) (first_entry s) (answers s) es"
    "lookup_entry req0 es = Inr status" by blast
  then have "settled v6 env (loaded (loader s) texts) (entries s) (first_entry s) (answers s @ [(req0, status)]) es"
    by (auto simp: settled_def intro: one_at_a_time.lookup)
  with inv(1,2,4,5,6) Unlocking assms(2,4) show ?thesis
    by (auto simp: lookup_step_def sharing_ok_def nth_list_update)
qed

lemma sharing_ok_reachable:
  assumes "malloc_contract pick" "sharing_reachable pick v6 env n texts s"
  shows "sharing_ok v6 env n texts s"
  using assms(2)
proof induction
  case init
  show ?case by (rule sharing_ok_init)
next
  case (load texts s handle s')
  from load_step_ok [OF assms(1) load.IH load.hyps(2)] show ?case by simp
next
  case (look texts s i req a s')
  from lookup_step_ok [OF look.IH look.hyps(2-4)] show ?case by simp
qed

text \<open>Whoever holds the mutex can go on.\<close>

lemma holder_steps:
  assumes "sharing_ok v6 env n texts s"
  shows "(mtx s = Some Loader \<longrightarrow> load_step pick v6 env handle s \<noteq> None)
    \<and> (mtx s = Some (Lookup i) \<longrightarrow> i < n \<and> lookup_step i req s \<noteq> None)"
  using assms
  by (auto simp: sharing_ok_def load_step_def lookup_step_def split: option.splits
      elim!: loading_ok.elims walking_ok.elims)

section \<open>The property\<close>

text \<open>
  C7: reloads and lookups are atomic.  Under every interleaving of the event loop and any
  number of workers, at the granularity of single entries and wherever \<open>malloc\<close> places
  them: the answers given so far are those of a sequence of whole lookups and of reloads
  that each take in a whole file, namely the files that \<open>fopen\<close> has delivered in this run, in
  the order in which they were delivered, all of them but the one that is being loaded; when
  the mutex is free, the heap holds exactly the list of that sequence, each entry once; no
  step of a lookup faults, and a step of a reload faults only on a line on which the parser
  itself does, so that no thread meets a freed entry; and whoever holds the mutex can take
  a step.
\<close>

theorem reloads_and_lookups_atomic:
  assumes "malloc_contract pick" "sharing_reachable pick v6 env n texts s"
  shows "(\<exists>es done. one_at_a_time v6 env done es (answers s)
      \<and> (if loader s = Watching then texts = done else \<exists>text. texts = done @ [text])
      \<and> (mtx s = None \<longrightarrow> chain_heap (entries s) (first_entry s) es))
    \<and> (\<forall>i req a e. i < n \<longrightarrow> request_wf req a \<longrightarrow> lookup_step i req s \<noteq> Some (Inl e))
    \<and> (\<forall>handle e. load_step pick v6 env handle s = Some (Inl e) \<longrightarrow> bad_line v6 env (loader s) e)
    \<and> (\<forall>handle. mtx s = Some Loader \<longrightarrow> load_step pick v6 env handle s \<noteq> None)
    \<and> (\<forall>i req. mtx s = Some (Lookup i) \<longrightarrow> i < n \<and> lookup_step i req s \<noteq> None)"
proof -
  have ok: "sharing_ok v6 env n texts s" by (rule sharing_ok_reachable [OF assms])
  let ?done = "loaded (loader s) texts"
  obtain es where "one_at_a_time v6 env ?done es (answers s)"
    "mtx s = None \<longrightarrow> chain_heap (entries s) (first_entry s) es"
    using ok sharing_ok_answers [OF ok] by (cases "mtx s") (auto simp: sharing_ok_def settled_def)
  moreover have "if loader s = Watching then texts = ?done else \<exists>text. texts = ?done @ [text]"
    using ok by (cases "loader s") (auto simp: sharing_ok_def intro: append_butlast_last_id [symmetric])
  ultimately have "\<exists>es done. one_at_a_time v6 env done es (answers s)
      \<and> (if loader s = Watching then texts = done else \<exists>text. texts = done @ [text])
      \<and> (mtx s = None \<longrightarrow> chain_heap (entries s) (first_entry s) es)"
    by (intro exI [of _ es] exI [of _ ?done] conjI)
  moreover have "lookup_step i req s \<noteq> Some (Inl e)" if "i < n" "request_wf req a" for i req a e
    using lookup_step_ok [OF ok that] by auto
  moreover have "bad_line v6 env (loader s) e" if "load_step pick v6 env handle s = Some (Inl e)" for handle e
    using load_step_ok [OF assms(1) ok that] by simp
  ultimately show ?thesis using holder_steps [OF ok] by blast
qed

text \<open>A schedule: which thread runs next, with what \<open>fopen\<close> finds or which request it is asked.\<close>

fun run_schedule ::
  "(host_cell heap \<Rightarrow> addr) \<Rightarrow> bool \<Rightarrow> net_env \<Rightarrow> (string option + nat \<times> request) list \<Rightarrow> sharing \<Rightarrow> sharing option" where
  "run_schedule pick v6 env [] s = Some s"
| "run_schedule pick v6 env (Inl handle # sched) s =
     (case load_step pick v6 env handle s of
        Some (Inr s') \<Rightarrow> run_schedule pick v6 env sched s' | _ \<Rightarrow> None)"
| "run_schedule pick v6 env (Inr (i, req) # sched) s =
     (case lookup_step i req s of
        Some (Inr s') \<Rightarrow> run_schedule pick v6 env sched s' | _ \<Rightarrow> None)"

text \<open>The files such a schedule has \<open>fopen\<close> deliver.\<close>

fun delivers ::
  "(host_cell heap \<Rightarrow> addr) \<Rightarrow> bool \<Rightarrow> net_env \<Rightarrow> (string option + nat \<times> request) list \<Rightarrow> sharing \<Rightarrow> string list
     \<Rightarrow> string list" where
  "delivers pick v6 env [] s texts = texts"
| "delivers pick v6 env (Inl handle # sched) s texts =
     (case load_step pick v6 env handle s of
        Some (Inr s') \<Rightarrow> delivers pick v6 env sched s' (delivered s handle texts) | _ \<Rightarrow> texts)"
| "delivers pick v6 env (Inr (i, req) # sched) s texts =
     (case lookup_step i req s of
        Some (Inr s') \<Rightarrow> delivers pick v6 env sched s' texts | _ \<Rightarrow> texts)"

lemma run_schedule_reachable:
  "run_schedule pick v6 env sched s = Some s' \<Longrightarrow> sharing_reachable pick v6 env n texts s \<Longrightarrow>
     \<forall>i req. Inr (i, req) \<in> set sched \<longrightarrow> i < n \<and> (\<exists>a. request_wf req a) \<Longrightarrow>
     sharing_reachable pick v6 env n (delivers pick v6 env sched s texts) s'"
proof (induction pick v6 env sched s arbitrary: texts rule: run_schedule.induct)
  case (2 pick v6 env handle sched s)
  then obtain s1 where s1: "load_step pick v6 env handle s = Some (Inr s1)" "run_schedule pick v6 env sched s1 = Some s'"
    by (auto split: option.splits sum.splits)
  from sharing_reachable.load [OF "2.prems"(2) s1(1)]
  have "sharing_reachable pick v6 env n (delivers pick v6 env sched s1 (delivered s handle texts)) s'"
    by (rule "2.IH" [OF s1(1) refl s1(2)]) (use "2.prems"(3) in simp)
  with s1(1) show ?case by simp
next
  case (3 pick v6 env i req sched s)
  then obtain s1 where s1: "lookup_step i req s = Some (Inr s1)" "run_schedule pick v6 env sched s1 = Some s'"
    by (auto split: option.splits sum.splits)
  from "3.prems"(3) obtain a where "i < n" "request_wf req a" by auto
  from sharing_reachable.look [OF "3.prems"(2) this s1(1)]
  have "sharing_reachable pick v6 env n (delivers pick v6 env sched s1 texts) s'"
    by (rule "3.IH" [OF s1(1) refl s1(2)]) (use "3.prems"(3) in simp)
  with s1(1) show ?case by simp
qed simp

definition one_rule :: string where
  "one_rule = ''10.0.0.1 allow'' @ [NL]"

definition ask :: "string option + nat \<times> request" where "ask = Inr (0, request_1)"

text \<open>A lookup that starts while a reload waits for it, and one after the reload.\<close>

definition contended :: "(string option + nat \<times> request) list" where
  "contended = [Inl (Some one_rule), ask, ask, ask, ask, Inl None, Inl None, Inl None, Inl None, ask, ask, ask, ask]"

lemma contended_run:
  "\<exists>s. run_schedule above_all True two_hosts contended (sharing_init 1) = Some s \<and> mtx s = None
    \<and> loader s = Watching \<and> delivers above_all True two_hosts contended (sharing_init 1) [] = [one_rule]
    \<and> answers s = [(request_1, HANDLER_GO_ON), (request_1, HANDLER_ALLOW)]"
proof -
  have "file_line_ok True two_hosts (Rule ''10.0.0.1'' ''allow'' False)"
    by (simp add: two_hosts_def host_token_def valid_address_def LINE_MAX_def)
  from parse_line_rule [OF this] obtain e where
    e: "parse_line True two_hosts (cstr one_rule) = Inr (Some e)" "entry_of True two_hosts (''10.0.0.1'', ''allow'') e"
    by (auto simp: one_rule_def)
  from e(2) have sa: "sockaddr_of True two_hosts ''10.0.0.1'' (ip_sockaddr (he_address e))" and
    flag: "he_flag e = HANDLER_ALLOW"
    by (simp_all add: entry_of_def flag_status_def upper_char_def char_of_def)
  then have cmp: "compare_addresses (ip_addr request_1) (he_address e) = Inr 1"
    by (simp add: sockaddr_of_def two_hosts_def compare_addresses_def request_1_def init_value_def split: if_splits)
  have "fgets LINE_MAX one_rule = Some (one_rule, [])" "fgets LINE_MAX [] = None"
    by (simp_all add: fgets_def one_rule_def LINE_MAX_def numeral_eq_Suc)
  with e(1) cmp flag show ?thesis
    by (simp add: contended_def ask_def sharing_init_def load_step_def lookup_step_def
        read_entry_run [OF above_all_contract] visit_entry_def init_value_def delivered_def)
qed

theorem reloads_and_lookups_atomic_witness:
  "\<exists>s es. sharing_reachable above_all True two_hosts 1 [one_rule] s \<and> length (answers s) = 2
    \<and> one_at_a_time True two_hosts [one_rule] es (answers s) \<and> chain_heap (entries s) (first_entry s) es"
proof -
  obtain s where s: "run_schedule above_all True two_hosts contended (sharing_init 1) = Some s" "mtx s = None"
    "loader s = Watching" "delivers above_all True two_hosts contended (sharing_init 1) [] = [one_rule]"
    "answers s = [(request_1, HANDLER_GO_ON), (request_1, HANDLER_ALLOW)]"
    using contended_run by auto
  have "sharing_reachable above_all True two_hosts 1 (delivers above_all True two_hosts contended (sharing_init 1) []) s"
    using request_1_wf by (intro run_schedule_reachable [OF s(1) sharing_reachable.init])
      (auto simp: contended_def ask_def)
  then have reach: "sharing_reachable above_all True two_hosts 1 [one_rule] s" unfolding s(4) .
  from reloads_and_lookups_atomic [OF above_all_contract reach] s(2,3) obtain es where
    "one_at_a_time True two_hosts [one_rule] es (answers s)" "chain_heap (entries s) (first_entry s) es" by auto
  with reach s(5) show ?thesis by (intro exI [of _ s] exI [of _ es]) simp
qed

end
