(* ===== verification/Teardown.thy ===== *)
theory Teardown
  imports Host_Chain "HOL-Library.Multiset"
begin

text \<open>
  Who frees what at the end of \<open>main\<close>: the \<open>plugin_free\<close> hooks of the three plugins,
  \<open>plugin_unload\<close> (\<open>webcontrol_plugin.c\<close>), \<open>buffer_free\<close> (\<open>webcontrol_buffer.c\<close>), the blocks
  of \<open>main\<close> itself, and libconfuse's \<open>cfg_free\<close>, which frees the strings the configuration
  was parsed into.

  The blocks are objects with pointers to each other; using or freeing one that is not
  allocated is the fault \<open>BadPointer\<close>, and so is a call into a library that was closed.
\<close>

section \<open>Blocks\<close>

datatype free_hook = Txtfile_Free | Memcached_Free | ActiveDirectory_Free

record plugin_block =
  pb_name :: "addr option"
  pb_data :: "addr option"
  pb_lib :: nat
  pb_free :: "free_hook option"

datatype object =
    Bytes
  | Buffer_Object "addr option"        \<comment> \<open>\<open>b->ptr\<close>\<close>
  | Plugin_Object plugin_block
  | Config_Object                      \<comment> \<open>\<open>plugin_config\<close> of memcached and ActiveDirectory\<close>
  | Txtfile_Object "addr option" "host_cell heap" "addr option"
      \<comment> \<open>\<open>plugin_data\<close> of txtfile: \<open>file_stat\<close>, its entries, \<open>entry_chain\<close>\<close>

record process =
  objects :: "object heap"
  open_libs :: "nat list"

definition load_plugin :: "object heap \<Rightarrow> addr option \<Rightarrow> plugin_block c_result" where
  "load_plugin h p = c_bind (hp_load h p) (\<lambda>x. case x of Plugin_Object pb \<Rightarrow> Inr pb | _ \<Rightarrow> Inl BadPointer)"

section \<open>Freeing\<close>

definition buffer_free :: "object heap \<Rightarrow> addr option \<Rightarrow> object heap c_result" where
  "buffer_free h b =
     (if b = None then Inr h
      else c_bind (hp_load h b) (\<lambda>x.
        case x of
          Buffer_Object ptr \<Rightarrow> c_bind (hp_free h ptr) (\<lambda>h. hp_free h b)
        | _ \<Rightarrow> Inl BadPointer))"

definition txtfile_free_at :: "object heap \<Rightarrow> addr option \<Rightarrow> object heap c_result" where
  "txtfile_free_at h p =
     c_bind (load_plugin h p) (\<lambda>pb.
     c_bind (hp_load h (pb_data pb)) (\<lambda>x.
     case x of
       Txtfile_Object stat hosts chain \<Rightarrow>
         c_bind (hp_free h stat) (\<lambda>h.
         c_bind (clear_entries_at hosts chain) (\<lambda>(hosts, chain).
         hp_store h (pb_data pb) (Txtfile_Object stat hosts chain)))
     | _ \<Rightarrow> Inl BadPointer))"

definition memcached_free_at :: "object heap \<Rightarrow> addr option \<Rightarrow> object heap c_result" where
  "memcached_free_at h p =
     c_bind (load_plugin h p) (\<lambda>pb.
     c_bind (c_assert (pb_data pb \<noteq> None)) (\<lambda>_.
     c_bind (hp_load h (pb_data pb)) (\<lambda>_.
     c_bind (hp_free h (pb_data pb)) (\<lambda>h.
     hp_store h p (Plugin_Object (pb\<lparr>pb_data := None\<rparr>))))))"

definition activedirectory_free_at :: "object heap \<Rightarrow> addr option \<Rightarrow> object heap c_result" where
  "activedirectory_free_at h p = c_bind (load_plugin h p) (\<lambda>pb. hp_free h (pb_data pb))"

fun free_hook_at :: "free_hook \<Rightarrow> object heap \<Rightarrow> addr option \<Rightarrow> object heap c_result" where
  "free_hook_at Txtfile_Free = txtfile_free_at"
| "free_hook_at Memcached_Free = memcached_free_at"
| "free_hook_at ActiveDirectory_Free = activedirectory_free_at"

definition plugin_unload :: "process \<Rightarrow> addr option \<Rightarrow> process c_result" where
  "plugin_unload s p =
     c_bind (c_assert (p \<noteq> None)) (\<lambda>_.
     c_bind (load_plugin (objects s) p) (\<lambda>pb.
     c_bind (if pb_name pb = None then Inr (objects s) else buffer_free (objects s) (pb_name pb)) (\<lambda>h.
     if pb_lib pb \<notin> set (open_libs s) then Inl BadPointer
     else c_bind (hp_free h p) (\<lambda>h. Inr (s\<lparr>objects := h, open_libs := remove1 (pb_lib pb) (open_libs s)\<rparr>)))))"

text \<open>One round of the loop over the plugins; the hook is code of the plugin's library.\<close>

definition release_plugin :: "process \<Rightarrow> addr \<Rightarrow> process c_result" where
  "release_plugin s p =
     c_bind (load_plugin (objects s) (Some p)) (\<lambda>pb.
     case pb_free pb of
       None \<Rightarrow> Inr s
     | Some hook \<Rightarrow>
         if pb_lib pb \<notin> set (open_libs s) then Inl BadPointer
         else c_bind (free_hook_at hook (objects s) (Some p)) (\<lambda>h.
           plugin_unload (s\<lparr>objects := h\<rparr>) (Some p)))"

text \<open>
  The end of \<open>main\<close>: \<open>plugins\<close> are the entries of \<open>webcontrol->plugins\<close>, \<open>cfg_strings\<close> the
  strings that belong to the configuration.
\<close>

record main_blocks =
  mb_plugins :: "addr list"
  mb_plugin_list :: "addr option"
  mb_plugin_array :: addr
  mb_cfg_strings :: "addr list"
  mb_webcontrol :: addr
  mb_workers :: addr

definition free_blocks :: "object heap \<Rightarrow> addr list \<Rightarrow> object heap c_result" where
  "free_blocks h as = c_fold (\<lambda>h a. hp_free h (Some a)) h as"

definition free_main_blocks :: "main_blocks \<Rightarrow> object heap \<Rightarrow> object heap c_result" where
  "free_main_blocks m h =
     c_bind (if mb_plugin_list m = None then Inr h else buffer_free h (mb_plugin_list m)) (\<lambda>h.
     c_bind (hp_free h (Some (mb_plugin_array m))) (\<lambda>h.
     c_bind (free_blocks h (mb_cfg_strings m)) (\<lambda>h.
     c_bind (hp_free h (Some (mb_webcontrol m))) (\<lambda>h. hp_free h (Some (mb_workers m))))))"

definition main_end :: "main_blocks \<Rightarrow> process \<Rightarrow> process c_result" where
  "main_end m s =
     c_bind (c_fold release_plugin s (mb_plugins m)) (\<lambda>s.
     c_bind (free_main_blocks m (objects s)) (\<lambda>h. Inr (s\<lparr>objects := h\<rparr>)))"

text \<open>What \<open>webcontrol_memcached_processconfig\<close> frees: every server string it was given.\<close>

definition processconfig_frees :: "addr list \<Rightarrow> process \<Rightarrow> process c_result" where
  "processconfig_frees servers s = c_bind (free_blocks (objects s) servers) (\<lambda>h. Inr (s\<lparr>objects := h\<rparr>))"

text \<open>
  The \<open>config_file_parsed\<close> hooks after the configuration was read, as far as they free blocks:
  only that of memcached does.  \<open>servers\<close> are the strings of the option \<open>servers\<close> in its section
  (one, 127.0.0.1, where the configuration does not set it).
\<close>

definition config_frees :: "addr list \<Rightarrow> process \<Rightarrow> addr \<Rightarrow> process c_result" where
  "config_frees servers s p =
     c_bind (load_plugin (objects s) (Some p)) (\<lambda>pb.
     if pb_free pb = Some Memcached_Free then processconfig_frees servers s else Inr s)"

definition config_hooks_free :: "addr list \<Rightarrow> main_blocks \<Rightarrow> process \<Rightarrow> process c_result" where
  "config_hooks_free servers m s = c_fold (config_frees servers) s (mb_plugins m)"

section \<open>Ownership\<close>

text \<open>
  The blocks of a loaded plugin: those that its hook and \<open>plugin_unload\<close> free, and those
  that stay allocated when the program ends (all of a plugin without a \<open>plugin_free\<close> hook,
  the \<open>plugin_data\<close> of txtfile).
\<close>

fun hook_blocks :: "object heap \<Rightarrow> free_hook \<Rightarrow> addr option \<Rightarrow> addr list \<Rightarrow> addr list \<Rightarrow> bool" where
  "hook_blocks h Txtfile_Free data freed kept \<longleftrightarrow>
     (\<exists>d f hosts chain es. data = Some d \<and> map_of h d = Some (Txtfile_Object (Some f) hosts chain)
        \<and> map_of h f = Some Bytes \<and> chain_heap hosts chain es \<and> freed = [f] \<and> kept = [d])"
| "hook_blocks h hook data freed kept \<longleftrightarrow>
     (\<exists>d. data = Some d \<and> map_of h d = Some Config_Object \<and> freed = [d] \<and> kept = [])"

definition plugin_blocks :: "object heap \<Rightarrow> addr \<Rightarrow> plugin_block \<Rightarrow> addr list \<Rightarrow> addr list \<Rightarrow> bool" where
  "plugin_blocks h a pb freed kept \<longleftrightarrow>
     (\<exists>b q. map_of h a = Some (Plugin_Object pb) \<and> pb_name pb = Some b
        \<and> map_of h b = Some (Buffer_Object (Some q)) \<and> map_of h q = Some Bytes
        \<and> (case pb_free pb of
             None \<Rightarrow> freed = [] \<and> kept = [a, b, q]
           | Some hook \<Rightarrow> \<exists>fs. hook_blocks h hook (pb_data pb) fs kept \<and> freed = a # b # q # fs))"

lemma hook_blocks_cong:
  "(\<And>x. x \<in> set (freed @ kept) \<Longrightarrow> map_of h' x = map_of h x) \<Longrightarrow>
     hook_blocks h hook data freed kept \<Longrightarrow> hook_blocks h' hook data freed kept"
  by (cases hook) auto

lemma plugin_blocks_cong:
  assumes "\<And>x. x \<in> set (freed @ kept) \<Longrightarrow> map_of h' x = map_of h x" "plugin_blocks h a pb freed kept"
  shows "plugin_blocks h' a pb freed kept"
  using assms hook_blocks_cong [of _ kept h' h]
  by (fastforce simp: plugin_blocks_def split: option.splits)

lemma free_Some: "map_of h a = Some x \<Longrightarrow> \<exists>h'. hp_free h (Some a) = Inr h' \<and> map_of h' = (map_of h)(a := None)"
  by (simp add: mem_simps AList.delete_conv')

lemma store_Some:
  "map_of h a = Some x \<Longrightarrow> \<exists>h'. hp_store h (Some a) y = Inr h' \<and> map_of h' = (map_of h)(a \<mapsto> y)"
  by (simp add: hp_store_def AList.update_conv')

lemma buffer_free_ok:
  assumes "map_of h b = Some (Buffer_Object (Some q))" "map_of h q = Some x" "b \<noteq> q"
  shows "\<exists>h'. buffer_free h (Some b) = Inr h' \<and> map_of h' = (map_of h)(q := None, b := None)"
proof -
  from free_Some [OF assms(2)] obtain h1 where h1: "hp_free h (Some q) = Inr h1" "map_of h1 = (map_of h)(q := None)"
    by blast
  with assms free_Some [of h1 b] show ?thesis by (auto simp: buffer_free_def mem_simps)
qed


lemma free_blocks_ok:
  "distinct as \<Longrightarrow> set as \<subseteq> dom (map_of h) \<Longrightarrow>
     \<exists>h'. free_blocks h as = Inr h' \<and> map_of h' = map_of h |` (- set as)"
proof (induction as arbitrary: h)
  case Nil
  show ?case by (simp add: free_blocks_def)
next
  case (Cons a as)
  then obtain x where "map_of h a = Some x" by auto
  from free_Some [OF this] obtain h1 where h1: "hp_free h (Some a) = Inr h1" "map_of h1 = (map_of h)(a := None)"
    by blast
  with Cons.prems have "set as \<subseteq> dom (map_of h1)" by auto
  with Cons.IH [of h1] Cons.prems obtain h' where "free_blocks h1 as = Inr h'" "map_of h' = map_of h1 |` (- set as)"
    by auto
  with h1 show ?case by (auto simp: free_blocks_def restrict_map_def)
qed

text \<open>One block that is not there is enough.\<close>

lemma free_blocks_bad: "a \<in> set as \<Longrightarrow> map_of h a = None \<Longrightarrow> free_blocks h as = Inl BadPointer"
proof (induction as arbitrary: h)
  case (Cons b as)
  show ?case
  proof (cases "map_of h b")
    case None
    then show ?thesis by (simp add: free_blocks_def hp_free_def)
  next
    case (Some x)
    from free_Some [OF this] obtain h1 where h1: "hp_free h (Some b) = Inr h1" "map_of h1 = (map_of h)(b := None)"
      by blast
    with Some Cons.prems have "a \<in> set as" "map_of h1 a = None" by auto
    from Cons.IH [OF this] h1 show ?thesis by (simp add: free_blocks_def)
  qed
qed simp

text \<open>From \<open>h\<close> to \<open>h'\<close> the blocks \<open>freed\<close> are gone, \<open>kept\<close> may have changed, all others are as before.\<close>

definition released :: "object heap \<Rightarrow> object heap \<Rightarrow> addr list \<Rightarrow> addr list \<Rightarrow> bool" where
  "released h h' freed kept \<longleftrightarrow>
     (\<forall>x. x \<notin> set (freed @ kept) \<longrightarrow> map_of h' x = map_of h x)
     \<and> (\<forall>x \<in> set freed. map_of h' x = None) \<and> (\<forall>x \<in> set kept. map_of h' x \<noteq> None)"

lemma free_hook_ok:
  assumes "hook_blocks h hook (pb_data pb) fs kept" "map_of h a = Some (Plugin_Object pb)"
    and "distinct (fs @ kept)" "a \<notin> set (fs @ kept)"
  obtains h' pb' where "free_hook_at hook h (Some a) = Inr h'" "map_of h' a = Some (Plugin_Object pb')"
    "pb_name pb' = pb_name pb" "pb_lib pb' = pb_lib pb" "\<forall>x \<in> set fs. map_of h' x = None"
    "\<forall>x \<in> set kept. map_of h' x \<noteq> None" "\<forall>x. x \<notin> set (a # fs @ kept) \<longrightarrow> map_of h' x = map_of h x"
proof (cases hook)
  case Txtfile_Free
  with assms(1) obtain d f hosts chain es where d: "pb_data pb = Some d" "fs = [f]" "kept = [d]"
    and h: "map_of h d = Some (Txtfile_Object (Some f) hosts chain)" "map_of h f = Some Bytes"
      "chain_heap hosts chain es" by auto
  from free_Some [OF h(2)] obtain h1 where h1: "hp_free h (Some f) = Inr h1" "map_of h1 = (map_of h)(f := None)"
    by blast
  with h(1) d assms(3) have "map_of h1 d = Some (Txtfile_Object (Some f) hosts chain)" by auto
  from store_Some [OF this] obtain h2 where h2: "hp_store h1 (Some d) (Txtfile_Object (Some f) [] None) = Inr h2"
    "map_of h2 = (map_of h1)(d \<mapsto> Txtfile_Object (Some f) [] None)" by blast
  have "free_hook_at hook h (Some a) = Inr h2"
    using Txtfile_Free assms(2) d h h1(1) h2(1) clear_entries_at_ok [OF h(3)]
    by (simp add: txtfile_free_at_def load_plugin_def mem_simps)
  with that [of h2 pb] d h h1 h2 assms(2-4) show ?thesis by auto
next
  case Memcached_Free
  with assms(1) obtain d where d: "pb_data pb = Some d" "fs = [d]" "kept = []"
    and h: "map_of h d = Some Config_Object" by auto
  from free_Some [OF h] obtain h1 where h1: "hp_free h (Some d) = Inr h1" "map_of h1 = (map_of h)(d := None)"
    by blast
  with assms(2,4) d have "map_of h1 a = Some (Plugin_Object pb)" by auto
  from store_Some [OF this] obtain h2 where h2: "hp_store h1 (Some a) (Plugin_Object (pb\<lparr>pb_data := None\<rparr>)) = Inr h2"
    "map_of h2 = (map_of h1)(a \<mapsto> Plugin_Object (pb\<lparr>pb_data := None\<rparr>))" by blast
  have "free_hook_at hook h (Some a) = Inr h2"
    using Memcached_Free assms(2) d h h1(1) h2(1)
    by (simp add: memcached_free_at_def load_plugin_def mem_simps)
  with that [of h2 "pb\<lparr>pb_data := None\<rparr>"] d h1 h2 assms(4) show ?thesis by auto
next
  case ActiveDirectory_Free
  with assms(1) obtain d where d: "pb_data pb = Some d" "fs = [d]" "kept = []"
    and h: "map_of h d = Some Config_Object" by auto
  from free_Some [OF h] obtain h1 where h1: "hp_free h (Some d) = Inr h1" "map_of h1 = (map_of h)(d := None)"
    by blast
  have "free_hook_at hook h (Some a) = Inr h1"
    using ActiveDirectory_Free assms(2) d h h1(1)
    by (simp add: activedirectory_free_at_def load_plugin_def mem_simps)
  with that [of h1 pb] d h1 assms(2,4) show ?thesis by auto
qed


lemma plugin_unload_ok:
  assumes "map_of (objects s) a = Some (Plugin_Object pb)" "pb_name pb = Some b"
    and "map_of (objects s) b = Some (Buffer_Object (Some q))" "map_of (objects s) q = Some x"
    and "distinct [a, b, q]" "pb_lib pb \<in> set (open_libs s)"
  shows "\<exists>h'. plugin_unload s (Some a) = Inr (s\<lparr>objects := h', open_libs := remove1 (pb_lib pb) (open_libs s)\<rparr>)
    \<and> map_of h' = (map_of (objects s))(q := None, b := None, a := None)"
proof -
  from buffer_free_ok [OF assms(3,4)] assms(5) obtain h1 where
    h1: "buffer_free (objects s) (Some b) = Inr h1" "map_of h1 = (map_of (objects s))(q := None, b := None)"
    by auto
  with assms(1,5) have "map_of h1 a = Some (Plugin_Object pb)" by auto
  from free_Some [OF this] obtain h2 where "hp_free h1 (Some a) = Inr h2" "map_of h2 = (map_of h1)(a := None)"
    by blast
  with h1 assms(1,2,6) show ?thesis
    by (intro exI [of _ h2]) (simp add: plugin_unload_def load_plugin_def mem_simps)
qed

definition closed_libs :: "plugin_block \<Rightarrow> nat list" where
  "closed_libs pb = (if pb_free pb = None then [] else [pb_lib pb])"

lemma release_plugin_ok:
  assumes own: "plugin_blocks (objects s) a pb freed kept" and "distinct (freed @ kept)"
    and libs: "pb_lib pb \<in> set (open_libs s)"
  shows "\<exists>s'. release_plugin s a = Inr s' \<and> released (objects s) (objects s') freed kept
    \<and> mset (open_libs s') = mset (open_libs s) - mset (closed_libs pb)"
proof -
  from own obtain b q where a: "map_of (objects s) a = Some (Plugin_Object pb)" and b: "pb_name pb = Some b"
    "map_of (objects s) b = Some (Buffer_Object (Some q))" "map_of (objects s) q = Some Bytes"
    and hook: "case pb_free pb of None \<Rightarrow> freed = [] \<and> kept = [a, b, q]
      | Some hook \<Rightarrow> \<exists>fs. hook_blocks (objects s) hook (pb_data pb) fs kept \<and> freed = a # b # q # fs"
    by (auto simp: plugin_blocks_def)
  have load: "load_plugin (objects s) (Some a) = Inr pb" using a by (simp add: load_plugin_def mem_simps)
  show ?thesis
  proof (cases "pb_free pb")
    case None
    with load hook a b show ?thesis by (simp add: release_plugin_def released_def closed_libs_def)
  next
    case (Some hk)
    with hook obtain fs where fs: "hook_blocks (objects s) hk (pb_data pb) fs kept" "freed = a # b # q # fs"
      by auto
    with assms(2) have dist: "distinct (fs @ kept)" "a \<notin> set (fs @ kept)" "b \<notin> set (a # fs @ kept)"
      "q \<notin> set (a # fs @ kept)" "distinct [a, b, q]" by auto
    obtain h1 pb1 where h1: "free_hook_at hk (objects s) (Some a) = Inr h1" "map_of h1 a = Some (Plugin_Object pb1)"
      "pb_name pb1 = pb_name pb" "pb_lib pb1 = pb_lib pb" "\<forall>x \<in> set fs. map_of h1 x = None"
      "\<forall>x \<in> set kept. map_of h1 x \<noteq> None" "\<forall>x. x \<notin> set (a # fs @ kept) \<longrightarrow> map_of h1 x = map_of (objects s) x"
      using free_hook_ok [OF fs(1) a dist(1,2)] by blast
    let ?s1 = "s\<lparr>objects := h1\<rparr>"
    have "map_of (objects ?s1) b = Some (Buffer_Object (Some q))" "map_of (objects ?s1) q = Some Bytes"
      using h1(7) dist(3,4) b(2,3) by simp_all
    with plugin_unload_ok [of ?s1 a pb1 b q] h1 dist(5) b(1) libs obtain h2 where
      h2: "plugin_unload ?s1 (Some a) = Inr (?s1\<lparr>objects := h2, open_libs := remove1 (pb_lib pb) (open_libs s)\<rparr>)"
        "map_of h2 = (map_of h1)(q := None, b := None, a := None)" by auto
    have "released (objects s) h2 freed kept"
      using h1(5-7) h2(2) fs(2) dist by (auto simp: released_def)
    with Some load libs h1(1) h2(1) show ?thesis by (simp add: release_plugin_def closed_libs_def)
  qed
qed

text \<open>All plugins: where each is, its block, and which of its blocks are freed and kept.\<close>

record loaded =
  ld_at :: addr
  ld_block :: plugin_block
  ld_freed :: "addr list"
  ld_kept :: "addr list"

definition owns :: "object heap \<Rightarrow> loaded \<Rightarrow> bool" where
  "owns h l \<longleftrightarrow> plugin_blocks h (ld_at l) (ld_block l) (ld_freed l) (ld_kept l)"

definition all_freed :: "loaded list \<Rightarrow> addr list" where
  "all_freed ls = concat (map ld_freed ls)"

definition all_kept :: "loaded list \<Rightarrow> addr list" where
  "all_kept ls = concat (map ld_kept ls)"

definition loaded_libs :: "loaded list \<Rightarrow> nat multiset" where
  "loaded_libs ls = mset (map (pb_lib \<circ> ld_block) ls)"

text \<open>The libraries of the plugins without a \<open>plugin_free\<close> hook, which are never closed.\<close>

definition left_open :: "loaded list \<Rightarrow> nat multiset" where
  "left_open ls = loaded_libs (filter (\<lambda>l. pb_free (ld_block l) = None) ls)"

lemma released_trans:
  assumes "released h h1 f1 k1" "released h1 h2 f2 k2" "set (f1 @ k1) \<inter> set (f2 @ k2) = {}"
  shows "released h h2 (f1 @ f2) (k1 @ k2)"
  using assms by (fastforce simp: released_def)


definition all_closed :: "loaded list \<Rightarrow> nat multiset" where
  "all_closed ls = mset (concat (map (closed_libs \<circ> ld_block) ls))"

lemma left_open_closed: "loaded_libs ls = left_open ls + all_closed ls"
  by (induction ls) (auto simp: loaded_libs_def left_open_def all_closed_def closed_libs_def)

lemma owns_released:
  assumes "released h h' freed kept" "set (ld_freed l @ ld_kept l) \<inter> set (freed @ kept) = {}" "owns h l"
  shows "owns h' l"
  using assms(3) unfolding owns_def
  by (rule plugin_blocks_cong [rotated]) (use assms(1,2) in \<open>auto simp: released_def\<close>)

lemma release_all_ok:
  "list_all (owns (objects s)) ls \<Longrightarrow> distinct (all_freed ls @ all_kept ls) \<Longrightarrow>
     loaded_libs ls \<subseteq># mset (open_libs s) \<Longrightarrow>
     \<exists>s'. c_fold release_plugin s (map ld_at ls) = Inr s'
       \<and> released (objects s) (objects s') (all_freed ls) (all_kept ls)
       \<and> mset (open_libs s') = mset (open_libs s) - all_closed ls"
proof (induction ls arbitrary: s)
  case Nil
  show ?case by (simp add: released_def all_freed_def all_kept_def all_closed_def)
next
  case (Cons l ls)
  have lib: "pb_lib (ld_block l) \<in> set (open_libs s)"
    using Cons.prems(3) by (auto simp: loaded_libs_def dest: mset_subset_eqD)
  have own: "plugin_blocks (objects s) (ld_at l) (ld_block l) (ld_freed l) (ld_kept l)"
    using Cons.prems(1) by (simp add: owns_def)
  have "distinct (ld_freed l @ ld_kept l)" using Cons.prems(2) by (auto simp: all_freed_def all_kept_def)
  from release_plugin_ok [OF own this lib] obtain s1 where s1: "release_plugin s (ld_at l) = Inr s1"
    "released (objects s) (objects s1) (ld_freed l) (ld_kept l)"
    "mset (open_libs s1) = mset (open_libs s) - mset (closed_libs (ld_block l))" by blast
  have disj: "set (ld_freed l @ ld_kept l) \<inter> set (all_freed ls @ all_kept ls) = {}"
    using Cons.prems(2) by (auto simp: all_freed_def all_kept_def)
  have "list_all (owns (objects s1)) ls"
    unfolding list_all_iff
  proof
    fix k assume k: "k \<in> set ls"
    then have "set (ld_freed k @ ld_kept k) \<subseteq> set (all_freed ls @ all_kept ls)"
      by (auto simp: all_freed_def all_kept_def)
    with disj have "set (ld_freed k @ ld_kept k) \<inter> set (ld_freed l @ ld_kept l) = {}" by blast
    from owns_released [OF s1(2) this] Cons.prems(1) k show "owns (objects s1) k" by (simp add: list_all_iff)
  qed
  moreover have "distinct (all_freed ls @ all_kept ls)"
    using Cons.prems(2) by (auto simp: all_freed_def all_kept_def)
  moreover have "loaded_libs ls \<subseteq># mset (open_libs s1)"
  proof -
    have "loaded_libs ls \<subseteq># mset (open_libs s) - {#pb_lib (ld_block l)#}"
      using Cons.prems(3) by (simp add: loaded_libs_def insert_subset_eq_iff)
    with s1(3) show ?thesis
      by (cases "pb_free (ld_block l)")
        (simp_all add: closed_libs_def subset_mset.trans [OF _ diff_subset_eq_self])
  qed
  ultimately obtain s2 where s2: "c_fold release_plugin s1 (map ld_at ls) = Inr s2"
    "released (objects s1) (objects s2) (all_freed ls) (all_kept ls)"
    "mset (open_libs s2) = mset (open_libs s1) - all_closed ls" using Cons.IH by blast
  from released_trans [OF s1(2) s2(2) disj] s1(1,3) s2(1,3) show ?case
    by (simp add: all_freed_def all_kept_def all_closed_def)
qed

section \<open>The end of \<open>main\<close>\<close>

text \<open>
  The blocks that \<open>main\<close> frees itself, the strings of the configuration included: all of them
  are allocated when \<open>cfg_parse\<close> has returned, before the hooks run.
\<close>

definition main_owns :: "object heap \<Rightarrow> main_blocks \<Rightarrow> addr list \<Rightarrow> bool" where
  "main_owns h m freed \<longleftrightarrow>
     (\<exists>name. (case mb_plugin_list m of
         None \<Rightarrow> name = []
       | Some b \<Rightarrow> \<exists>q. map_of h b = Some (Buffer_Object (Some q)) \<and> map_of h q = Some Bytes \<and> name = [q, b])
     \<and> freed = name @ mb_plugin_array m # mb_cfg_strings m @ [mb_webcontrol m, mb_workers m])
     \<and> set freed \<subseteq> dom (map_of h)"

lemma free_main_blocks_run:
  "free_main_blocks m h =
     c_bind (if mb_plugin_list m = None then Inr h else buffer_free h (mb_plugin_list m)) (\<lambda>h.
     free_blocks h (mb_plugin_array m # mb_cfg_strings m @ [mb_webcontrol m, mb_workers m]))"
proof -
  have "c_bind x Inr = x" for x :: "object heap c_result" by (cases x) auto
  then show ?thesis by (simp add: free_main_blocks_def free_blocks_def c_fold_append)
qed

lemma free_name_ok:
  assumes "case mb_plugin_list m of None \<Rightarrow> name = []
      | Some b \<Rightarrow> \<exists>q. map_of h b = Some (Buffer_Object (Some q)) \<and> map_of h q = Some Bytes \<and> name = [q, b]"
    and "distinct name"
  shows "\<exists>h'. (if mb_plugin_list m = None then Inr h else buffer_free h (mb_plugin_list m)) = Inr h'
    \<and> map_of h' = map_of h |` (- set name)"
proof (cases "mb_plugin_list m")
  case (Some b)
  with assms obtain q where "map_of h b = Some (Buffer_Object (Some q))" "map_of h q = Some Bytes" "b \<noteq> q"
    "name = [q, b]" by auto
  with buffer_free_ok [OF this(1-3)] Some show ?thesis by (auto simp: restrict_map_def fun_eq_iff)
qed (use assms in \<open>simp add: restrict_map_def\<close>)

lemma free_main_blocks_ok:
  assumes "main_owns h m freed" "distinct freed"
  shows "\<exists>h'. free_main_blocks m h = Inr h' \<and> map_of h' = map_of h |` (- set freed)"
proof -
  let ?rest = "mb_plugin_array m # mb_cfg_strings m @ [mb_webcontrol m, mb_workers m]"
  from assms(1) obtain name where name: "case mb_plugin_list m of None \<Rightarrow> name = []
      | Some b \<Rightarrow> \<exists>q. map_of h b = Some (Buffer_Object (Some q)) \<and> map_of h q = Some Bytes \<and> name = [q, b]"
    and freed: "freed = name @ ?rest" "set freed \<subseteq> dom (map_of h)" unfolding main_owns_def by blast
  from free_name_ok [OF name] assms(2) freed(1) obtain h1 where
    h1: "(if mb_plugin_list m = None then Inr h else buffer_free h (mb_plugin_list m)) = Inr h1"
      "map_of h1 = map_of h |` (- set name)" by auto
  have "distinct ?rest" "set ?rest \<subseteq> dom (map_of h1)"
    using assms(2) freed h1(2) by (auto simp: restrict_map_def dom_def split: if_splits)
  from free_blocks_ok [OF this] obtain h2 where "free_blocks h1 ?rest = Inr h2"
    "map_of h2 = map_of h1 |` (- set ?rest)" by blast
  moreover have "- set name \<inter> - set ?rest = - set freed" using freed(1) by auto
  ultimately show ?thesis using h1 by (simp add: free_main_blocks_run)
qed

lemma main_owns_released:
  assumes "released h h' freed kept" "set own \<inter> set (freed @ kept) = {}" "main_owns h m own"
  shows "main_owns h' m own"
proof -
  have "map_of h' x = map_of h x" if "x \<in> set own" for x using that assms(1,2) by (auto simp: released_def)
  with assms(3) show ?thesis by (auto simp: main_owns_def dom_def split: option.splits)
qed

lemma released_dom:
  assumes "released h h' freed kept" "set kept \<subseteq> dom (map_of h)"
    and "set freed \<inter> set kept = {}"
  shows "dom (map_of h') = dom (map_of h) - set freed"
proof (rule set_eqI)
  fix x
  consider "x \<in> set freed" | "x \<in> set kept" "x \<notin> set freed" | "x \<notin> set (freed @ kept)" by auto
  then show "x \<in> dom (map_of h') \<longleftrightarrow> x \<in> dom (map_of h) - set freed"
    using assms by cases (auto simp: released_def domIff)
qed

lemma owns_kept: "list_all (owns h) ls \<Longrightarrow> set (all_kept ls) \<subseteq> dom (map_of h)"
proof -
  have "set (ld_kept l) \<subseteq> dom (map_of h)" if "owns h l" for l
    using that by (auto simp: owns_def plugin_blocks_def split: option.splits elim!: hook_blocks.elims)
  then show "list_all (owns h) ls \<Longrightarrow> ?thesis" by (fastforce simp: all_kept_def list_all_iff)
qed

lemma main_end_released:
  assumes own: "list_all (owns (objects s)) ls" "mb_plugins m = map ld_at ls" "main_owns (objects s) m own"
    and dist: "distinct (all_freed ls @ all_kept ls @ own)" and libs: "loaded_libs ls = mset (open_libs s)"
  shows "\<exists>s1. c_fold release_plugin s (mb_plugins m) = Inr s1
    \<and> released (objects s) (objects s1) (all_freed ls) (all_kept ls)
    \<and> main_owns (objects s1) m own \<and> mset (open_libs s1) = left_open ls"
proof -
  have "distinct (all_freed ls @ all_kept ls)" "loaded_libs ls \<subseteq># mset (open_libs s)" using dist libs by auto
  from release_all_ok [OF own(1) this] own(2) obtain s1 where
    s1: "c_fold release_plugin s (mb_plugins m) = Inr s1"
      "released (objects s) (objects s1) (all_freed ls) (all_kept ls)"
      "mset (open_libs s1) = mset (open_libs s) - all_closed ls" by auto
  moreover have "set own \<inter> set (all_freed ls @ all_kept ls) = {}" using dist by auto
  from main_owns_released [OF s1(2) this own(3)] have "main_owns (objects s1) m own" .
  moreover have "mset (open_libs s1) = left_open ls" using s1(3) left_open_closed [of ls] libs by simp
  ultimately show ?thesis by blast
qed

text \<open>With a string of the configuration gone, \<open>cfg_free\<close> meets it.\<close>

lemma free_main_blocks_bad:
  assumes own: "main_owns h0 m own" "distinct own" and same: "\<forall>x \<in> set own - set servers. map_of h x = map_of h0 x"
    and a: "a \<in> set servers" "map_of h a = None" and servers: "set servers \<subseteq> set (mb_cfg_strings m)"
  shows "free_main_blocks m h = Inl BadPointer"
proof -
  from own obtain name where name: "case mb_plugin_list m of None \<Rightarrow> name = []
      | Some b \<Rightarrow> \<exists>q. map_of h0 b = Some (Buffer_Object (Some q)) \<and> map_of h0 q = Some Bytes \<and> name = [q, b]"
    and freed: "own = name @ mb_plugin_array m # mb_cfg_strings m @ [mb_webcontrol m, mb_workers m]"
    by (auto simp: main_owns_def)
  have "set name \<subseteq> set own - set servers" using own(2) freed servers by auto
  with name same have "case mb_plugin_list m of None \<Rightarrow> name = []
      | Some b \<Rightarrow> \<exists>q. map_of h b = Some (Buffer_Object (Some q)) \<and> map_of h q = Some Bytes \<and> name = [q, b]"
    by (auto split: option.splits)
  moreover have "distinct name" using own(2) freed by simp
  ultimately obtain h1 where "(if mb_plugin_list m = None then Inr h else buffer_free h (mb_plugin_list m)) = Inr h1"
    "map_of h1 = map_of h |` (- set name)" using free_name_ok by blast
  moreover have "map_of h1 a = None" using a(2) calculation(2) by (simp add: restrict_map_def)
  moreover have "a \<in> set (mb_plugin_array m # mb_cfg_strings m @ [mb_webcontrol m, mb_workers m])"
    using a(1) servers by auto
  ultimately show ?thesis using free_blocks_bad [of a _ h1] by (simp add: free_main_blocks_run)
qed

text \<open>Whether the hooks have freed the servers.\<close>

abbreviation is_memcached :: "loaded \<Rightarrow> bool" where
  "is_memcached l \<equiv> pb_free (ld_block l) = Some Memcached_Free"

lemma owns_load: "owns h l \<Longrightarrow> load_plugin h (Some (ld_at l)) = Inr (ld_block l)"
  by (auto simp: owns_def plugin_blocks_def load_plugin_def mem_simps)

lemma config_frees_run:
  "owns (objects s) l \<Longrightarrow> config_frees servers s (ld_at l) = (if is_memcached l then processconfig_frees servers s else Inr s)"
  by (simp add: config_frees_def owns_load)

lemma config_hooks_idle:
  "list_all (owns (objects s)) ls \<Longrightarrow> (\<forall>l \<in> set ls. \<not> is_memcached l) \<or> servers = [] \<Longrightarrow>
     c_fold (config_frees servers) s (map ld_at ls) = Inr s"
  by (induction ls) (auto simp: config_frees_run processconfig_frees_def free_blocks_def)

lemma config_hooks_first:
  assumes "list_all (owns (objects s)) ls" "l \<in> set ls" "is_memcached l"
  shows "\<exists>rest. set rest \<subseteq> set ls \<and>
    c_fold (config_frees servers) s (map ld_at ls) =
      c_bind (processconfig_frees servers s) (\<lambda>s. c_fold (config_frees servers) s (map ld_at rest))"
proof -
  have "\<exists>l \<in> set ls. is_memcached l" using assms(2,3) by blast
  from split_list_first_propE [OF this] obtain xs k ys where
    ls: "ls = xs @ k # ys" "is_memcached k" "\<forall>l \<in> set xs. \<not> is_memcached l" .
  have "c_fold (config_frees servers) s (map ld_at xs) = Inr s"
    using assms(1) ls(1,3) by (intro config_hooks_idle) auto
  moreover have "config_frees servers s (ld_at k) = processconfig_frees servers s"
    using assms(1) ls(1,2) by (simp add: config_frees_run)
  ultimately have "c_fold (config_frees servers) s (map ld_at ls) =
      c_bind (processconfig_frees servers s) (\<lambda>s. c_fold (config_frees servers) s (map ld_at ys))"
    using ls(1) by (simp add: c_fold_append)
  with ls(1) show ?thesis by (intro exI [of _ ys]) auto
qed

text \<open>Once the servers are gone the end of \<open>main\<close> meets them.\<close>

lemma servers_gone:
  assumes "list_all (owns (objects s)) ls" "mb_plugins m = map ld_at ls" "main_owns (objects s) m own"
    and "distinct (all_freed ls @ all_kept ls @ own)" "loaded_libs ls = mset (open_libs s)"
    and "servers \<noteq> []" "distinct servers" "set servers \<subseteq> set (mb_cfg_strings m)"
  obtains h0 where "processconfig_frees servers s = Inr (s\<lparr>objects := h0\<rparr>)" "list_all (owns h0) ls"
    "processconfig_frees servers (s\<lparr>objects := h0\<rparr>) = Inl BadPointer"
    "main_end m (s\<lparr>objects := h0\<rparr>) = Inl BadPointer"
proof -
  have sub: "set servers \<subseteq> set own" using assms(3,8) by (auto simp: main_owns_def)
  with assms(3) have "set servers \<subseteq> dom (map_of (objects s))" by (auto simp: main_owns_def)
  from free_blocks_ok [OF assms(7) this] obtain h0 where h0: "free_blocks (objects s) servers = Inr h0"
    "map_of h0 = map_of (objects s) |` (- set servers)" by blast
  let ?s0 = "s\<lparr>objects := h0\<rparr>"
  have "released (objects s) h0 servers []" using h0(2) by (simp add: released_def)
  have "owns h0 l" if "l \<in> set ls" for l
  proof (rule owns_released [OF \<open>released (objects s) h0 servers []\<close>])
    have "set (ld_freed l @ ld_kept l) \<subseteq> set (all_freed ls @ all_kept ls)"
      using that by (auto simp: all_freed_def all_kept_def)
    moreover have "set (all_freed ls @ all_kept ls) \<inter> set own = {}" using assms(4) by auto
    ultimately show "set (ld_freed l @ ld_kept l) \<inter> set (servers @ []) = {}" using sub by auto
    show "owns (objects s) l" using assms(1) that by (simp add: list_all_iff)
  qed
  then have own: "list_all (owns h0) ls" by (simp add: list_all_iff)
  with release_all_ok [of ?s0 ls] assms(4,5) obtain s1 where
    s1: "c_fold release_plugin ?s0 (map ld_at ls) = Inr s1" "released h0 (objects s1) (all_freed ls) (all_kept ls)"
    by auto
  have same: "map_of (objects s1) x = map_of h0 x" if "x \<in> set own" for x
    using s1(2) that assms(4) by (auto simp: released_def)
  obtain a where a: "a \<in> set servers" using assms(6) by (cases servers) auto
  have "free_main_blocks m (objects s1) = Inl BadPointer"
    using same sub a assms(4) h0(2) by (intro free_main_blocks_bad [OF assms(3) _ _ a _ assms(8)]) auto
  with s1(1) assms(2) have "main_end m ?s0 = Inl BadPointer" by (simp add: main_end_def)
  moreover have "processconfig_frees servers ?s0 = Inl BadPointer"
    using free_blocks_bad [OF a, of h0] a h0(2) by (simp add: processconfig_frees_def)
  ultimately show ?thesis using that [of h0] own h0(1) by (simp add: processconfig_frees_def)
qed

section \<open>Properties\<close>

text \<open>
  C10: the end of the program frees every block it owns exactly once, or frees a memcached
  server twice.  From the state after \<open>cfg_parse\<close>, through the configuration hooks and to
  the end of \<open>main\<close>, for every list of loaded plugins, whatever hooks they have, if their
  blocks and those of \<open>main\<close> are different blocks and every library is still open: when
  memcached is not loaded, or no server is configured for it, everything runs through, no
  block is freed twice or used after it was freed and no hook runs in a library that was
  closed; what is left allocated is exactly what was not \<open>main\<close>'s or a plugin's to free,
  and the libraries left open are those of the plugins without a \<open>plugin_free\<close> hook.  In
  every other case a block that is no longer allocated is used.
\<close>

theorem main_end_frees_once:
  assumes "list_all (owns (objects s)) ls" "mb_plugins m = map ld_at ls" "main_owns (objects s) m own"
    and "distinct (all_freed ls @ all_kept ls @ own)" "loaded_libs ls = mset (open_libs s)"
    and "distinct servers" "set servers \<subseteq> set (mb_cfg_strings m)"
  shows "if servers = [] \<or> Some Memcached_Free \<notin> pb_free ` ld_block ` set ls
    then \<exists>s'. c_bind (config_hooks_free servers m s) (main_end m) = Inr s'
      \<and> dom (map_of (objects s')) = dom (map_of (objects s)) - set (all_freed ls @ own)
      \<and> mset (open_libs s') = left_open ls
    else c_bind (config_hooks_free servers m s) (main_end m) = Inl BadPointer"
proof (cases "servers = [] \<or> Some Memcached_Free \<notin> pb_free ` ld_block ` set ls")
  case True
  then have hooks: "config_hooks_free servers m s = Inr s"
    using config_hooks_idle [OF assms(1), of servers] assms(2) by (force simp: config_hooks_free_def)
  from main_end_released [OF assms(1-5)] obtain s1 where s1: "c_fold release_plugin s (mb_plugins m) = Inr s1"
    "released (objects s) (objects s1) (all_freed ls) (all_kept ls)" "main_owns (objects s1) m own"
    "mset (open_libs s1) = left_open ls" by blast
  have "distinct own" using assms(4) by auto
  from free_main_blocks_ok [OF s1(3) this] obtain h where h: "free_main_blocks m (objects s1) = Inr h"
    "map_of h = map_of (objects s1) |` (- set own)" by blast
  have "set (all_freed ls) \<inter> set (all_kept ls) = {}" using assms(4) by auto
  from released_dom [OF s1(2) owns_kept [OF assms(1)] this] have
    "dom (map_of h) = dom (map_of (objects s)) - set (all_freed ls @ own)" using h(2) by auto
  with s1(1,4) h(1) hooks True show ?thesis by (simp add: main_end_def)
next
  case False
  then obtain l where l: "l \<in> set ls" "is_memcached l" and servers: "servers \<noteq> []" by force
  from servers_gone [OF assms(1-5) servers assms(6,7)] obtain h0 where
    h0: "processconfig_frees servers s = Inr (s\<lparr>objects := h0\<rparr>)" "list_all (owns h0) ls"
      "processconfig_frees servers (s\<lparr>objects := h0\<rparr>) = Inl BadPointer"
      "main_end m (s\<lparr>objects := h0\<rparr>) = Inl BadPointer" .
  from config_hooks_first [OF assms(1) l, of servers] obtain rest where rest: "set rest \<subseteq> set ls"
    "config_hooks_free servers m s = c_fold (config_frees servers) (s\<lparr>objects := h0\<rparr>) (map ld_at rest)"
    using h0(1) assms(2) by (auto simp: config_hooks_free_def)
  then have own: "list_all (owns (objects (s\<lparr>objects := h0\<rparr>))) rest" using h0(2) by (auto simp: list_all_iff)
  have "c_bind (config_hooks_free servers m s) (main_end m) = Inl BadPointer"
  proof (cases "\<exists>k \<in> set rest. is_memcached k")
    case True
    with config_hooks_first [OF own, of _ servers] h0(3) rest(2) show ?thesis by auto
  next
    case False
    with config_hooks_idle [OF own, of servers] rest(2) h0(4) show ?thesis by auto
  qed
  with False show ?thesis by simp
qed

definition demo_entry :: host_entry where
  "demo_entry = \<lparr>he_address = malloc_address True, he_flag = HANDLER_ALLOW\<rparr>"

definition demo_block :: "addr \<Rightarrow> addr option \<Rightarrow> nat \<Rightarrow> free_hook option \<Rightarrow> plugin_block" where
  "demo_block name data lib hook = \<lparr>pb_name = Some name, pb_data = data, pb_lib = lib, pb_free = hook\<rparr>"

text \<open>All three plugins and one without \<open>plugin_free\<close>; 51 and 52 are strings of the configuration.\<close>

definition demo_process :: process where
  "demo_process = \<lparr>objects =
     [(1, Plugin_Object (demo_block 2 (Some 4) 1 (Some Txtfile_Free))), (2, Buffer_Object (Some 3)), (3, Bytes),
      (4, Txtfile_Object (Some 5) [(7, \<lparr>hc_entry = Some demo_entry, hc_next = None\<rparr>)] (Some 7)), (5, Bytes),
      (11, Plugin_Object (demo_block 12 (Some 14) 2 (Some Memcached_Free))), (12, Buffer_Object (Some 13)),
      (13, Bytes), (14, Config_Object),
      (21, Plugin_Object (demo_block 22 (Some 24) 3 (Some ActiveDirectory_Free))), (22, Buffer_Object (Some 23)),
      (23, Bytes), (24, Config_Object),
      (31, Plugin_Object (demo_block 32 None 4 None)), (32, Buffer_Object (Some 33)), (33, Bytes),
      (41, Buffer_Object (Some 42)), (42, Bytes), (43, Bytes), (51, Bytes), (52, Bytes), (61, Bytes), (62, Bytes)],
     open_libs = [1, 2, 3, 4]\<rparr>"

definition demo_loaded :: "loaded list" where
  "demo_loaded =
     [\<lparr>ld_at = 1, ld_block = demo_block 2 (Some 4) 1 (Some Txtfile_Free), ld_freed = [1, 2, 3, 5], ld_kept = [4]\<rparr>,
      \<lparr>ld_at = 11, ld_block = demo_block 12 (Some 14) 2 (Some Memcached_Free), ld_freed = [11, 12, 13, 14], ld_kept = []\<rparr>,
      \<lparr>ld_at = 21, ld_block = demo_block 22 (Some 24) 3 (Some ActiveDirectory_Free), ld_freed = [21, 22, 23, 24], ld_kept = []\<rparr>,
      \<lparr>ld_at = 31, ld_block = demo_block 32 None 4 None, ld_freed = [], ld_kept = [31, 32, 33]\<rparr>]"

definition demo_main :: main_blocks where
  "demo_main = \<lparr>mb_plugins = [1, 11, 21, 31], mb_plugin_list = Some 41, mb_plugin_array = 43,
     mb_cfg_strings = [51, 52], mb_webcontrol = 61, mb_workers = 62\<rparr>"

definition demo_own :: "addr list" where
  "demo_own = [42, 41, 43, 51, 52, 61, 62]"

lemma demo_owned:
  "list_all (owns (objects demo_process)) demo_loaded" "main_owns (objects demo_process) demo_main demo_own"
  "mb_plugins demo_main = map ld_at demo_loaded" "loaded_libs demo_loaded = mset (open_libs demo_process)"
  "distinct (all_freed demo_loaded @ all_kept demo_loaded @ demo_own)"
proof -
  have "chain_heap [(7, \<lparr>hc_entry = Some demo_entry, hc_next = None\<rparr>)] (Some 7) [demo_entry]"
    by (rule chain_heap_push [OF chain_heap_Nil]) simp
  then have "\<exists>es. chain_heap [(7, \<lparr>hc_entry = Some demo_entry, hc_next = None\<rparr>)] (Some 7) es" ..
  then show "list_all (owns (objects demo_process)) demo_loaded"
    by (simp add: demo_loaded_def owns_def plugin_blocks_def demo_process_def demo_block_def)
qed (simp_all add: demo_main_def demo_own_def main_owns_def demo_process_def demo_loaded_def loaded_libs_def
    demo_block_def all_freed_def all_kept_def)

theorem main_end_frees_once_witness:
  "\<exists>s'. c_bind (config_hooks_free [] demo_main demo_process) (main_end demo_main) = Inr s' \<and> dom (map_of (objects s')) = {4, 31, 32, 33}
    \<and> mset (open_libs s') = {#4#}"
proof -
  have "dom (map_of (objects demo_process)) - set (all_freed demo_loaded @ demo_own) = {4, 31, 32, 33}"
    by (auto simp: demo_process_def all_freed_def demo_loaded_def demo_own_def dom_map_of_conv_image_fst)
  moreover have "left_open demo_loaded = {#4#}"
    by (simp add: left_open_def loaded_libs_def demo_loaded_def demo_block_def)
  ultimately show ?thesis
    using main_end_frees_once [OF demo_owned(1,3,2,5,4), of "[]"] by simp
qed



end
