(* ===== verification/Running_Helper.thy ===== *)
theory Running_Helper
  imports Line_Reader Worker_Pool Deployment
begin

text \<open>
  The helper while it runs: the event loop with \<open>stdin_read_cb\<close> and \<open>file_change_cb\<close>, the
  bounded job queue and any number of workers, interleaved (\<open>src/core/main.c\<close>).

  A callback of \<open>stdin_read_cb\<close> that has cut some lines enqueues them one by one and waits
  while the queue is full; meanwhile no other callback runs, but the workers do.  What the
  operating system delivers on stdin and the changes of the watched file are lists.

  Stdout is one stream that the workers, \<open>stdin_read_cb\<close> and the hosts file plugin write to:
  \<open>console\<close> has every text written to it, in order.
\<close>

section \<open>State and steps\<close>

definition JOB_QUEUE_SLOTS :: nat where "JOB_QUEUE_SLOTS = 256"

record 'w running =
  arriving :: "read_result list"
  changes :: "('w \<Rightarrow> (string \<times> 'w) c_result) list"    \<comment> \<open>each with what it writes to stdout\<close>
  line_reader :: reader
  cut_lines :: "buffer list"    \<comment> \<open>cut by the running callback and not yet enqueued\<close>
  worker_pool :: "'w pool"
  console :: "string list"

datatype actor = Event_Stdin | Event_File | Worker_Thread nat

definition running_init :: "nat \<Rightarrow> read_result list \<Rightarrow> ('w \<Rightarrow> (string \<times> 'w) c_result) list \<Rightarrow> 'w \<Rightarrow> 'w running" where
  "running_init n rs chs w =
     \<lparr>arriving = rs, changes = chs, line_reader = reader_init, cut_lines = [], worker_pool = pool_init n [] w,
      console = []\<rparr>"

definition written :: "string \<Rightarrow> string list" where
  "written out = (if out = [] then [] else [out])"

text \<open>The pool after a step of a worker; the replies it has written are on the console.\<close>

definition set_pool :: "'w pool \<Rightarrow> 'w running \<Rightarrow> 'w running" where
  "set_pool p s =
     s\<lparr>worker_pool := p, console := console s @ drop (length (stdout_lines (worker_pool s))) (stdout_lines p)\<rparr>"

definition stdin_step :: "'w running \<Rightarrow> 'w running c_result option" where
  "stdin_step s =
     (case cut_lines s of
        line # lines \<Rightarrow>
          if length (job_queue (worker_pool s)) < JOB_QUEUE_SLOTS
          then Some (Inr (s\<lparr>cut_lines := lines, worker_pool := (worker_pool s)
                 \<lparr>job_queue := job_queue (worker_pool s) @ [Some line]\<rparr>\<rparr>))
          else None
      | [] \<Rightarrow>
          if arriving s = [] \<or> \<not> stdin_watched (line_reader s) then None
          else Some (c_bind (stdin_read_cb (arriving s) (line_reader s)) (\<lambda>(reader, rest, _).
            Inr (s\<lparr>arriving := rest, line_reader := reader\<lparr>jobs := []\<rparr>, cut_lines := jobs reader,
              console := console s @ written (drop (length (rd_stdout (line_reader s))) (rd_stdout reader))\<rparr>))))"

definition file_step :: "'w running \<Rightarrow> 'w running c_result option" where
  "file_step s =
     (if cut_lines s \<noteq> [] then None
      else case changes s of
        [] \<Rightarrow> None
      | change # rest \<Rightarrow> Some (c_bind (change (outside (worker_pool s))) (\<lambda>(out, w).
          Inr (s\<lparr>changes := rest, worker_pool := (worker_pool s)\<lparr>outside := w\<rparr>, console := console s @ written out\<rparr>))))"

definition running_step :: "'w core \<Rightarrow> net_env \<Rightarrow> actor \<Rightarrow> 'w running \<Rightarrow> 'w running c_result option" where
  "running_step core env a s =
     (case a of
        Event_Stdin \<Rightarrow> stdin_step s
      | Event_File \<Rightarrow> file_step s
      | Worker_Thread i \<Rightarrow>
          if i < length (threads (worker_pool s))
          then map_option (\<lambda>r. c_bind r (\<lambda>p. Inr (set_pool p s))) (thread_step core env i (worker_pool s))
          else None)"

inductive running_reachable ::
  "'w core \<Rightarrow> net_env \<Rightarrow> 'w running \<Rightarrow> 'w running \<Rightarrow> bool" for core env s0 where
  start: "running_reachable core env s0 s0"
| after: "running_reachable core env s0 s \<Longrightarrow> running_step core env a s = Some (Inr s') \<Longrightarrow>
    running_reachable core env s0 s'"

section \<open>Where each line is\<close>

definition lines_channels :: "string list \<Rightarrow> size_t multiset" where
  "lines_channels ts = mset (map (\<lambda>t. line_channel (until_nul t)) ts)"

text \<open>The lines that the rest of the input will be cut into, with the text carried over.\<close>

definition coming :: "'w running \<Rightarrow> string \<Rightarrow> string list" where
  "coming s t = (if stdin_watched (line_reader s) then fst (text_reads (arriving s) t) else [])"

definition only_jobs :: "'w pool \<Rightarrow> bool" where
  "only_jobs p \<longleftrightarrow> None \<notin> set (job_queue p) \<and> Terminated \<notin> set (threads p)"

text \<open>What the main thread writes to stdout: the text at the end of the input, and that of a file that cannot be read.\<close>

definition notices :: "string set" where
  "notices = {eof_message, ''ERROR'' @ [NL]}"

definition keeps_world :: "('w \<Rightarrow> bool) \<Rightarrow> ('w \<Rightarrow> (string \<times> 'w) c_result) list \<Rightarrow> bool" where
  "keeps_world wok chs \<longleftrightarrow> (\<forall>change \<in> set chs. \<forall>w out w'. wok w \<longrightarrow> change w = Inr (out, w') \<longrightarrow>
     wok w' \<and> (out = [] \<or> out \<in> notices))"

text \<open>Stdout has the replies of the workers, in their order, and notices.\<close>

definition console_ok :: "'w running \<Rightarrow> bool" where
  "console_ok s \<longleftrightarrow>
     filter reply_line (console s) = stdout_lines (worker_pool s)
     \<and> (\<forall>out \<in> set (console s). reply_line out \<or> out \<in> notices)"

lemma notice_no_reply: "out \<in> notices \<Longrightarrow> \<not> reply_line out"
proof
  assume "out \<in> notices" "reply_line out"
  then have "scan_zu out \<noteq> None" using squid_reply_line [of "line_channel out" out] by (auto simp: reply_line_def)
  moreover have "scan_zu eof_message = None" "scan_zu (''ERROR'' @ [NL]) = None"
    by (simp_all add: scan_zu_def eof_message_def is_space_def is_digit_def less_eq_char_def)
  ultimately show False using \<open>out \<in> notices\<close> by (auto simp: notices_def)
qed

lemma console_ok_notice:
  assumes "console_ok s" "out = [] \<or> out \<in> notices" "stdout_lines (worker_pool s') = stdout_lines (worker_pool s)"
    and "console s' = console s @ written out"
  shows "console_ok s'"
  using assms notice_no_reply by (auto simp: console_ok_def written_def)

lemma console_ok_pool:
  assumes "console_ok s" "stdout_lines p = stdout_lines (worker_pool s) @ outs" "list_all reply_line outs"
  shows "console_ok (set_pool p s)"
proof -
  have "filter reply_line outs = outs" using assms(3) by (simp add: list_all_iff)
  with assms show ?thesis by (auto simp: console_ok_def set_pool_def list_all_iff)
qed

lemma set_pool_simps [simp]:
  "worker_pool (set_pool p s) = p" "arriving (set_pool p s) = arriving s" "changes (set_pool p s) = changes s"
  "line_reader (set_pool p s) = line_reader s" "cut_lines (set_pool p s) = cut_lines s"
  by (simp_all add: set_pool_def)

lemma set_pool_silent: "stdout_lines p = stdout_lines (worker_pool s) \<Longrightarrow> set_pool p s = s\<lparr>worker_pool := p\<rparr>"
  by (simp add: set_pool_def)

text \<open>
  The lines are where they should be: some enqueued, which are accounted for by the pool,
  some cut, the others still to come.
\<close>

definition served :: "('w \<Rightarrow> bool) \<Rightarrow> 'w core \<Rightarrow> nat \<Rightarrow> string list \<Rightarrow> 'w running \<Rightarrow> bool" where
  "served wok core n lines s \<longleftrightarrow>
     (\<exists>t enqueued pend. reader_holds (line_reader s) t [] \<and> reads_ok (arriving s) t
        \<and> list_all2 buf_cstr (cut_lines s) pend \<and> lines = enqueued @ pend @ coming s t
        \<and> pool_ok wok core (lines_channels enqueued) (worker_pool s))
     \<and> length (threads (worker_pool s)) = n \<and> keeps_world wok (changes s) \<and> console_ok s"

definition running_ok :: "('w \<Rightarrow> bool) \<Rightarrow> 'w core \<Rightarrow> nat \<Rightarrow> string list \<Rightarrow> 'w running \<Rightarrow> bool" where
  "running_ok wok core n lines s \<longleftrightarrow> served wok core n lines s \<and> only_jobs (worker_pool s)"

lemma servedE:
  assumes "served wok core n lines s"
  obtains t enqueued pend where "reader_holds (line_reader s) t []" "reads_ok (arriving s) t"
    "list_all2 buf_cstr (cut_lines s) pend" "lines = enqueued @ pend @ coming s t"
    "pool_ok wok core (lines_channels enqueued) (worker_pool s)"
    "length (threads (worker_pool s)) = n" "keeps_world wok (changes s)" "console_ok s"
  using assms unfolding served_def by blast

lemma running_okI:
  assumes "reader_holds (line_reader s) t []" "reads_ok (arriving s) t" "list_all2 buf_cstr (cut_lines s) pend"
    and "lines = enqueued @ pend @ coming s t" "pool_ok wok core (lines_channels enqueued) (worker_pool s)"
    and "only_jobs (worker_pool s)" "length (threads (worker_pool s)) = n" "keeps_world wok (changes s)" "console_ok s"
  shows "running_ok wok core n lines s"
  using assms unfolding running_ok_def served_def by blast

lemma running_okE:
  assumes "running_ok wok core n lines s"
  obtains t enqueued pend where "reader_holds (line_reader s) t []" "reads_ok (arriving s) t"
    "list_all2 buf_cstr (cut_lines s) pend" "lines = enqueued @ pend @ coming s t"
    "pool_ok wok core (lines_channels enqueued) (worker_pool s)"
    "only_jobs (worker_pool s)" "length (threads (worker_pool s)) = n" "keeps_world wok (changes s)" "console_ok s"
  using assms unfolding running_ok_def by (auto elim: servedE)

text \<open>A new pool that still accounts for the same jobs changes nothing for the lines.\<close>

lemma served_pool:
  assumes "served wok core n lines s" "length (threads p) = length (threads (worker_pool s))"
    and "\<And>channels. pool_ok wok core channels (worker_pool s) \<Longrightarrow> pool_ok wok core channels p"
    and "stdout_lines p = stdout_lines (worker_pool s) @ outs"
  shows "served wok core n lines (set_pool p s)"
proof -
  from assms(1) obtain channels where "pool_ok wok core channels (worker_pool s)" "console_ok s" by (rule servedE)
  with assms(3) have "pool_ok wok core channels p" by blast
  with assms(4) have "list_all reply_line outs" by (simp add: pool_ok_def)
  from console_ok_pool [OF \<open>console_ok s\<close> assms(4) this] have "console_ok (set_pool p s)" .
  moreover have "coming (set_pool p s) t = coming s t" for t by (simp add: coming_def)
  ultimately show ?thesis using assms(1-3) unfolding served_def set_pool_simps by (metis (no_types))
qed

text \<open>The steps that are left, at most; a line to come counts for its enqueueing and its job.\<close>

definition line_work :: "'w core \<Rightarrow> nat" where
  "line_work core = 2 * length (core_plugins core) + 5"

definition carried :: "reader \<Rightarrow> string" where
  "carried r = (case tmp_line_buf r of None \<Rightarrow> [] | Some b \<Rightarrow> buf_text b)"

definition running_work :: "'w core \<Rightarrow> 'w running \<Rightarrow> nat" where
  "running_work core s =
     pool_work core (worker_pool s)
     + line_work core * (length (cut_lines s) + length (coming s (carried (line_reader s))))
     + length (arriving s) + length (changes s)"

lemma reader_holds_carried: "reader_holds r t ls \<Longrightarrow> carried r = t"
  by (auto simp: reader_holds_def carried_def buf_holds_def dest: buf_repr_text)

lemma running_ok_init:
  assumes "wok w" "list_all read_fits rs" "sum_list (map read_size rs) \<le> TEXT_LIMIT"
    and "keeps_world wok chs"
  shows "running_ok wok core n (fst (text_reads rs [])) (running_init n rs chs w)"
proof -
  have "pool_ok wok core (lines_channels []) (pool_init n [] w)"
    using pool_init_ok [where wok = wok and w = w and bs = "[]" and ts = "[]" and core = core and n = n and k = 0] assms(1)
    by (simp add: lines_channels_def)
  moreover have "coming (running_init n rs chs w) [] = fst (text_reads rs [])"
    by (simp add: coming_def running_init_def reader_init_def)
  ultimately show ?thesis
    using assms(2-4) reader_holds_init unfolding running_ok_def served_def
    by (auto simp: running_init_def only_jobs_def pool_init_def reads_ok_def console_ok_def intro!: exI [of _ "[]"])
qed

section \<open>Every step keeps the invariant and uses up work\<close>

lemma pool_ok_enqueue:
  assumes "pool_ok wok core (lines_channels ts) p" "only_jobs p" "buf_cstr b t"
  shows "pool_ok wok core (lines_channels (ts @ [t])) (p\<lparr>job_queue := job_queue p @ [Some b]\<rparr>)"
proof -
  from assms(1) obtain bs us k where q: "job_queue p = map Some bs @ replicate k None" "list_all2 buf_cstr bs us"
    unfolding pool_ok_def by blast
  with assms(2) have "k = 0" by (auto simp: only_jobs_def)
  then have "job_queue p @ [Some b] = map Some (bs @ [b]) @ replicate 0 None" using q(1) by simp
  moreover have "list_all2 buf_cstr (bs @ [b]) (us @ [t])" using q(2) assms(3) by (simp add: list_all2_appendI)
  ultimately have "\<exists>bs ts k. job_queue p @ [Some b] = map Some bs @ replicate k None \<and> list_all2 buf_cstr bs ts"
    by blast
  moreover have "accounted (p\<lparr>job_queue := job_queue p @ [Some b]\<rparr>) = accounted p + {#line_channel (until_nul t)#}"
    by (simp add: accounted_def job_channel_Some [OF assms(3)])
  ultimately show ?thesis
    using assms(1,2) by (auto simp: pool_ok_def only_jobs_def lines_channels_def)
qed

lemma pool_ok_outside:
  assumes "pool_ok wok core channels p" "wok w"
  shows "pool_ok wok core channels (p\<lparr>outside := w\<rparr>)"
proof -
  have "accounted (p\<lparr>outside := w\<rparr>) = accounted p" by (simp add: accounted_def)
  with assms show ?thesis unfolding pool_ok_def by auto
qed

lemma pool_work_enqueue:
  "pool_work core (p\<lparr>job_queue := job_queue p @ [Some b]\<rparr>) + 1 = pool_work core p + line_work core"
  by (simp add: pool_work_def job_work_def line_work_def)

text \<open>Without null pointers in the queue no thread ends.\<close>

lemma thread_step_only_jobs:
  assumes "thread_step core env i p = Some (Inr p')" "only_jobs p" "i < length (threads p)"
  shows "only_jobs p'"
proof -
  have upd: "Terminated \<notin> set ((threads p)[i := x])" if "x \<noteq> Terminated" for x
    using assms(2) that set_update_subset_insert [of "threads p" i x] by (auto simp: only_jobs_def)
  have flip: "Inr p' = c_bind m f \<longleftrightarrow> c_bind m f = Inr p'" for m and f :: "'b \<Rightarrow> 'a pool c_result"
    by auto
  show ?thesis
    using assms(1,2) upd
    by (auto simp: flip thread_step_def dequeue_step_def reply_step_def only_jobs_def c_bind_eq_Inr Let_def
        split: thread_at.splits list.splits option.splits if_splits prod.splits elim!: handle_step.elims post_step.elims)
qed

lemma enqueue_line_ok:
  assumes ok: "running_ok wok core n lines s" and cut: "cut_lines s = b # bs"
  defines "s' \<equiv> s\<lparr>cut_lines := bs, worker_pool := (worker_pool s)
    \<lparr>job_queue := job_queue (worker_pool s) @ [Some b]\<rparr>\<rparr>"
  shows "running_ok wok core n lines s' \<and> running_work core s' < running_work core s"
proof
  from ok obtain t enqueued pend where inv: "reader_holds (line_reader s) t []" "reads_ok (arriving s) t"
    "list_all2 buf_cstr (cut_lines s) pend" "lines = enqueued @ pend @ coming s t"
    "pool_ok wok core (lines_channels enqueued) (worker_pool s)"
    and rest: "only_jobs (worker_pool s)" "length (threads (worker_pool s)) = n"
      "keeps_world wok (changes s)" "console_ok s"
    by (rule running_okE)
  from inv(3) assms(2) obtain l ls where l: "pend = l # ls" "buf_cstr b l" "list_all2 buf_cstr bs ls"
    by (auto simp: list_all2_Cons1)
  have "pool_ok wok core (lines_channels (enqueued @ [l])) (worker_pool s')"
    using pool_ok_enqueue [OF inv(5) rest(1) l(2)] by (simp add: s'_def)
  moreover have "lines = (enqueued @ [l]) @ ls @ coming s' t"
    using inv(4) l(1) by (simp add: s'_def coming_def)
  moreover have "only_jobs (worker_pool s')" using rest(1) by (simp add: s'_def only_jobs_def)
  ultimately show "running_ok wok core n lines s'"
    using inv(1,2) l(3) rest(2-4)
    by (intro running_okI [of s' t ls _ "enqueued @ [l]"]) (simp_all add: s'_def console_ok_def)
  show "running_work core s' < running_work core s"
    using pool_work_enqueue [of core "worker_pool s" b] cut
    by (simp add: running_work_def s'_def coming_def)
qed

lemma read_lines_ok:
  assumes ok: "running_ok wok core n lines s" and cut: "cut_lines s = []"
    and watched: "stdin_watched (line_reader s)" "arriving s \<noteq> []"
  shows "\<exists>s'. stdin_step s = Some (Inr s') \<and> running_ok wok core n lines s' \<and> running_work core s' < running_work core s"
proof -
  from ok cut obtain t enqueued where inv: "reader_holds (line_reader s) t []" "reads_ok (arriving s) t"
    "lines = enqueued @ coming s t" "pool_ok wok core (lines_channels enqueued) (worker_pool s)"
    and rest: "only_jobs (worker_pool s)" "length (threads (worker_pool s)) = n"
      "keeps_world wok (changes s)" "console_ok s"
    by (auto elim: running_okE)
  obtain r reads returned t' ls where
    run: "stdin_read_cb (arriving s) (line_reader s) = Inr (r, reads, returned)" and r: "reader_holds r t' ([] @ ls)"
    and reads: "reads_ok reads t'" and res: "loop_result (arriving s) (line_reader s) t r reads returned t' ls"
    and shorter: "length reads < length (arriving s)"
    by (rule stdin_read_cb_ok [OF inv(1,2) watched])
  define out where "out = drop (length (rd_stdout (line_reader s))) (rd_stdout r)"
  define s' where "s' = s\<lparr>arriving := reads, line_reader := r\<lparr>jobs := []\<rparr>, cut_lines := jobs r,
    console := console s @ written out\<rparr>"
  have step: "stdin_step s = Some (Inr s')" using cut watched run by (simp add: stdin_step_def s'_def out_def)
  have "out = [] \<or> out \<in> notices" using res by (auto simp: loop_result_def out_def notices_def split: if_splits)
  then have console: "console_ok s'" by (rule console_ok_notice [OF rest(4)]) (simp_all add: s'_def)
  have coming: "coming s t = ls @ coming s' t'"
    using res watched(1) by (auto simp: loop_result_def coming_def s'_def split: if_splits)
  have js: "list_all2 buf_cstr (jobs r) ls" and holds: "reader_holds (line_reader s') t' []"
    using r by (auto simp: reader_holds_def s'_def)
  have "running_ok wok core n lines s'"
    using inv(3,4) holds reads js coming rest console
    by (intro running_okI [of s' t' ls _ enqueued]) (simp_all add: s'_def)
  moreover have "running_work core s' < running_work core s"
    using reader_holds_carried [OF inv(1)] reader_holds_carried [OF holds] coming cut shorter list_all2_lengthD [OF js]
    by (simp add: running_work_def) (simp add: s'_def)
  ultimately show ?thesis using step by blast
qed

lemma stdin_step_ok:
  assumes "running_ok wok core n lines s" "stdin_step s = Some r"
  shows "\<exists>s'. r = Inr s' \<and> running_ok wok core n lines s' \<and> running_work core s' < running_work core s"
proof (cases "cut_lines s")
  case Nil
  with assms(2) have "stdin_watched (line_reader s)" "arriving s \<noteq> []"
    by (auto simp: stdin_step_def split: if_splits)
  from read_lines_ok [OF assms(1) Nil this] assms(2) show ?thesis by auto
next
  case (Cons b bs)
  from enqueue_line_ok [OF assms(1) this] assms(2) Cons show ?thesis
    by (auto simp: stdin_step_def split: if_splits)
qed

text \<open>The new contents of the watched file may make the reload fault.\<close>

lemma file_step_ok:
  assumes "running_ok wok core n lines s" "file_step s = Some r"
  shows "case r of Inl e \<Rightarrow> \<exists>change \<in> set (changes s). change (outside (worker_pool s)) = Inl e
    | Inr s' \<Rightarrow> running_ok wok core n lines s' \<and> running_work core s' < running_work core s"
proof -
  from assms(2) obtain change chs where ch: "changes s = change # chs"
    "r = c_bind (change (outside (worker_pool s))) (\<lambda>(out, w).
      Inr (s\<lparr>changes := chs, worker_pool := (worker_pool s)\<lparr>outside := w\<rparr>, console := console s @ written out\<rparr>))"
    by (auto simp: file_step_def split: if_splits list.splits)
  show ?thesis
  proof (cases "change (outside (worker_pool s))")
    case (Inl e)
    with ch show ?thesis by simp
  next
    case (Inr result)
    then obtain out w where Inr: "change (outside (worker_pool s)) = Inr (out, w)" by (cases result) auto
    let ?s' = "s\<lparr>changes := chs, worker_pool := (worker_pool s)\<lparr>outside := w\<rparr>, console := console s @ written out\<rparr>"
    from assms(1) obtain t enqueued pend where inv: "reader_holds (line_reader s) t []" "reads_ok (arriving s) t"
      "list_all2 buf_cstr (cut_lines s) pend" "lines = enqueued @ pend @ coming s t"
      "pool_ok wok core (lines_channels enqueued) (worker_pool s)"
      and rest: "only_jobs (worker_pool s)" "length (threads (worker_pool s)) = n" "keeps_world wok (changes s)"
        "console_ok s"
      by (rule running_okE)
    have "wok (outside (worker_pool s))" using inv(5) by (simp add: pool_ok_def)
    moreover have "change \<in> set (changes s)" using ch(1) by simp
    ultimately have w: "wok w" and out: "out = [] \<or> out \<in> notices"
      using rest(3) Inr unfolding keeps_world_def by blast+
    have "console_ok ?s'" by (rule console_ok_notice [OF rest(4) out]) simp_all
    moreover
    have "set chs \<subseteq> set (changes s)" using ch(1) by auto
    with rest(3) have chs: "keeps_world wok chs" unfolding keeps_world_def by blast
    have "pool_ok wok core (lines_channels enqueued) ((worker_pool s)\<lparr>outside := w\<rparr>)"
      by (rule pool_ok_outside [OF inv(5) w])
    moreover have "coming ?s' t = coming s t" by (simp add: coming_def)
    ultimately have "running_ok wok core n lines ?s'"
      using inv(1-4) rest(1,2) chs
      by (intro running_okI [of ?s' t pend _ enqueued]) (simp_all add: only_jobs_def)
    moreover have "running_work core ?s' < running_work core s"
      using ch(1) by (simp add: running_work_def coming_def pool_work_def)
    ultimately show ?thesis using ch(2) Inr by simp
  qed
qed

lemma thread_step_prints:
  assumes "thread_step core env i p = Some (Inr p')"
  shows "\<exists>outs. stdout_lines p' = stdout_lines p @ outs"
proof -
  have flip: "Inr p' = c_bind m f \<longleftrightarrow> c_bind m f = Inr p'" for m and f :: "'b \<Rightarrow> 'a pool c_result"
    by auto
  show ?thesis
    using assms
    by (auto simp: flip thread_step_def dequeue_step_def reply_step_def c_bind_eq_Inr Let_def
        split: thread_at.splits list.splits option.splits if_splits prod.splits elim!: handle_step.elims post_step.elims)
qed

lemma worker_step_served:
  assumes chain: "guarded_chain wok (core_plugins core) bad" and ok: "served wok core n lines s"
    and i: "i < length (threads (worker_pool s))" "thread_step core env i (worker_pool s) = Some r"
  shows "case r of
      Inl e \<Rightarrow> bad e \<and> (\<exists>p \<in> set (core_plugins core). hook_fault (worker_pool s) i p e)
    | Inr p \<Rightarrow> served wok core n lines (set_pool p s) \<and> pool_work core p < pool_work core (worker_pool s)"
proof -
  note step = guarded_chain.thread_step_guarded [OF chain refl _ i]
  from ok obtain enqueued where inv: "pool_ok wok core (lines_channels enqueued) (worker_pool s)" by (rule servedE)
  show ?thesis
  proof (cases r)
    case (Inr p)
    with step [OF inv] have p: "pool_work core p < pool_work core (worker_pool s)"
      "length (threads p) = length (threads (worker_pool s))" by simp_all
    from thread_step_prints i(2) Inr obtain outs where "stdout_lines p = stdout_lines (worker_pool s) @ outs" by blast
    then have "served wok core n lines (set_pool p s)"
      by (rule served_pool [OF ok p(2), rotated]) (use step Inr in auto)
    with p Inr show ?thesis by simp
  qed (use step [OF inv] in simp)
qed

lemma worker_step_ok:
  assumes chain: "guarded_chain wok (core_plugins core) bad" and ok: "running_ok wok core n lines s"
    and i: "i < length (threads (worker_pool s))" "thread_step core env i (worker_pool s) = Some r"
  shows "case r of
      Inl e \<Rightarrow> bad e \<and> (\<exists>p \<in> set (core_plugins core). hook_fault (worker_pool s) i p e)
    | Inr p \<Rightarrow> running_ok wok core n lines (set_pool p s) \<and> running_work core (set_pool p s) < running_work core s"
proof -
  have "served wok core n lines s" and jobs: "only_jobs (worker_pool s)" using ok by (simp_all add: running_ok_def)
  note step = worker_step_served [OF chain this(1) i]
  show ?thesis
  proof (cases r)
    case (Inr p)
    have "only_jobs p" using thread_step_only_jobs [of core env i "worker_pool s" p] i Inr jobs by simp
    moreover have "coming (set_pool p s) x = coming s x" for x by (simp add: coming_def)
    ultimately show ?thesis using step Inr by (simp add: running_ok_def running_work_def)
  qed (use step in simp)
qed

text \<open>The faults a step can end in: that of a reload, or that of a hook a worker asks.\<close>

definition step_fault :: "(fault \<Rightarrow> bool) \<Rightarrow> 'w core \<Rightarrow> actor \<Rightarrow> fault \<Rightarrow> 'w running \<Rightarrow> bool" where
  "step_fault bad core a e s \<longleftrightarrow>
     a = Event_File \<and> (\<exists>change \<in> set (changes s). change (outside (worker_pool s)) = Inl e)
     \<or> bad e \<and> (\<exists>i. \<exists>p \<in> set (core_plugins core). a = Worker_Thread i \<and> i < length (threads (worker_pool s))
         \<and> hook_fault (worker_pool s) i p e)"

lemma running_step_ok:
  assumes chain: "guarded_chain wok (core_plugins core) bad" and ok: "running_ok wok core n lines s"
    and r: "running_step core env a s = Some r"
  shows "case r of Inl e \<Rightarrow> step_fault bad core a e s
    | Inr s' \<Rightarrow> running_ok wok core n lines s' \<and> running_work core s' < running_work core s"
proof (cases a)
  case Event_Stdin
  with r have "stdin_step s = Some r" by (simp add: running_step_def)
  from stdin_step_ok [OF ok this] show ?thesis by auto
next
  case Event_File
  with r have "file_step s = Some r" by (simp add: running_step_def)
  from file_step_ok [OF ok this] Event_File show ?thesis by (cases r) (auto simp: step_fault_def)
next
  case (Worker_Thread i)
  with r obtain r1 where i: "i < length (threads (worker_pool s))" "thread_step core env i (worker_pool s) = Some r1"
    "r = c_bind r1 (\<lambda>p. Inr (set_pool p s))"
    by (auto simp: running_step_def split: if_splits)
  with worker_step_ok [OF chain ok i(1,2)] Worker_Thread show ?thesis by (cases r1) (auto simp: step_fault_def)
qed

lemma running_reachable_ok:
  assumes "guarded_chain wok (core_plugins core) bad" "running_ok wok core n lines s0"
  shows "running_reachable core env s0 s \<Longrightarrow> running_ok wok core n lines s"
proof (induction rule: running_reachable.induct)
  case (after s a s')
  from running_step_ok [OF assms(1) after.IH after.hyps(2)] show ?case by simp
qed (rule assms(2))

text \<open>Nothing left to do: every actor waits for input, for a change of the file or for a job.\<close>

definition idle :: "'w core \<Rightarrow> net_env \<Rightarrow> 'w running \<Rightarrow> bool" where
  "idle core env s \<longleftrightarrow> (\<forall>a. running_step core env a s = None)"

lemma idle_pool:
  assumes "idle core env s"
  shows "\<forall>i < length (threads (worker_pool s)). thread_step core env i (worker_pool s) = None"
proof (intro allI impI)
  fix i assume "i < length (threads (worker_pool s))"
  moreover have "running_step core env (Worker_Thread i) s = None" using assms by (simp add: idle_def)
  ultimately show "thread_step core env i (worker_pool s) = None" by (simp add: running_step_def)
qed

lemma idle_answered:
  assumes ok: "running_ok wok core n lines s" and idle: "idle core env s" and n: "0 < n"
  shows "mset (map line_channel (stdout_lines (worker_pool s))) = lines_channels lines"
proof -
  from ok obtain t enqueued pend where inv: "reader_holds (line_reader s) t []"
    "list_all2 buf_cstr (cut_lines s) pend" "lines = enqueued @ pend @ coming s t"
    "pool_ok wok core (lines_channels enqueued) (worker_pool s)" "only_jobs (worker_pool s)"
    "length (threads (worker_pool s)) = n"
    by (rule running_okE)
  have "threads (worker_pool s) ! 0 \<in> set (threads (worker_pool s))" using inv(6) n by (intro nth_mem) simp
  then have "threads (worker_pool s) ! 0 \<noteq> Terminated" using inv(5) by (auto simp: only_jobs_def)
  moreover have "thread_step core env 0 (worker_pool s) = None" using idle_pool [OF idle] inv(6) n by auto
  ultimately have empty: "job_queue (worker_pool s) = []"
    by (auto simp: thread_step_def dequeue_step_def split: thread_at.splits list.splits option.splits)
  have stdin: "stdin_step s = None" using idle by (auto simp: idle_def running_step_def dest: spec [of _ Event_Stdin])
  then have "cut_lines s = []" using empty by (auto simp: stdin_step_def JOB_QUEUE_SLOTS_def split: list.splits)
  moreover from this stdin have "coming s t = []"
    by (auto simp: stdin_step_def coming_def split: if_splits)
  ultimately have "lines = enqueued" using inv(2,3) by simp
  moreover have "threads (worker_pool s) \<noteq> []" using inv(6) n by auto
  ultimately show ?thesis
    using pool_stuck_answered [OF inv(4), of env] idle_pool [OF idle] by auto
qed

lemma running_step_changes:
  "running_step core env a s = Some (Inr s') \<Longrightarrow> set (changes s') \<subseteq> set (changes s)"
  by (auto simp: running_step_def stdin_step_def file_step_def c_bind_eq_Inr split: actor.splits list.splits if_splits)

lemma running_reachable_changes:
  "running_reachable core env s0 s \<Longrightarrow> set (changes s) \<subseteq> set (changes s0)"
  by (induction rule: running_reachable.induct) (use running_step_changes in blast)+

lemma running_reachable_trans:
  assumes "running_reachable core env s0 s1" "running_reachable core env s1 s2"
  shows "running_reachable core env s0 s2"
  using assms(2,1) by (induction rule: running_reachable.induct) (auto intro: running_reachable.after)

lemma running_finishes:
  assumes "guarded_chain wok (core_plugins core) bad" "\<And>e. \<not> bad e"
  shows "running_ok wok core n lines s \<Longrightarrow> (\<And>change w e. change \<in> set (changes s) \<Longrightarrow> change w \<noteq> Inl e) \<Longrightarrow>
    \<exists>s'. running_reachable core env s s' \<and> idle core env s'"
proof (induction "running_work core s" arbitrary: s rule: less_induct)
  case less
  show ?case
  proof (cases "idle core env s")
    case True
    then show ?thesis using running_reachable.start by blast
  next
    case False
    then obtain a r where r: "running_step core env a s = Some r" by (auto simp: idle_def)
    from running_step_ok [OF assms(1) less.prems(1) r] less.prems(2) assms(2) obtain s1 where
      s1: "r = Inr s1" "running_ok wok core n lines s1" "running_work core s1 < running_work core s"
      by (cases r) (auto simp: step_fault_def)
    have "set (changes s1) \<subseteq> set (changes s)" using running_step_changes r s1(1) by blast
    with less.hyps [OF s1(3,2)] less.prems(2) obtain s' where "running_reachable core env s1 s'" "idle core env s'"
      by blast
    with r s1(1) show ?thesis
      by (meson running_reachable.after running_reachable.start running_reachable_trans)
  qed
qed

section \<open>The deployed helper\<close>

text \<open>
  What \<open>file_change_cb\<close> does to the world when the file has the contents \<open>fs\<close> gives, and what it
  writes to stdout.
\<close>

definition file_changed :: "'w txt_access \<Rightarrow> (string \<Rightarrow> string option) \<Rightarrow> 'w \<Rightarrow> (string \<times> 'w) c_result" where
  "file_changed acc fs w =
     c_bind (file_change_cb (txt_v6 acc) (txt_net acc) fs (txt_get acc w)) (\<lambda>(out, pd).
     Inr (out, txt_put acc pd w))"

lemma file_changed_keeps:
  assumes "data_separate mc ad acc contents"
  shows "keeps_world (helper_ok ad acc contents) (map (file_changed acc) files)"
  unfolding keeps_world_def
proof (intro ballI allI impI)
  fix change w out w' assume "change \<in> set (map (file_changed acc) files)" "change w = Inr (out, w')"
    and ok: "helper_ok ad acc contents w"
  then obtain fs pd where pd: "parse_file (txt_v6 acc) (txt_net acc) fs (txt_get acc w) = Inr (out, pd)"
    "w' = txt_put acc pd w"
    by (auto simp: file_changed_def file_change_cb_def c_bind_eq_Inr)
  have "chain_ok (txt_get acc w)" using ok by (simp add: helper_ok_def txt_ok_def)
  from parse_file_chain_ok [OF pd(1) this] assms ok pd(2) have "helper_ok ad acc contents w'"
    by (simp add: helper_ok_def txt_ok_def data_separate_def cache_sane_def)
  moreover have "out = [] \<or> out \<in> notices"
    using pd(1) by (auto simp: parse_file_def notices_def c_bind_eq_Inr Let_def split: option.splits)
  ultimately show "helper_ok ad acc contents w' \<and> (out = [] \<or> out \<in> notices)" ..
qed

text \<open>Only the directory plugin has a hook that can fault.\<close>

lemma hook_fault_directory:
  assumes "plugin_ok wok (memcached_plugin mc)" "plugin_ok wok (txtfile_plugin acc w0)" "wok (outside s)"
    and "p \<in> set (all_plugins mc ad acc w0)" "hook_fault s i p e"
    and "thread_ok plugins (threads s ! i)"
  shows "\<exists>req ps. threads s ! i = Handling req (activedirectory_plugin ad w0 # ps)
    \<and> webcontrol_activedirectory_handle_request ad req (outside s) = Inl e"
proof -
  from assms(5) obtain req ps h where h: "threads s ! i = Handling req (p # ps)"
    "pl_handle_request p = Some h" "h req (outside s) = Inl e" unfolding hook_fault_def by blast
  with assms(6) obtain a where "request_wf req a" by auto
  with h assms(3) have "\<not> plugin_ok wok p"
    unfolding plugin_ok_def hook_ok_def by fastforce
  with assms(1,2,4) have "p = activedirectory_plugin ad w0"
    by (auto simp: all_plugins_def)
  with h show ?thesis by (auto simp: activedirectory_plugin_hooks)
qed

lemma served_hook_fault:
  assumes "libraries_ok mc ad acc contents" "core_plugins core = all_plugins mc ad acc w0"
    and "served (helper_ok ad acc contents) core n lines s" "i < length (threads (worker_pool s))"
    and "p \<in> set (core_plugins core)" "hook_fault (worker_pool s) i p e"
  shows "\<exists>req ps. threads (worker_pool s) ! i = Handling req (activedirectory_plugin ad w0 # ps)
    \<and> webcontrol_activedirectory_handle_request ad req (outside (worker_pool s)) = Inl e"
proof -
  from assms(3) obtain channels where ok: "pool_ok (helper_ok ad acc contents) core channels (worker_pool s)" by (rule servedE)
  then have "thread_ok (core_plugins core) (threads (worker_pool s) ! i)"
    using assms(4) by (simp add: pool_ok_def list_all_length)
  moreover have "helper_ok ad acc contents (outside (worker_pool s))" using ok by (simp add: pool_ok_def)
  ultimately show ?thesis
    using hook_fault_directory [OF deployed_plugins(1,2) [OF assms(1)] _ assms(5) [unfolded assms(2)] assms(6)] by blast
qed

text \<open>
  C1: the running helper answers everything it is asked.  All three plugins loaded, any
  number of workers at least one, whatever arrives on stdin in whatever pieces, with the
  hosts file changing at any time.  Under every interleaving a step faults only in two
  cases: a reload of a file on which the parser does, and a worker that asks the directory
  plugin, whose value is missing or shorter than the four bytes it is compared with.  Each
  step uses up some of a finite amount of work.  Every text written to stdout is a reply of
  the protocol or one of the two notices of the main thread (the text at the end of the
  input, the ERROR of an unreadable hosts file), which share the stream; among the replies
  no channel is answered more often than asked, and when nothing is left to do every line
  that the input contains has been answered exactly once.  If no change of the file makes
  the parser fault and the directory has no such value, a state with nothing left to do can
  always be reached: the bounded queue never leads to a deadlock.
\<close>

theorem running_helper_answers:
  assumes "libraries_ok mc ad acc contents" "data_separate mc ad acc contents" "helper_ok ad acc contents w"
    and "core_plugins core = all_plugins mc ad acc w0"
    and "list_all read_fits rs" "sum_list (map read_size rs) \<le> TEXT_LIMIT" "0 < n"
    and "running_reachable core env (running_init n rs (map (file_changed acc) files) w) s"
  defines "asked \<equiv> lines_channels (fst (text_reads rs []))"
    and "answered \<equiv> mset (map line_channel (filter reply_line (console s)))"
  shows "(\<forall>a e. running_step core env a s = Some (Inl e) \<longrightarrow>
        a = Event_File \<and> (\<exists>fs \<in> set files. file_changed acc fs (outside (worker_pool s)) = Inl e)
        \<or> directory_fault ad e \<and> (\<exists>i req ps. a = Worker_Thread i
            \<and> threads (worker_pool s) ! i = Handling req (activedirectory_plugin ad w0 # ps)
            \<and> webcontrol_activedirectory_handle_request ad req (outside (worker_pool s)) = Inl e))
    \<and> (\<forall>a s'. running_step core env a s = Some (Inr s') \<longrightarrow> running_work core s' < running_work core s)
    \<and> (\<forall>out \<in> set (console s). squid_reply (line_channel out) out \<or> out \<in> {eof_message, ''ERROR'' @ [NL]})
    \<and> answered \<subseteq># asked \<and> (idle core env s \<longrightarrow> answered = asked)
    \<and> ((\<forall>fs \<in> set files. \<forall>w e. file_changed acc fs w \<noteq> Inl e) \<longrightarrow> (\<nexists>e. directory_fault ad e) \<longrightarrow>
        (\<exists>s'. running_reachable core env s s' \<and> idle core env s'))"
proof -
  let ?wok = "helper_ok ad acc contents"
  let ?s0 = "running_init n rs (map (file_changed acc) files) w"
  have chain: "guarded_chain ?wok (core_plugins core) (directory_fault ad)"
    using all_plugins_guarded [OF assms(1)] assms(4) by simp
  have "running_ok ?wok core n (fst (text_reads rs [])) ?s0"
    by (rule running_ok_init [OF assms(3,5,6) file_changed_keeps [OF assms(2)]])
  from running_reachable_ok [OF chain this assms(8)] have ok: "running_ok ?wok core n (fst (text_reads rs [])) s" .
  then have served: "served ?wok core n (fst (text_reads rs [])) s" by (simp add: running_ok_def)
  have chs: "set (changes s) \<subseteq> file_changed acc ` set files"
    using running_reachable_changes [OF assms(8)] by (simp add: running_init_def)
  have 1: "a = Event_File \<and> (\<exists>fs \<in> set files. file_changed acc fs (outside (worker_pool s)) = Inl e)
        \<or> directory_fault ad e \<and> (\<exists>i req ps. a = Worker_Thread i
            \<and> threads (worker_pool s) ! i = Handling req (activedirectory_plugin ad w0 # ps)
            \<and> webcontrol_activedirectory_handle_request ad req (outside (worker_pool s)) = Inl e)"
    if "running_step core env a s = Some (Inl e)" for a e
  proof -
    from running_step_ok [OF chain ok that] have "step_fault (directory_fault ad) core a e s" by simp
    then show ?thesis
      using chs served_hook_fault [OF assms(1,4) served] unfolding step_fault_def by blast
  qed
  have 2: "running_work core s' < running_work core s" if "running_step core env a s = Some (Inr s')" for a s'
    using running_step_ok [OF chain ok that] by simp
  from ok obtain t enqueued pend where inv: "fst (text_reads rs []) = enqueued @ pend @ coming s t"
    "pool_ok ?wok core (lines_channels enqueued) (worker_pool s)" and console: "console_ok s" by (rule running_okE)
  have answered: "answered = mset (map line_channel (stdout_lines (worker_pool s)))"
    using console by (simp add: answered_def console_ok_def)
  have 3: "\<forall>out \<in> set (console s). squid_reply (line_channel out) out \<or> out \<in> {eof_message, ''ERROR'' @ [NL]}"
    using console by (simp add: console_ok_def reply_line_def notices_def)
  have "accounted (worker_pool s) = lines_channels enqueued" using inv(2) by (simp add: pool_ok_def)
  then have "answered \<subseteq># lines_channels enqueued" unfolding answered accounted_def
    by (metis mset_subset_eq_add_right)
  then have 4: "answered \<subseteq># asked" unfolding asked_def inv(1) by (auto simp: lines_channels_def intro: subset_mset.trans)
  have 5: "answered = asked" if "idle core env s"
    using idle_answered [OF ok that assms(7)] by (simp add: answered asked_def)
  have 6: "\<exists>s'. running_reachable core env s s' \<and> idle core env s'"
    if "\<forall>fs \<in> set files. \<forall>w e. file_changed acc fs w \<noteq> Inl e" "\<nexists>e. directory_fault ad e"
    using running_finishes [OF chain _ ok] that chs by blast
  from 1 2 3 4 5 6 show ?thesis by blast
qed

text \<open>Two workers, a line in two pieces, and a hosts file that disappears while they run.\<close>

theorem running_helper_answers_witness:
  "\<exists>s. running_reachable demo_core two_hosts
      (running_init 2 [ReadBytes ''3 10.0'', ReadBytes (''.0.1'' @ [NL])] [file_changed demo_acc (\<lambda>_. None)] demo_world) s
    \<and> mset (map line_channel (filter reply_line (console s))) = lines_channels [''3 10.0.0.1'']"
proof -
  let ?rs = "[ReadBytes ''3 10.0'', ReadBytes (''.0.1'' @ [NL])]" and ?files = "[\<lambda>_. None] :: (string \<Rightarrow> string option) list"
  have c: "core_plugins demo_core = all_plugins demo_mc demo_ad demo_acc demo_world" by (simp add: demo_core_def)
  have fits: "list_all read_fits ?rs" by (simp add: STDIN_BUF_CHUNKSIZE_def)
  have size: "sum_list (map read_size ?rs) \<le> TEXT_LIMIT" by (simp add: TEXT_LIMIT_def)
  have total: "\<forall>fs \<in> set ?files. \<forall>w e. file_changed demo_acc fs w \<noteq> Inl e"
    by (simp add: file_changed_def file_change_cb_def parse_file_def)
  note helper = running_helper_answers [OF demo_libraries demo_data_separate demo_helper_ok c fits size, of 2 two_hosts ?files]
  from helper [OF _ running_reachable.start] total demo_no_fault obtain s where
    s: "running_reachable demo_core two_hosts (running_init 2 ?rs (map (file_changed demo_acc) ?files) demo_world) s"
      "idle demo_core two_hosts s" by auto
  from helper [OF _ s(1)] s(2)
  have "mset (map line_channel (filter reply_line (console s))) = lines_channels (fst (text_reads ?rs []))"
    by simp
  moreover have "fst (text_reads ?rs []) = [''3 10.0.0.1'']" by (simp add: chunk_text_def)
  ultimately show ?thesis using s(1) by auto
qed

end
