(* ===== verification/Whole_Life.thy ===== *)
theory Whole_Life
  imports Running_Helper Shutdown
begin

text \<open>
  The helper from \<open>ev_loop\<close> to the last \<open>pthread_join\<close> (\<open>src/core/main.c\<close>): the running helper
  of the theory \<open>Running_Helper\<close> with its data, together with what the theory \<open>Shutdown\<close>
  describes without data: the start of each worker, \<open>sigint_cb\<close>, \<open>thread_sig_cb\<close>, the two loops
  at the end of \<open>main\<close> and the end of each worker.

  There is one definition per handler; \<open>system_of\<close> forgets the data, and every run becomes a
  run of the step relation of \<open>Shutdown\<close>.
\<close>

section \<open>State and steps\<close>

text \<open>
  Where \<open>main\<close> is: in the loop (also in \<open>stdin_read_cb\<close>, while it has lines to enqueue), in
  \<open>thread_sig_cb\<close>, in the loop that enqueues the null pointers, in the loop that joins the
  workers, after it.  Where a worker is: before \<open>thread_init\<close>, in the job loop, at the label
  \<open>terminate\<close>, before \<open>ev_async_send\<close>, before the \<open>thread_free\<close> hooks, gone.
\<close>

datatype main_point = Looping | Signalled | Cancel nat | Join nat | Done

datatype life_point = At_Init | At_Work | At_Message | At_Notify | At_Free | At_End

record 'w helper =
  live :: "'w running"
  main_thread :: main_point
  worker_points :: "life_point list"
  thread_signals :: "nat list"
  live_workers :: size_t
  wake_up :: bool

abbreviation pool_of :: "'w helper \<Rightarrow> 'w pool" where
  "pool_of h \<equiv> worker_pool (live h)"

definition put_pool :: "'w pool \<Rightarrow> 'w helper \<Rightarrow> 'w helper" where
  "put_pool p h = h\<lparr>live := set_pool p (live h)\<rparr>"

definition helper_init :: "nat \<Rightarrow> read_result list \<Rightarrow> ('w \<Rightarrow> (string \<times> 'w) c_result) list \<Rightarrow> 'w \<Rightarrow> 'w helper" where
  "helper_init num_threads rs chs w =
     \<lparr>live = running_init num_threads rs chs w, main_thread = Looping,
      worker_points = replicate num_threads At_Init, thread_signals = [],
      live_workers = of_nat num_threads, wake_up = False\<rparr>"

subsection \<open>A worker\<close>

text \<open>The \<open>thread_init\<close> hooks; \<open>goto terminate\<close> when one fails.\<close>

definition init_step :: "'w core \<Rightarrow> nat \<Rightarrow> 'w helper \<Rightarrow> 'w helper c_result" where
  "init_step core i h =
     c_bind (run_thread_init (core_plugins core) (outside (pool_of h))) (\<lambda>(ready, w).
     if ready then Inr ((put_pool ((pool_of h)\<lparr>outside := w\<rparr>) h)\<lparr>worker_points := (worker_points h)[i := At_Work]\<rparr>)
     else Inr ((put_pool ((pool_of h)\<lparr>outside := w, threads := (threads (pool_of h))[i := Terminated]\<rparr>) h)
       \<lparr>worker_points := (worker_points h)[i := At_Message]\<rparr>))"

definition work_step :: "'w core \<Rightarrow> net_env \<Rightarrow> nat \<Rightarrow> 'w helper \<Rightarrow> 'w helper c_result option" where
  "work_step core env i h =
     map_option (\<lambda>r. c_bind r (\<lambda>p.
       Inr ((put_pool p h)\<lparr>worker_points := (if threads p ! i = Terminated
         then (worker_points h)[i := At_Message] else worker_points h)\<rparr>)))
       (thread_step core env i (pool_of h))"

definition message_step :: "nat \<Rightarrow> 'w helper \<Rightarrow> 'w helper option" where
  "message_step i h =
     (if length (thread_signals h) < SIGNAL_SLOTS
      then Some (h\<lparr>thread_signals := thread_signals h @ [Suc i], worker_points := (worker_points h)[i := At_Notify]\<rparr>)
      else None)"

definition notify_step :: "nat \<Rightarrow> 'w helper \<Rightarrow> 'w helper" where
  "notify_step i h = h\<lparr>wake_up := True, worker_points := (worker_points h)[i := At_Free]\<rparr>"

definition free_step :: "'w core \<Rightarrow> nat \<Rightarrow> 'w helper \<Rightarrow> 'w helper c_result" where
  "free_step core i h =
     c_bind (run_thread_free (core_plugins core) (outside (pool_of h))) (\<lambda>w.
     Inr ((put_pool ((pool_of h)\<lparr>outside := w\<rparr>) h)\<lparr>worker_points := (worker_points h)[i := At_End]\<rparr>))"

definition worker_step :: "'w core \<Rightarrow> net_env \<Rightarrow> nat \<Rightarrow> 'w helper \<Rightarrow> 'w helper c_result option" where
  "worker_step core env i h =
     (case worker_points h ! i of
        At_Init \<Rightarrow> Some (init_step core i h)
      | At_Work \<Rightarrow> work_step core env i h
      | At_Message \<Rightarrow> map_option Inr (message_step i h)
      | At_Notify \<Rightarrow> Some (Inr (notify_step i h))
      | At_Free \<Rightarrow> Some (free_step core i h)
      | At_End \<Rightarrow> None)"

subsection \<open>The main thread\<close>

text \<open>
  \<open>sigint_cb\<close>, between two other callbacks.  Callbacks that are already pending in the same round
  of the loop still run after \<open>ev_unloop\<close>; as \<open>sigint_cb\<close> changes nothing else, that is the run in
  which the signal comes after them.
\<close>

definition sigint_step :: "'w helper \<Rightarrow> 'w helper option" where
  "sigint_step h =
     (if main_thread h = Looping \<and> cut_lines (live h) = [] then Some (h\<lparr>main_thread := Cancel 0\<rparr>) else None)"

definition async_step :: "'w helper \<Rightarrow> 'w helper option" where
  "async_step h =
     (if main_thread h = Looping \<and> cut_lines (live h) = [] \<and> wake_up h
      then Some (h\<lparr>main_thread := Signalled, wake_up := False\<rparr>) else None)"

definition signalled_step :: "'w helper \<Rightarrow> 'w helper option" where
  "signalled_step h =
     (case thread_signals h of
        [] \<Rightarrow> None
      | msg # rest \<Rightarrow> Some (h\<lparr>thread_signals := rest, live_workers := live_workers h - 1,
          main_thread := (if live_workers h - 1 = 0 then Cancel 0 else Looping)\<rparr>))"

definition cancel_step :: "nat \<Rightarrow> 'w helper \<Rightarrow> 'w helper option" where
  "cancel_step i h =
     (if i < length (worker_points h)
      then if length (pool.job_queue (pool_of h)) < JOB_QUEUE_SLOTS
        then Some ((put_pool ((pool_of h)\<lparr>pool.job_queue := pool.job_queue (pool_of h) @ [None]\<rparr>) h)\<lparr>main_thread := Cancel (Suc i)\<rparr>)
        else None
      else Some (h\<lparr>main_thread := Join 0\<rparr>))"

definition join_step :: "nat \<Rightarrow> 'w helper \<Rightarrow> 'w helper option" where
  "join_step i h =
     (if i < length (worker_points h)
      then if worker_points h ! i = At_End then Some (h\<lparr>main_thread := Join (Suc i)\<rparr>) else None
      else Some (h\<lparr>main_thread := Done\<rparr>))"

definition main_step :: "'w helper \<Rightarrow> 'w helper option" where
  "main_step h =
     (case main_thread h of
        Looping \<Rightarrow> async_step h
      | Signalled \<Rightarrow> signalled_step h
      | Cancel i \<Rightarrow> cancel_step i h
      | Join i \<Rightarrow> join_step i h
      | Done \<Rightarrow> None)"

text \<open>The callbacks for stdin and for the hosts file run only in the loop.\<close>

definition callback_step :: "'w running c_result option \<Rightarrow> 'w helper \<Rightarrow> 'w helper c_result option" where
  "callback_step r h =
     (if main_thread h = Looping then map_option (\<lambda>r. c_bind r (\<lambda>s. Inr (h\<lparr>live := s\<rparr>))) r else None)"

datatype life_actor = Stdin_Callback | File_Callback | Signal | Main_Thread | Worker nat

definition helper_step :: "'w core \<Rightarrow> net_env \<Rightarrow> life_actor \<Rightarrow> 'w helper \<Rightarrow> 'w helper c_result option" where
  "helper_step core env a h =
     (case a of
        Stdin_Callback \<Rightarrow> callback_step (stdin_step (live h)) h
      | File_Callback \<Rightarrow> callback_step (file_step (live h)) h
      | Signal \<Rightarrow> map_option Inr (sigint_step h)
      | Main_Thread \<Rightarrow> map_option Inr (main_step h)
      | Worker i \<Rightarrow> if i < length (worker_points h) then worker_step core env i h else None)"

inductive helper_next :: "'w core \<Rightarrow> net_env \<Rightarrow> 'w helper \<Rightarrow> 'w helper \<Rightarrow> bool" for core env where
  "helper_step core env a h = Some (Inr h') \<Longrightarrow> helper_next core env h h'"

inductive_cases helper_nextE: "helper_next core env h h'"

section \<open>Every run is a run of the shutdown system\<close>

fun main_pc_of :: "main_point \<Rightarrow> buffer list \<Rightarrow> main_pc" where
  "main_pc_of Looping [] = InLoop"
| "main_pc_of Looping _ = InStdin"
| "main_pc_of Signalled _ = InCallback"
| "main_pc_of (Cancel i) _ = Cancelling i"
| "main_pc_of (Join i) _ = Joining i"
| "main_pc_of Done _ = Finished"

fun worker_pc_of :: "life_point \<Rightarrow> worker_pc" where
  "worker_pc_of At_Init = Starting"
| "worker_pc_of At_Work = Waiting"
| "worker_pc_of At_Message = Sending"
| "worker_pc_of At_Notify = Notifying"
| "worker_pc_of _ = Exited"

definition system_of :: "'w helper \<Rightarrow> buffer system" where
  "system_of h =
     \<lparr>main_at = main_pc_of (main_thread h) (cut_lines (live h)), workers = map worker_pc_of (worker_points h),
      job_queue = pool.job_queue (pool_of h), thread_signal_queue = thread_signals h,
      active_workers = live_workers h, async_pending = wake_up h\<rparr>"


fun point_fits :: "life_point \<Rightarrow> 'w thread_at \<Rightarrow> bool" where
  "point_fits At_Init t \<longleftrightarrow> t = Dequeuing"
| "point_fits At_Work t \<longleftrightarrow> t \<noteq> Terminated"
| "point_fits _ t \<longleftrightarrow> t = Terminated"

fun main_fits :: "main_point \<Rightarrow> life_point list \<Rightarrow> bool" where
  "main_fits (Cancel i) ps \<longleftrightarrow> i \<le> length ps"
| "main_fits (Join i) ps \<longleftrightarrow> i \<le> length ps \<and> (\<forall>j < i. ps ! j = At_End)"
| "main_fits Done ps \<longleftrightarrow> (\<forall>j < length ps. ps ! j = At_End)"
| "main_fits _ ps \<longleftrightarrow> True"

lemma main_fits_update:
  assumes "main_fits m ps" "ps ! i \<noteq> At_End"
  shows "main_fits m (ps[i := x])"
proof -
  have "ps[i := x] ! j = At_End" if "ps ! j = At_End" for j
    using that assms(2) by (subst nth_list_update_neq) auto
  with assms(1) show ?thesis by (cases m) auto
qed

definition linked :: "'w helper \<Rightarrow> bool" where
  "linked h \<longleftrightarrow>
     list_all2 point_fits (worker_points h) (threads (pool_of h))
     \<and> main_fits (main_thread h) (worker_points h)
     \<and> (main_thread h = Looping \<or> cut_lines (live h) = [])"

definition init_may_fail :: "'w core \<Rightarrow> bool" where
  "init_may_fail core \<longleftrightarrow> (\<exists>w w'. run_thread_init (core_plugins core) w = Inr (False, w'))"

lemma linked_length: "linked h \<Longrightarrow> length (threads (pool_of h)) = length (worker_points h)"
  by (auto simp: linked_def dest: list_all2_lengthD)

lemma linked_at: "linked h \<Longrightarrow> i < length (worker_points h) \<Longrightarrow> point_fits (worker_points h ! i) (threads (pool_of h) ! i)"
  by (auto simp: linked_def intro: list_all2_nthD)

lemma linked_init: "linked (helper_init n rs chs w)"
  by (simp add: linked_def helper_init_def running_init_def pool_init_def list_all2_conv_all_nth)

lemma system_of_init: "system_of (helper_init n rs chs w) = system_init n"
  by (simp add: system_of_def helper_init_def running_init_def pool_init_def system_init_def)

lemma put_pool_simps [simp]:
  "live (put_pool p h) = set_pool p (live h)" "main_thread (put_pool p h) = main_thread h"
  "worker_points (put_pool p h) = worker_points h" "thread_signals (put_pool p h) = thread_signals h"
  "live_workers (put_pool p h) = live_workers h" "wake_up (put_pool p h) = wake_up h"
  by (simp_all add: put_pool_def)

text \<open>What one step of a thread of the pool does to the queue and to its program point.\<close>

lemma dequeue_some_effect:
  assumes "dequeue_step core env i p = Some (Inr p')" "pool.job_queue p = Some b # js" "threads p ! i = Dequeuing"
  shows "pool.job_queue p' = js \<and> (\<exists>x. threads p' = (threads p)[i := x] \<and> x \<noteq> Terminated)"
proof -
  have same: "threads p = (threads p)[i := Dequeuing]" using assms(3) by (metis list_update_id)
  from assms(1,2) obtain req valid where "(if valid
      then Inr (p\<lparr>pool.job_queue := js, threads := (threads p)[i := Handling req (core_plugins core)]\<rparr>)
      else Inr (p\<lparr>pool.job_queue := js, stdout_lines := stdout_lines p @ printed (refuse req)\<rparr>)) = (Inr p' :: 'a pool c_result)"
    by (auto simp: dequeue_step_def c_bind_eq_Inr)
  then consider "p' = p\<lparr>pool.job_queue := js, threads := (threads p)[i := Handling req (core_plugins core)]\<rparr>"
    | "p' = p\<lparr>pool.job_queue := js, stdout_lines := stdout_lines p @ printed (refuse req)\<rparr>"
    by (cases valid) auto
  then show ?thesis
  proof cases
    case 2
    with same show ?thesis by (intro conjI exI [of _ Dequeuing]) simp_all
  qed auto
qed

lemma busy_effect:
  assumes "thread_step core env i p = Some (Inr p')" "threads p ! i \<noteq> Dequeuing"
  shows "pool.job_queue p' = pool.job_queue p \<and> (\<exists>x. threads p' = (threads p)[i := x] \<and> x \<noteq> Terminated)"
proof (cases "threads p ! i")
  case (Handling req ps)
  show ?thesis
  proof (cases ps)
    case Nil
    with assms(1) Handling have "p' = reply_step core req i p" by (simp add: thread_step_def)
    then show ?thesis by (auto simp: reply_step_def split: prod.split)
  next
    case (Cons pl ps')
    with assms(1) Handling have "handle_step req pl ps' i p = Inr p'" by (simp add: thread_step_def)
    then show ?thesis by (auto simp: c_bind_eq_Inr split: option.splits)
  qed
next
  case (Storing req ps)
  with assms(1) have "post_step req ps i p = Inr p'" by (simp add: thread_step_def)
  then show ?thesis by (cases ps) (auto simp: c_bind_eq_Inr split: option.splits)
qed (use assms in \<open>simp_all add: thread_step_def\<close>)

lemma thread_step_effect:
  assumes "thread_step core env i p = Some (Inr p')"
  obtains (keeps) x where "threads p' = (threads p)[i := x]" "x \<noteq> Terminated" "pool.job_queue p' = pool.job_queue p"
    | (takes) x b where "threads p' = (threads p)[i := x]" "x \<noteq> Terminated" "pool.job_queue p = Some b # pool.job_queue p'"
    | (ends) js where "p' = p\<lparr>pool.job_queue := js, threads := (threads p)[i := Terminated]\<rparr>" "pool.job_queue p = None # js"
proof (cases "threads p ! i = Dequeuing")
  case True
  with assms have d: "dequeue_step core env i p = Some (Inr p')" by (simp add: thread_step_def)
  then obtain j js where q: "pool.job_queue p = j # js"
    by (auto simp: dequeue_step_def split: list.splits)
  show ?thesis
  proof (cases j)
    case None
    with d q have "p' = p\<lparr>pool.job_queue := js, threads := (threads p)[i := Terminated]\<rparr>"
      by (simp add: dequeue_step_def)
    with q None show ?thesis by (intro ends) auto
  next
    case (Some b)
    with dequeue_some_effect [OF d, of b js] q True takes show ?thesis by auto
  qed
next
  case False
  from busy_effect [OF assms this] keeps show ?thesis by blast
qed


text \<open>One step of a handler is some steps of the system, or none.\<close>

abbreviation sys_steps :: "bool \<Rightarrow> 'j system \<Rightarrow> 'j system \<Rightarrow> bool" where
  "sys_steps fails \<equiv> (sys_step fails)\<^sup>*\<^sup>*"

lemma linked_update:
  assumes "linked h" "worker_points h ! i \<noteq> At_End" "point_fits x t"
    and "worker_points h' = (worker_points h)[i := x]" "threads (pool_of h') = (threads (pool_of h))[i := t]"
    and "main_thread h' = main_thread h" "cut_lines (live h') = cut_lines (live h)"
  shows "linked h'"
  using assms by (simp add: linked_def list_all2_update_cong main_fits_update)

lemma system_of_cong:
  assumes "worker_points h' = worker_points h" "pool.job_queue (pool_of h') = pool.job_queue (pool_of h)"
    and "main_thread h' = main_thread h" "cut_lines (live h') = cut_lines (live h)"
    and "thread_signals h' = thread_signals h" "live_workers h' = live_workers h" "wake_up h' = wake_up h"
  shows "system_of h' = system_of h"
  using assms by (simp add: system_of_def)

lemma step_to: "sys_step fails s t \<Longrightarrow> t = t' \<Longrightarrow> sys_step fails s t'"
  by simp

lemma init_step_simulated:
  assumes "linked h" "i < length (worker_points h)" "worker_points h ! i = At_Init" "init_step core i h = Inr h'"
    and "\<And>w. run_thread_init (core_plugins core) (outside (pool_of h)) = Inr (False, w) \<Longrightarrow> fails"
  shows "linked h' \<and> sys_step fails (system_of h) (system_of h')"
proof -
  from assms(4) obtain ready w where r: "run_thread_init (core_plugins core) (outside (pool_of h)) = Inr (ready, w)"
    and h': "(if ready then Inr ((put_pool ((pool_of h)\<lparr>outside := w\<rparr>) h)\<lparr>worker_points := (worker_points h)[i := At_Work]\<rparr>)
      else Inr ((put_pool ((pool_of h)\<lparr>outside := w, threads := (threads (pool_of h))[i := Terminated]\<rparr>) h)
        \<lparr>worker_points := (worker_points h)[i := At_Message]\<rparr>)) = (Inr h' :: 'a helper c_result)"
    by (auto simp: init_step_def c_bind_eq_Inr)
  have at: "i < length (workers (system_of h))" "workers (system_of h) ! i = Starting"
    using assms(2,3) by (simp_all add: system_of_def)
  have t: "threads (pool_of h) ! i = Dequeuing" using linked_at [OF assms(1,2)] assms(3) by simp
  show ?thesis
  proof (cases ready)
    case True
    with h' have eq: "h' = (put_pool ((pool_of h)\<lparr>outside := w\<rparr>) h)\<lparr>worker_points := (worker_points h)[i := At_Work]\<rparr>" by simp
    have "threads (pool_of h) = (threads (pool_of h))[i := Dequeuing]" using t by (metis list_update_id)
    with eq have "linked h'" by (intro linked_update [OF assms(1), of i At_Work Dequeuing]) (simp_all add: assms(3))
    moreover have "sys_step fails (system_of h) (system_of h')"
      by (rule step_to [OF sys_step.init_ok [OF at]]) (simp add: system_of_def eq map_update)
    ultimately show ?thesis ..
  next
    case False
    with h' have eq: "h' = (put_pool ((pool_of h)\<lparr>outside := w, threads := (threads (pool_of h))[i := Terminated]\<rparr>) h)
        \<lparr>worker_points := (worker_points h)[i := At_Message]\<rparr>" by simp
    from assms(5) r False have fails: fails by simp
    from eq have "linked h'" by (intro linked_update [OF assms(1), of i At_Message Terminated]) (simp_all add: assms(3))
    moreover have "sys_step fails (system_of h) (system_of h')"
      by (rule step_to [OF sys_step.init_failed [OF fails at]]) (simp add: system_of_def eq map_update)
    ultimately show ?thesis ..
  qed
qed

lemma work_step_simulated:
  assumes "linked h" "i < length (worker_points h)" "worker_points h ! i = At_Work" "work_step core env i h = Some (Inr h')"
  shows "linked h' \<and> sys_steps fails (system_of h) (system_of h')"
proof -
  from assms(4) obtain p where step: "thread_step core env i (pool_of h) = Some (Inr p)"
    and h': "h' = (put_pool p h)\<lparr>worker_points := (if threads p ! i = Terminated
         then (worker_points h)[i := At_Message] else worker_points h)\<rparr>"
    by (auto simp: work_step_def c_bind_eq_Inr)
  have at: "i < length (workers (system_of h))" "workers (system_of h) ! i = Waiting" "i < length (threads (pool_of h))"
    using assms(2,3) linked_length [OF assms(1)] by (simp_all add: system_of_def)
  have same: "(worker_points h)[i := At_Work] = worker_points h" using assms(3) by (metis list_update_id)
  from step show ?thesis
  proof (cases rule: thread_step_effect)
    case (keeps x)
    with h' at(3) same have "linked h'" by (intro linked_update [OF assms(1), of i At_Work x]) (simp_all add: assms(3))
    moreover have "system_of h' = system_of h" using h' keeps at(3) by (intro system_of_cong) simp_all
    ultimately show ?thesis by simp
  next
    case (takes x b)
    with h' at(3) same have "linked h'" by (intro linked_update [OF assms(1), of i At_Work x]) (simp_all add: assms(3))
    moreover have q: "Shutdown.job_queue (system_of h) = Some b # pool.job_queue p" using takes by (simp add: system_of_def)
    have "sys_step fails (system_of h) (system_of h')"
      by (rule step_to [OF sys_step.take_job [OF at(1,2) q]]) (use h' takes at(3) in \<open>simp add: system_of_def\<close>)
    ultimately show ?thesis by auto
  next
    case (ends js)
    with h' at(3) have "linked h'" by (intro linked_update [OF assms(1), of i At_Message Terminated]) (simp_all add: assms(3))
    moreover have q: "Shutdown.job_queue (system_of h) = None # js" using ends by (simp add: system_of_def)
    have "sys_step fails (system_of h) (system_of h')"
      by (rule step_to [OF sys_step.take_null [OF at(1,2) q]]) (use h' ends at(3) in \<open>simp add: system_of_def map_update\<close>)
    ultimately show ?thesis by auto
  qed
qed


lemma leaving_step_simulated:
  assumes "linked h" "i < length (worker_points h)" "worker_step core env i h = Some (Inr h')"
    and "worker_points h ! i = At_Message \<or> worker_points h ! i = At_Notify \<or> worker_points h ! i = At_Free"
  shows "linked h' \<and> sys_steps fails (system_of h) (system_of h')"
proof -
  have i: "i < length (workers (system_of h))" using assms(2) by (simp add: system_of_def)
  have busy: "worker_points h ! i \<noteq> At_End" using assms(4) by auto
  have "threads (pool_of h) ! i = Terminated" using linked_at [OF assms(1,2)] assms(4) by auto
  then have gone: "threads (pool_of h) = (threads (pool_of h))[i := Terminated]" by (metis list_update_id)
  from assms(4) consider "worker_points h ! i = At_Message" | "worker_points h ! i = At_Notify" | "worker_points h ! i = At_Free"
    by blast
  then show ?thesis
  proof cases
    case 1
    with assms(3) have h': "h' = h\<lparr>thread_signals := thread_signals h @ [Suc i], worker_points := (worker_points h)[i := At_Notify]\<rparr>"
      and room: "length (thread_signals h) < SIGNAL_SLOTS"
      by (auto simp: worker_step_def message_step_def split: if_splits)
    have "linked h'" using gone by (intro linked_update [OF assms(1) busy, of At_Notify Terminated]) (simp_all add: h')
    moreover have "sys_step fails (system_of h) (system_of h')"
      by (rule step_to [OF sys_step.send_message [OF i]]) (use 1 assms(2) room in \<open>simp_all add: system_of_def h' map_update\<close>)
    ultimately show ?thesis by auto
  next
    case 2
    with assms(3) have h': "h' = notify_step i h" by (simp add: worker_step_def)
    have "linked h'" using gone
      by (intro linked_update [OF assms(1) busy, of At_Free Terminated]) (simp_all add: h' notify_step_def)
    moreover have "sys_step fails (system_of h) (system_of h')"
      by (rule step_to [OF sys_step.async_send [OF i]]) (use 2 assms(2) in \<open>simp_all add: system_of_def h' notify_step_def map_update\<close>)
    ultimately show ?thesis by auto
  next
    case 3
    with assms(3) obtain w where h': "h' = (put_pool ((pool_of h)\<lparr>outside := w\<rparr>) h)\<lparr>worker_points := (worker_points h)[i := At_End]\<rparr>"
      by (auto simp: worker_step_def free_step_def c_bind_eq_Inr)
    have "linked h'" using gone by (intro linked_update [OF assms(1) busy, of At_End Terminated]) (simp_all add: h')
    moreover have "map worker_pc_of (worker_points h') = map worker_pc_of (worker_points h)"
      using 3 assms(2) by (simp add: h' map_update list_update_same_conv)
    then have "system_of h' = system_of h" by (simp add: system_of_def h')
    ultimately show ?thesis by simp
  qed
qed

lemma worker_step_simulated:
  assumes "linked h" "i < length (worker_points h)" "worker_step core env i h = Some (Inr h')"
    and "\<And>w. run_thread_init (core_plugins core) (outside (pool_of h)) = Inr (False, w) \<Longrightarrow> fails"
  shows "linked h' \<and> sys_steps fails (system_of h) (system_of h')"
proof (cases "worker_points h ! i")
  case At_Init
  with assms(3) have "init_step core i h = Inr h'" by (simp add: worker_step_def)
  from init_step_simulated [OF assms(1,2) At_Init this assms(4)] show ?thesis by auto
next
  case At_Work
  with assms(3) have "work_step core env i h = Some (Inr h')" by (simp add: worker_step_def)
  from work_step_simulated [OF assms(1,2) At_Work this] show ?thesis .
next
  case At_End
  with assms(3) show ?thesis by (simp add: worker_step_def)
qed (use leaving_step_simulated [OF assms(1-3)] in simp_all)

lemma cancel_step_simulated:
  assumes "linked h" "main_thread h = Cancel i" "cancel_step i h = Some h'"
  shows "linked h' \<and> sys_step fails (system_of h) (system_of h')"
proof (cases "i < length (worker_points h)")
  case True
  with assms show ?thesis
    using step_to [OF sys_step.cancel [of "system_of h" i fails], of "system_of h'"]
    by (auto simp: cancel_step_def system_of_def linked_def JOB_SLOTS_def JOB_QUEUE_SLOTS_def split: if_splits)
next
  case False
  with assms have "i = length (worker_points h)" by (simp add: linked_def)
  with assms show ?thesis
    using step_to [OF sys_step.cancelled [of "system_of h" fails], of "system_of h'"]
    by (auto simp: cancel_step_def system_of_def linked_def)
qed

lemma join_step_simulated:
  assumes "linked h" "main_thread h = Join i" "join_step i h = Some h'"
  shows "linked h' \<and> sys_step fails (system_of h) (system_of h')"
proof (cases "i < length (worker_points h)")
  case True
  with assms show ?thesis
    using step_to [OF sys_step.join [of "system_of h" i fails], of "system_of h'"]
    by (auto simp: join_step_def system_of_def linked_def less_Suc_eq split: if_splits)
next
  case False
  with assms have "i = length (worker_points h)" by (simp add: linked_def)
  with assms show ?thesis
    using step_to [OF sys_step.joined [of "system_of h" fails], of "system_of h'"]
    by (auto simp: join_step_def system_of_def linked_def)
qed

lemma main_step_simulated:
  assumes "linked h" "main_step h = Some h'"
  shows "linked h' \<and> sys_step fails (system_of h) (system_of h')"
proof (cases "main_thread h")
  case Looping
  with assms show ?thesis
    using step_to [OF sys_step.async_event [of "system_of h" fails], of "system_of h'"]
    by (auto simp: main_step_def async_step_def system_of_def linked_def split: if_splits)
next
  case Signalled
  with assms show ?thesis
    using step_to [OF sys_step.thread_sig_cb [of "system_of h" _ _ fails], of _ _ "system_of h'"]
    by (auto simp: main_step_def signalled_step_def system_of_def linked_def split: list.splits if_splits)
qed (use assms cancel_step_simulated join_step_simulated in \<open>simp_all add: main_step_def\<close>)

lemma stdin_callback_simulated:
  assumes "linked h" "main_thread h = Looping" "stdin_step (live h) = Some (Inr s)"
  shows "linked (h\<lparr>live := s\<rparr>) \<and> sys_steps fails (system_of h) (system_of (h\<lparr>live := s\<rparr>))"
proof (cases "cut_lines (live h)")
  case Nil
  with assms(3) have s: "worker_pool s = pool_of h"
    by (auto simp: stdin_step_def c_bind_eq_Inr split: if_splits)
  have "sys_step fails (system_of h) (system_of h\<lparr>main_at := InStdin\<rparr>)"
    by (rule sys_step.stdin_event) (simp add: system_of_def assms(2) Nil)
  moreover have "system_of (h\<lparr>live := s\<rparr>) = (if cut_lines s = [] then system_of h else system_of h\<lparr>main_at := InStdin\<rparr>)"
    using assms(2) Nil s by (cases "cut_lines s") (simp_all add: system_of_def)
  moreover have "linked (h\<lparr>live := s\<rparr>)" using assms(1,2) s by (simp add: linked_def)
  ultimately show ?thesis by (auto split: if_splits)
next
  case (Cons line lines)
  with assms(3) have room: "length (pool.job_queue (pool_of h)) < JOB_SLOTS"
    and s: "s = (live h)\<lparr>cut_lines := lines, worker_pool := (pool_of h)
      \<lparr>pool.job_queue := pool.job_queue (pool_of h) @ [Some line]\<rparr>\<rparr>"
    by (auto simp: stdin_step_def JOB_SLOTS_def JOB_QUEUE_SLOTS_def split: if_splits)
  let ?q = "Shutdown.job_queue (system_of h)"
  let ?next = "system_of h\<lparr>Shutdown.job_queue := ?q @ [Some line], main_at := InStdin\<rparr>"
  have "sys_step fails (system_of h) (system_of h\<lparr>main_at := Enqueueing\<rparr>)"
    by (rule sys_step.stdin_line) (simp add: system_of_def assms(2) Cons)
  moreover have "sys_step fails (system_of h\<lparr>main_at := Enqueueing\<rparr>) ?next"
    by (rule step_to [OF sys_step.stdin_job [of _ _ line]]) (use room in \<open>simp_all add: system_of_def\<close>)
  moreover have "sys_step fails ?next (?next\<lparr>main_at := InLoop\<rparr>)"
    by (rule sys_step.stdin_done) simp
  moreover have "system_of (h\<lparr>live := s\<rparr>) = (if lines = [] then ?next\<lparr>main_at := InLoop\<rparr> else ?next)"
    using assms(2) s by (cases lines) (simp_all add: system_of_def)
  moreover have "linked (h\<lparr>live := s\<rparr>)" using assms(1,2) s by (simp add: linked_def)
  ultimately show ?thesis by (auto split: if_splits intro: rtranclp.rtrancl_into_rtrancl)
qed

lemma file_callback_simulated:
  assumes "linked h" "main_thread h = Looping" "file_step (live h) = Some (Inr s)"
  shows "linked (h\<lparr>live := s\<rparr>) \<and> system_of (h\<lparr>live := s\<rparr>) = system_of h"
proof -
  from assms(3) have "cut_lines s = cut_lines (live h)" "threads (worker_pool s) = threads (pool_of h)"
    "pool.job_queue (worker_pool s) = pool.job_queue (pool_of h)"
    by (auto simp: file_step_def c_bind_eq_Inr split: if_splits list.splits)
  with assms(1,2) show ?thesis by (simp add: linked_def system_of_def)
qed

lemma helper_step_simulated:
  assumes "linked h" "helper_next core env h h'"
    and "\<And>w. run_thread_init (core_plugins core) (outside (pool_of h)) = Inr (False, w) \<Longrightarrow> fails"
  shows "linked h' \<and> sys_steps fails (system_of h) (system_of h')"
proof -
  from assms(2) obtain a where step: "helper_step core env a h = Some (Inr h')" by (auto elim: helper_nextE)
  show ?thesis
  proof (cases a)
    case Stdin_Callback
    with step obtain s where "main_thread h = Looping" "stdin_step (live h) = Some (Inr s)" "h' = h\<lparr>live := s\<rparr>"
      by (auto simp: helper_step_def callback_step_def c_bind_eq_Inr split: if_splits)
    with stdin_callback_simulated [OF assms(1)] show ?thesis by simp
  next
    case File_Callback
    with step obtain s where "main_thread h = Looping" "file_step (live h) = Some (Inr s)" "h' = h\<lparr>live := s\<rparr>"
      by (auto simp: helper_step_def callback_step_def c_bind_eq_Inr split: if_splits)
    with file_callback_simulated [OF assms(1)] show ?thesis by simp
  next
    case Signal
    with step have h: "main_thread h = Looping" "cut_lines (live h) = []" "h' = h\<lparr>main_thread := Cancel 0\<rparr>"
      by (auto simp: helper_step_def sigint_step_def split: if_splits)
    then have "sys_step fails (system_of h) (system_of h')"
      by (intro step_to [OF sys_step.sigint_cb]) (simp_all add: system_of_def)
    with h assms(1) show ?thesis by (auto simp: linked_def)
  next
    case Main_Thread
    with step have "main_step h = Some h'" by (simp add: helper_step_def)
    from main_step_simulated [OF assms(1) this] show ?thesis by auto
  next
    case (Worker i)
    with step have "i < length (worker_points h)" "worker_step core env i h = Some (Inr h')"
      by (simp_all add: helper_step_def split: if_splits)
    from worker_step_simulated [OF assms(1) this assms(3)] show ?thesis .
  qed
qed

text \<open>A simulation with stuttering, and what it gives for whole runs.\<close>

locale stuttering_simulation =
  fixes abstract_step :: "'a \<Rightarrow> 'a \<Rightarrow> bool" and step :: "'c \<Rightarrow> 'c \<Rightarrow> bool" and abstraction :: "'c \<Rightarrow> 'a" and ok :: "'c \<Rightarrow> bool"
  assumes simulated: "ok c \<Longrightarrow> step c c' \<Longrightarrow> ok c' \<and> abstract_step\<^sup>*\<^sup>* (abstraction c) (abstraction c')"
begin

lemma run_simulated:
  assumes "step\<^sup>*\<^sup>* c c'" "ok c"
  shows "ok c' \<and> abstract_step\<^sup>*\<^sup>* (abstraction c) (abstraction c')"
  using assms by (induction rule: rtranclp_induct) (auto dest: simulated intro: rtranclp_trans)

lemma invariant_transfers:
  assumes "step\<^sup>*\<^sup>* c c'" "ok c" "P (abstraction c)" "\<And>s s'. P s \<Longrightarrow> abstract_step s s' \<Longrightarrow> P s'"
  shows "P (abstraction c')"
proof -
  have "P t" if "abstract_step\<^sup>*\<^sup>* (abstraction c) t" for t
    using that assms(3) by (induction rule: rtranclp_induct) (auto intro: assms(4))
  with run_simulated [OF assms(1,2)] show ?thesis by blast
qed

end

interpretation life: stuttering_simulation "sys_step (init_may_fail core)" "helper_next core env" system_of linked
  for core env
  by unfold_locales (rule helper_step_simulated, auto simp: init_may_fail_def)

lemma life_reachable:
  assumes "(helper_next core env)\<^sup>*\<^sup>* (helper_init n rs chs w) h"
  shows "linked h" "sys_reachable (init_may_fail core) n (system_of h)"
proof -
  show "linked h" using life.run_simulated [OF assms linked_init] ..
  have "sys_reachable (init_may_fail core) n (system_of (helper_init n rs chs w))"
    unfolding system_of_init by (rule sys_reachable.start)
  then show "sys_reachable (init_may_fail core) n (system_of h)"
    by (rule life.invariant_transfers [OF assms linked_init]) (rule sys_reachable.after)
qed

text \<open>
  C18: the shutdown system is a faithful abstraction of the program with its data.  Every run of
  the whole program, with any plugins, is a run of the step relation on which the shutdown
  theorems rest (in which \<open>thread_init\<close> may fail exactly if the hooks can); the worker threads
  are where their program points say; a callback for a worker's message always finds one; and
  \<open>active_workers\<close> counts exactly the workers whose message has not been handled.
\<close>

theorem life_refines_shutdown:
  assumes "(helper_next core env)\<^sup>*\<^sup>* (helper_init n rs chs w) h"
  shows "sys_reachable (init_may_fail core) n (system_of h)
    \<and> list_all2 point_fits (worker_points h) (threads (pool_of h))
    \<and> (main_thread h = Signalled \<longrightarrow> thread_signals h \<noteq> [] \<and> main_step h \<noteq> None)
    \<and> live_workers h + of_nat (length (filter (\<lambda>p. p \<in> {At_Notify, At_Free, At_End}) (worker_points h)))
        = of_nat n + of_nat (length (thread_signals h))"
proof -
  from life_reachable [OF assms] have linked: "linked h" and reach: "sys_reachable (init_may_fail core) n (system_of h)" .
  have m: "messages_ok n (system_of h)" by (rule messages_ok_reachable [OF reach])
  have "tally is_sent (map worker_pc_of ps) = length (filter (\<lambda>p. p \<in> {At_Notify, At_Free, At_End}) ps)" for ps
  proof (induction ps)
    case (Cons p ps)
    then show ?case by (cases p) (simp_all add: tally_def)
  qed (simp add: tally_def)
  with m have "live_workers h + of_nat (length (filter (\<lambda>p. p \<in> {At_Notify, At_Free, At_End}) (worker_points h)))
      = of_nat n + of_nat (length (thread_signals h))"
    by (simp add: messages_ok_def system_of_def)
  moreover have "thread_signals h \<noteq> []" if "main_thread h = Signalled"
    using m that by (auto simp: messages_ok_def system_of_def)
  ultimately show ?thesis using reach linked
    by (auto simp: linked_def main_step_def signalled_step_def split: list.split)
qed

theorem life_refines_shutdown_witness:
  "sys_reachable (init_may_fail demo_core) 2 (system_of (helper_init 2 [] [] demo_world\<lparr>main_thread := Cancel 0\<rparr>))"
proof -
  have "helper_next demo_core two_hosts (helper_init 2 [] [] demo_world) (helper_init 2 [] [] demo_world\<lparr>main_thread := Cancel 0\<rparr>)"
    by (rule helper_next.intros [of _ _ Signal]) (simp add: helper_step_def sigint_step_def helper_init_def running_init_def)
  then have "(helper_next demo_core two_hosts)\<^sup>*\<^sup>* (helper_init 2 [] [] demo_world) (helper_init 2 [] [] demo_world\<lparr>main_thread := Cancel 0\<rparr>)"
    by blast
  from life_refines_shutdown [OF this] show ?thesis by simp
qed

end
