(* ===== verification/Graceful_Shutdown.thy ===== *)
theory Graceful_Shutdown
  imports Whole_Life
begin

text \<open>
  What the whole program of the theory \<open>Whole_Life\<close> guarantees when it is told to end: the
  invariant of the lines carried through the shutdown, a measure that every step after the
  event loop decreases, and the theorem that the end is reached with every line that was
  read answered.

  Nothing here models further code.
\<close>

section \<open>No line is lost\<close>

text \<open>
  The hypothesis on the \<open>thread_init\<close> hooks: where the invariant holds they do not fail, so
  that workers end only because of null pointers.
\<close>

definition init_succeeds :: "('w \<Rightarrow> bool) \<Rightarrow> 'w core \<Rightarrow> bool" where
  "init_succeeds wok core \<longleftrightarrow> (\<forall>w w'. wok w \<longrightarrow> run_thread_init (core_plugins core) w \<noteq> Inr (False, w'))"

definition life_ok :: "('w \<Rightarrow> bool) \<Rightarrow> 'w core \<Rightarrow> nat \<Rightarrow> string list \<Rightarrow> 'w helper \<Rightarrow> bool" where
  "life_ok wok core n lines h \<longleftrightarrow>
     linked h \<and> sys_reachable False n (system_of h) \<and> served wok core n lines (live h)"

lemma life_ok_init:
  assumes "wok w" "list_all read_fits rs" "sum_list (map read_size rs) \<le> TEXT_LIMIT" "keeps_world wok chs"
  shows "life_ok wok core n (fst (text_reads rs [])) (helper_init n rs chs w)"
  using running_ok_init [OF assms, of core n] linked_init [of n rs chs w] sys_reachable.start [of False n]
  by (simp add: life_ok_def system_of_init) (simp add: helper_init_def running_ok_def)

text \<open>While \<open>main\<close> is in the loop no null pointer is in the queue and no worker has ended.\<close>

lemma tally_past_none: "tally is_past (map worker_pc_of ps) = 0 \<Longrightarrow> p \<in> set ps \<Longrightarrow> p = At_Init \<or> p = At_Work"
proof (induction ps)
  case (Cons q ps)
  then show ?case by (cases q) (auto simp: tally_def)
qed simp

lemma looping_only_jobs:
  assumes "life_ok wok core n lines h" "main_thread h = Looping"
  shows "only_jobs (pool_of h)"
proof -
  have "in_loop (main_at (system_of h))" using assms(2) by (cases "cut_lines (live h)") (simp_all add: system_of_def)
  then have "cancel_count n (main_at (system_of h)) = 0" by (cases "main_at (system_of h)") auto
  with shutdown_ok_reachable [of n "system_of h"] assms(1) have
    none: "nulls (Shutdown.job_queue (system_of h)) = 0" "tally is_past (workers (system_of h)) = 0"
    by (auto simp: life_ok_def shutdown_ok_def)
  have "None \<notin> set (pool.job_queue (pool_of h))"
    using none(1) by (auto simp: system_of_def nulls_def filter_empty_conv)
  moreover have "Terminated \<notin> set (threads (pool_of h))"
  proof
    assume "Terminated \<in> set (threads (pool_of h))"
    then obtain i where i: "i < length (worker_points h)" "threads (pool_of h) ! i = Terminated"
      using linked_length [of h] assms(1) by (auto simp: in_set_conv_nth life_ok_def)
    then have "point_fits (worker_points h ! i) (Terminated :: 'a thread_at)"
      using linked_at [of h i] assms(1) by (simp add: life_ok_def)
    moreover have "worker_points h ! i = At_Init \<or> worker_points h ! i = At_Work"
      using tally_past_none [of "worker_points h"] none(2) i(1) by (simp add: system_of_def)
    ultimately show False by auto
  qed
  ultimately show ?thesis by (simp add: only_jobs_def)
qed

lemma pool_ok_null:
  assumes "pool_ok wok core channels p"
  shows "pool_ok wok core channels (p\<lparr>pool.job_queue := pool.job_queue p @ [None]\<rparr>)"
proof -
  from assms obtain bs ts k where q: "pool.job_queue p = map Some bs @ replicate k None" "list_all2 buf_cstr bs ts"
    "Terminated \<in> set (threads p) \<longrightarrow> bs = []" unfolding pool_ok_def by blast
  have "pool.job_queue p @ [None] = map Some bs @ replicate (Suc k) None"
    using q(1) by (simp add: replicate_append_same)
  with q(2,3) have "\<exists>bs ts k. pool.job_queue p @ [None] = map Some bs @ replicate k None \<and> list_all2 buf_cstr bs ts
      \<and> (Terminated \<in> set (threads p) \<longrightarrow> bs = [])" by blast
  moreover have "accounted (p\<lparr>pool.job_queue := pool.job_queue p @ [None]\<rparr>) = accounted p"
    by (simp add: accounted_def job_channel_def)
  ultimately show ?thesis using assms by (simp add: pool_ok_def)
qed

lemma served_world: "served wok core n lines s \<Longrightarrow> wok (outside (worker_pool s))"
  by (erule servedE) (simp add: pool_ok_def)

lemma served_outside:
  "served wok core n lines s \<Longrightarrow> wok w \<Longrightarrow> served wok core n lines (set_pool ((worker_pool s)\<lparr>outside := w\<rparr>) s)"
  by (rule served_pool [where outs = "[]"]) (auto intro: pool_ok_outside)

lemma served_null:
  "served wok core n lines s \<Longrightarrow> served wok core n lines (set_pool ((worker_pool s)
     \<lparr>pool.job_queue := pool.job_queue (worker_pool s) @ [None]\<rparr>) s)"
  by (rule served_pool [where outs = "[]"]) (auto intro: pool_ok_null)

text \<open>The fault of a hook that worker \<open>i\<close> asks.\<close>

definition worker_fault :: "(fault \<Rightarrow> bool) \<Rightarrow> 'w core \<Rightarrow> nat \<Rightarrow> fault \<Rightarrow> 'w helper \<Rightarrow> bool" where
  "worker_fault bad core i e h \<longleftrightarrow>
     bad e \<and> i < length (threads (pool_of h)) \<and> (\<exists>p \<in> set (core_plugins core). hook_fault (pool_of h) i p e)"

lemma worker_life_served:
  assumes chain: "guarded_chain wok (core_plugins core) bad" and ok: "life_ok wok core n lines h"
    and no_fail: "init_succeeds wok core" and i: "i < length (worker_points h)" "worker_step core env i h = Some r"
  shows "case r of Inl e \<Rightarrow> worker_fault bad core i e h | Inr h' \<Rightarrow> served wok core n lines (live h')"
proof -
  have served: "served wok core n lines (live h)" and linked: "linked h" using ok by (simp_all add: life_ok_def)
  note w = served_world [OF served]
  note put = put_pool_def served_outside [OF served]
  show ?thesis
  proof (cases "worker_points h ! i")
    case At_Init
    obtain ready w' where init: "run_thread_init (core_plugins core) (outside (pool_of h)) = Inr (ready, w')" "wok w'"
      using guarded_chain.init_guarded [OF chain order_refl w] by blast
    then have ready using no_fail w by (cases ready) (auto simp: init_succeeds_def)
    with init At_Init i(2) show ?thesis by (auto simp: worker_step_def init_step_def put)
  next
    case At_Work
    with i(2) obtain r1 where r1: "thread_step core env i (pool_of h) = Some r1"
      by (auto simp: worker_step_def work_step_def)
    have t: "i < length (threads (pool_of h))" using i(1) linked_length [OF linked] by simp
    from worker_step_served [OF chain served t r1] i(2) At_Work r1 t show ?thesis
      by (cases r1) (auto simp: worker_step_def work_step_def put_pool_def worker_fault_def)
  next
    case At_Free
    obtain w' where "run_thread_free (core_plugins core) (outside (pool_of h)) = Inr w'" "wok w'"
      using guarded_chain.free_guarded [OF chain order_refl w] by blast
    with At_Free i(2) show ?thesis by (auto simp: worker_step_def free_step_def put)
  qed (use i(2) served in \<open>auto simp: worker_step_def message_step_def notify_step_def split: if_splits\<close>)
qed

lemma main_step_served:
  assumes "served wok core n lines (live h)" "main_step h = Some h'"
  shows "served wok core n lines (live h')"
  using assms served_null [OF assms(1)]
  by (auto simp: main_step_def async_step_def signalled_step_def cancel_step_def join_step_def put_pool_def
      split: main_point.splits list.splits if_splits)

lemma callback_ok:
  assumes "life_ok wok core n lines h" "callback_step r0 h = Some r"
    and "r0 = stdin_step (live h) \<or> r0 = file_step (live h)"
  shows "case r of Inl e \<Rightarrow> main_thread h = Looping \<and> (\<exists>change \<in> set (changes (live h)). change (outside (pool_of h)) = Inl e)
    | Inr h' \<Rightarrow> served wok core n lines (live h')"
proof -
  from assms(2) obtain r1 where loop: "main_thread h = Looping" and r1: "r0 = Some r1"
    and r: "r = c_bind r1 (\<lambda>s. Inr (h\<lparr>live := s\<rparr>))"
    by (auto simp: callback_step_def split: if_splits)
  have run: "running_ok wok core n lines (live h)"
    using assms(1) looping_only_jobs [OF assms(1) loop] by (simp add: life_ok_def running_ok_def)
  from assms(3) r1 consider "stdin_step (live h) = Some r1" | "file_step (live h) = Some r1" by auto
  then show ?thesis
  proof cases
    case 1
    from stdin_step_ok [OF run this] r show ?thesis by (auto simp: running_ok_def)
  next
    case 2
    from file_step_ok [OF run this] r loop show ?thesis by (cases r1) (auto simp: running_ok_def)
  qed
qed

text \<open>The faults a step can end in: that of a reload in the loop, or that of a hook a worker asks.\<close>

definition life_fault :: "(fault \<Rightarrow> bool) \<Rightarrow> 'w core \<Rightarrow> life_actor \<Rightarrow> fault \<Rightarrow> 'w helper \<Rightarrow> bool" where
  "life_fault bad core a e h \<longleftrightarrow>
     main_thread h = Looping \<and> (\<exists>change \<in> set (changes (live h)). change (outside (pool_of h)) = Inl e)
     \<or> (\<exists>i. a = Worker i \<and> worker_fault bad core i e h)"

lemma helper_step_ok:
  assumes chain: "guarded_chain wok (core_plugins core) bad" and ok: "life_ok wok core n lines h"
    and no_fail: "init_succeeds wok core" and step: "helper_step core env a h = Some r"
  shows "case r of Inl e \<Rightarrow> life_fault bad core a e h | Inr h' \<Rightarrow> life_ok wok core n lines h'"
proof -
  have served: "served wok core n lines (live h)" and linked: "linked h" and reach: "sys_reachable False n (system_of h)"
    using ok by (simp_all add: life_ok_def)
  have 1: "case r of Inl e \<Rightarrow> life_fault bad core a e h | Inr h' \<Rightarrow> served wok core n lines (live h')"
  proof (cases a)
    case (Worker i)
    with step have "i < length (worker_points h)" "worker_step core env i h = Some r"
      by (simp_all add: helper_step_def split: if_splits)
    from worker_life_served [OF chain ok no_fail this] Worker show ?thesis by (cases r) (auto simp: life_fault_def)
  next
    case Main_Thread
    with step main_step_served [OF served] show ?thesis by (auto simp: helper_step_def)
  next
    case Signal
    with step served show ?thesis by (auto simp: helper_step_def sigint_step_def split: if_splits)
  next
    case Stdin_Callback
    with step have "callback_step (stdin_step (live h)) h = Some r" by (simp add: helper_step_def)
    from callback_ok [OF ok this] show ?thesis by (cases r) (auto simp: life_fault_def)
  next
    case File_Callback
    with step have "callback_step (file_step (live h)) h = Some r" by (simp add: helper_step_def)
    from callback_ok [OF ok this] show ?thesis by (cases r) (auto simp: life_fault_def)
  qed
  have 2: "linked h' \<and> sys_reachable False n (system_of h')" if "r = Inr h'" for h'
  proof -
    have "helper_next core env h h'" using step that by (auto intro: helper_next.intros)
    from helper_step_simulated [OF linked this, of False] no_fail served_world [OF served]
    have "linked h'" "sys_steps False (system_of h) (system_of h')" by (auto simp: init_succeeds_def)
    moreover from this(2) reach have "sys_reachable False n (system_of h')"
      by (induction rule: rtranclp_induct) (auto intro: sys_reachable.after)
    ultimately show ?thesis by simp
  qed
  from 1 2 show ?thesis by (cases r) (auto simp: life_ok_def)
qed


section \<open>The end is reached\<close>

definition leaving :: "'w helper \<Rightarrow> bool" where
  "leaving h \<longleftrightarrow> main_thread h \<noteq> Looping \<and> main_thread h \<noteq> Signalled"

definition helper_work :: "'w core \<Rightarrow> 'w helper \<Rightarrow> nat" where
  "helper_work core h =
     2 * shutdown_work (system_of h) + pool_work core (pool_of h) + count_list (worker_points h) At_Free"

lemma leaving_past_loop: "leaving h \<Longrightarrow> past_loop (system_of h)"
  by (cases "main_thread h") (simp_all add: leaving_def past_loop_def system_of_def)

lemma sys_steps_decrease:
  "sys_steps fails s t \<Longrightarrow> past_loop s \<Longrightarrow> past_loop t \<and> shutdown_work t \<le> shutdown_work s"
  by (induction rule: rtranclp_induct) (auto dest!: shutdown_step_decreases)

lemma count_list_update:
  "i < length xs \<Longrightarrow> count_list (xs[i := x]) y + of_bool (xs ! i = y) = count_list xs y + of_bool (x = y)"
proof (induction xs arbitrary: i)
  case (Cons z zs)
  then show ?case by (cases i) auto
qed simp

lemma init_step_ready:
  assumes "init_succeeds wok core" "wok (outside (pool_of h))" "init_step core i h = Inr h'"
  shows "\<exists>w. h' = (put_pool ((pool_of h)\<lparr>outside := w\<rparr>) h)\<lparr>worker_points := (worker_points h)[i := At_Work]\<rparr>"
proof -
  from assms(3) obtain ready w where r: "run_thread_init (core_plugins core) (outside (pool_of h)) = Inr (ready, w)"
    by (auto simp: init_step_def c_bind_eq_Inr)
  with assms(1,2) have ready by (cases ready) (auto simp: init_succeeds_def)
  with r assms(3) show ?thesis by (auto simp: init_step_def)
qed

lemma init_decreases:
  assumes "life_ok wok core n lines h" "init_succeeds wok core" "leaving h"
    and i: "i < length (worker_points h)" "worker_points h ! i = At_Init" "init_step core i h = Inr h'"
  shows "helper_work core h' < helper_work core h"
proof -
  have linked: "linked h" and w: "wok (outside (pool_of h))"
    using assms(1) by (auto simp: life_ok_def intro: served_world)
  with assms(2) have "run_thread_init (core_plugins core) (outside (pool_of h)) \<noteq> Inr (False, w')" for w'
    by (simp add: init_succeeds_def)
  with init_step_simulated [OF linked i, of False] have "sys_step False (system_of h) (system_of h')" by blast
  from shutdown_step_decreases [OF this leaving_past_loop [OF assms(3)]]
  have "shutdown_work (system_of h') < shutdown_work (system_of h)" ..
  moreover from init_step_ready [OF assms(2) w i(3)] obtain w' where
    "h' = (put_pool ((pool_of h)\<lparr>outside := w'\<rparr>) h)\<lparr>worker_points := (worker_points h)[i := At_Work]\<rparr>" ..
  ultimately show ?thesis
    using count_list_update [OF i(1), of At_Work At_Free] i(2) by (simp add: helper_work_def pool_work_def)
qed

lemma work_decreases:
  assumes "guarded_chain wok (core_plugins core) bad" "life_ok wok core n lines h" "leaving h"
    and i: "i < length (worker_points h)" "worker_points h ! i = At_Work" "work_step core env i h = Some (Inr h')"
  shows "helper_work core h' < helper_work core h"
proof -
  have linked: "linked h" and served: "served wok core n lines (live h)" using assms(2) by (simp_all add: life_ok_def)
  from i(3) obtain p where step: "thread_step core env i (pool_of h) = Some (Inr p)"
    and h': "h' = (put_pool p h)\<lparr>worker_points := (if threads p ! i = Terminated
       then (worker_points h)[i := At_Message] else worker_points h)\<rparr>"
    by (auto simp: work_step_def c_bind_eq_Inr)
  have "i < length (threads (pool_of h))" using i(1) linked_length [OF linked] by simp
  from worker_step_served [OF assms(1) served this step] h' have "pool_work core (pool_of h') < pool_work core (pool_of h)"
    by auto
  moreover from work_step_simulated [OF linked i, of False] have "sys_steps False (system_of h) (system_of h')" ..
  from sys_steps_decrease [OF this leaving_past_loop [OF assms(3)]]
  have "shutdown_work (system_of h') \<le> shutdown_work (system_of h)" ..
  ultimately show ?thesis
    using count_list_update [OF i(1), of At_Message At_Free] i(2) h' by (auto simp: helper_work_def)
qed

lemma leaving_worker_decreases:
  assumes "guarded_chain wok (core_plugins core) bad" "life_ok wok core n lines h" "init_succeeds wok core" "leaving h"
    and i: "i < length (worker_points h)" "worker_step core env i h = Some (Inr h')"
  shows "helper_work core h' < helper_work core h"
proof -
  note free = count_list_update [OF i(1), of _ At_Free]
  note tally = tally_update [of i "workers (system_of h)" worker_work]
  show ?thesis
  proof (cases "worker_points h ! i")
    case At_Init
    with i(2) init_decreases [OF assms(2-4) i(1)] show ?thesis by (simp add: worker_step_def)
  next
    case At_Work
    with i(2) work_decreases [OF assms(1,2,4) i(1)] show ?thesis by (simp add: worker_step_def)
  next
    case At_Message
    with i(2) have "h' = h\<lparr>thread_signals := thread_signals h @ [Suc i], worker_points := (worker_points h)[i := At_Notify]\<rparr>"
      by (auto simp: worker_step_def message_step_def split: if_splits)
    then show ?thesis using free [of At_Notify] tally [of Notifying] At_Message i(1)
      by (simp add: helper_work_def shutdown_work_def system_of_def map_update)
  next
    case At_Notify
    with i(2) have "h' = notify_step i h" by (simp add: worker_step_def)
    then show ?thesis using free [of At_Free] tally [of Exited] At_Notify i(1)
      by (simp add: helper_work_def shutdown_work_def system_of_def map_update notify_step_def)
  next
    case At_Free
    with i(2) obtain w where "h' = (put_pool ((pool_of h)\<lparr>outside := w\<rparr>) h)\<lparr>worker_points := (worker_points h)[i := At_End]\<rparr>"
      by (auto simp: worker_step_def free_step_def c_bind_eq_Inr)
    then show ?thesis using free [of At_End] tally [of Exited] At_Free i(1)
      by (simp add: helper_work_def pool_work_def shutdown_work_def system_of_def map_update)
  next
    case At_End
    with i(2) show ?thesis by (simp add: worker_step_def)
  qed
qed

lemma leaving_main_decreases:
  assumes "linked h" "leaving h" "main_step h = Some h'"
  shows "leaving h' \<and> helper_work core h' < helper_work core h"
proof -
  have "sys_step False (system_of h) (system_of h')" using main_step_simulated [OF assms(1,3)] ..
  from shutdown_step_decreases [OF this leaving_past_loop [OF assms(2)]]
  have "shutdown_work (system_of h') < shutdown_work (system_of h)" ..
  moreover have "leaving h' \<and> worker_points h' = worker_points h \<and> pool_work core (pool_of h') \<le> pool_work core (pool_of h) + 1"
    using assms(2,3)
    by (auto simp: leaving_def main_step_def cancel_step_def join_step_def pool_work_def job_work_def
        split: main_point.splits if_splits)
  ultimately show ?thesis by (simp add: helper_work_def)
qed

lemma worker_keeps_main: "worker_step core env i h = Some (Inr h') \<Longrightarrow> main_thread h' = main_thread h"
  by (auto simp: worker_step_def init_step_def work_step_def message_step_def notify_step_def free_step_def c_bind_eq_Inr
      split: life_point.splits if_splits)

lemma leaving_decreases:
  assumes "life_ok wok core n lines h" "init_succeeds wok core" "guarded_chain wok (core_plugins core) bad"
    and "leaving h" "helper_next core env h h'"
  shows "leaving h' \<and> helper_work core h' < helper_work core h"
proof -
  from assms(5) obtain a where step: "helper_step core env a h = Some (Inr h')" by (auto elim: helper_nextE)
  show ?thesis
  proof (cases a)
    case (Worker i)
    with step have i: "i < length (worker_points h)" "worker_step core env i h = Some (Inr h')"
      by (simp_all add: helper_step_def split: if_splits)
    from leaving_worker_decreases [OF assms(3,1,2,4) i] worker_keeps_main [OF i(2)] assms(4)
    show ?thesis by (simp add: leaving_def)
  next
    case Main_Thread
    with step have "main_step h = Some h'" by (simp add: helper_step_def)
    with leaving_main_decreases assms(1,4) show ?thesis by (auto simp: life_ok_def)
  qed (use step assms(4) in \<open>auto simp: helper_step_def callback_step_def sigint_step_def leaving_def\<close>)
qed

text \<open>Where the system can go on, so can the helper.\<close>

lemma worker_can_step:
  assumes "linked h" "i < length (worker_points h)" "worker_pc_of (worker_points h ! i) = pc" "pc \<noteq> Exited"
    and "pc = Waiting \<Longrightarrow> pool.job_queue (pool_of h) \<noteq> []"
    and "pc = Sending \<Longrightarrow> length (thread_signals h) < SIGNAL_SLOTS"
  shows "\<exists>a r. helper_step core env a h = Some r"
proof -
  have "worker_step core env i h \<noteq> None"
  proof (cases "worker_points h ! i")
    case At_Work
    then have t: "threads (pool_of h) ! i \<noteq> Terminated" using linked_at [OF assms(1,2)] by simp
    obtain j js where "pool.job_queue (pool_of h) = j # js"
      using assms(3,5) At_Work by (cases "pool.job_queue (pool_of h)") auto
    then have "thread_step core env i (pool_of h) \<noteq> None"
      using t by (cases "threads (pool_of h) ! i"; cases j)
        (auto simp: thread_step_def dequeue_step_def split: list.splits)
    with At_Work show ?thesis by (simp add: worker_step_def work_step_def)
  qed (use assms in \<open>auto simp: worker_step_def message_step_def\<close>)
  with assms(2) show ?thesis by (intro exI [of _ "Worker i"]) (auto simp: helper_step_def)
qed

lemma leaving_progress:
  assumes ok: "life_ok wok core n lines h" and n: "n \<le> 8" and past: "leaving h" "main_thread h \<noteq> Done"
  shows "\<exists>a r. helper_step core env a h = Some r"
proof -
  have linked: "linked h" and reach: "sys_reachable False n (system_of h)" using ok by (simp_all add: life_ok_def)
  have cut: "cut_lines (live h) = []" using linked past(1) by (auto simp: linked_def leaving_def)
  have main_pl: "main_at (system_of h) \<noteq> Finished" "past_loop (system_of h)"
    using past leaving_past_loop [OF past(1)] by (cases "main_thread h"; auto simp: system_of_def leaving_def)+
  have "n \<le> SIGNAL_SLOTS" using n by (simp add: SIGNAL_SLOTS_def)
  from shutdown_progress [OF messages_ok_reachable [OF reach] shutdown_ok_reachable [OF reach] this main_pl(2,1)]
  obtain s where s: "sys_step False (system_of h) s" by blast
  note worker = worker_can_step [OF linked]
  have main: ?thesis if "main_step h \<noteq> None"
    using that by (intro exI [of _ Main_Thread]) (auto simp: helper_step_def)
  show ?thesis
    using s
  proof cases
    case (cancel i)
    with cut show ?thesis
      by (intro main) (auto simp: system_of_def main_step_def cancel_step_def JOB_SLOTS_def JOB_QUEUE_SLOTS_def
          elim: main_pc_of.elims)
  next
    case (join i)
    show ?thesis
    proof (cases "worker_points h ! i = At_End")
      case True
      with join cut show ?thesis
        by (intro main) (auto simp: system_of_def main_step_def join_step_def elim: main_pc_of.elims)
    next
      case False
      with join have "i < length (worker_points h)" "worker_step core env i h \<noteq> None"
        by (auto simp: system_of_def worker_step_def elim: worker_pc_of.elims)
      then show ?thesis by (intro exI [of _ "Worker i"]) (auto simp: helper_step_def)
    qed
  next
    case cancelled
    with cut show ?thesis
      by (intro main) (auto simp: system_of_def main_step_def cancel_step_def elim: main_pc_of.elims)
  next
    case joined
    with cut show ?thesis
      by (intro main) (auto simp: system_of_def main_step_def join_step_def elim: main_pc_of.elims)
  qed (use main_pl in \<open>simp_all add: past_loop_def system_of_def\<close>, (erule (1) worker; simp)+)
qed


text \<open>The lines that the input still contained when the loop was left.\<close>

definition unread :: "'w helper \<Rightarrow> string list" where
  "unread h = coming (live h) (carried (line_reader (live h)))"

lemma worker_keeps_input: "worker_step core env i h = Some (Inr h') \<Longrightarrow> unread h' = unread h"
  by (auto simp: worker_step_def init_step_def work_step_def message_step_def notify_step_def free_step_def c_bind_eq_Inr
      unread_def coming_def split: life_point.splits if_splits)

lemma main_keeps_input: "main_step h = Some h' \<Longrightarrow> unread h' = unread h"
  by (auto simp: main_step_def async_step_def signalled_step_def cancel_step_def join_step_def unread_def coming_def
      split: main_point.splits list.splits if_splits)

lemma leaving_keeps_input:
  assumes "leaving h" "helper_next core env h h'"
  shows "unread h' = unread h"
proof -
  from assms(2) obtain a where step: "helper_step core env a h = Some (Inr h')" by (auto elim: helper_nextE)
  show ?thesis
  proof (cases a)
    case (Worker i)
    with step worker_keeps_input show ?thesis by (auto simp: helper_step_def split: if_splits)
  next
    case Main_Thread
    with step main_keeps_input show ?thesis by (auto simp: helper_step_def)
  qed (use step assms(1) in \<open>auto simp: helper_step_def callback_step_def sigint_step_def leaving_def\<close>)
qed

lemma done_answered:
  assumes ok: "life_ok wok core n lines h" and m: "main_thread h = Done" and n: "0 < n"
  shows "lines_channels lines = mset (map line_channel (stdout_lines (pool_of h))) + lines_channels (unread h)"
    "pool.job_queue (pool_of h) = []" "worker_points h = replicate n At_End"
proof -
  have linked: "linked h" and served: "served wok core n lines (live h)" and reach: "sys_reachable False n (system_of h)"
    using ok by (simp_all add: life_ok_def)
  from served obtain t enqueued pend where inv: "reader_holds (line_reader (live h)) t []"
    "list_all2 buf_cstr (cut_lines (live h)) pend" "lines = enqueued @ pend @ coming (live h) t"
    "pool_ok wok core (lines_channels enqueued) (pool_of h)" "length (threads (pool_of h)) = n" by (rule servedE)
  have len: "length (worker_points h) = n" using linked_length [OF linked] inv(5) by simp
  have gone: "worker_points h ! i = At_End" if "i < n" for i using that linked m len by (simp add: linked_def)
  show ends: "worker_points h = replicate n At_End"
    by (rule nth_equalityI) (simp_all add: len gone)
  have all: "threads (pool_of h) = replicate n Terminated"
    by (rule nth_equalityI) (use linked_at [OF linked] gone len inv(5) in force)+
  have "nulls (pool.job_queue (pool_of h)) = 0"
    using shutdown_ok_reachable [OF reach] by (simp add: shutdown_ok_def system_of_def m ends)
  moreover from inv(4) all n obtain k where "pool.job_queue (pool_of h) = replicate k None"
    unfolding pool_ok_def by auto
  ultimately show empty: "pool.job_queue (pool_of h) = []" by (cases k) (auto simp: nulls_def)
  have "sum_list (map thread_channel (replicate n Terminated)) = {#}" by (induction n) simp_all
  with inv(4) all empty have "mset (map line_channel (stdout_lines (pool_of h))) = lines_channels enqueued"
    by (simp add: pool_ok_def accounted_def)
  moreover have "pend = []" using inv(2) linked m by (auto simp: linked_def)
  ultimately show "lines_channels lines = mset (map line_channel (stdout_lines (pool_of h))) + lines_channels (unread h)"
    using inv(1,3) by (simp add: unread_def lines_channels_def reader_holds_carried)
qed

lemma leaving_run:
  assumes "life_ok wok core n lines h" "init_succeeds wok core" "guarded_chain wok (core_plugins core) bad" "leaving h"
    and "(helper_next core env)\<^sup>*\<^sup>* h h'"
  shows "life_ok wok core n lines h' \<and> leaving h' \<and> unread h' = unread h"
  using assms(5)
proof (induction rule: rtranclp_induct)
  case (step g h')
  then have g: "life_ok wok core n lines g" "leaving g" "unread g = unread h" by simp_all
  from step.hyps(2) obtain a where "helper_step core env a g = Some (Inr h')" by (auto elim: helper_nextE)
  from helper_step_ok [OF assms(3) g(1) assms(2) this] have "life_ok wok core n lines h'" by simp
  with leaving_decreases [OF g(1) assms(2,3) g(2) step.hyps(2)] leaving_keeps_input [OF g(2) step.hyps(2)] g(3)
  show ?case by simp
qed (use assms in simp)

lemma leaving_step:
  assumes "life_ok wok core n lines h" "init_succeeds wok core" "guarded_chain wok (core_plugins core) bad" "n \<le> 8"
    and "leaving h" "main_thread h \<noteq> Done" "\<And>e. \<not> bad e"
  shows "\<exists>h'. helper_next core env h h'"
proof -
  from leaving_progress [OF assms(1,4-6)] obtain a r where step: "helper_step core env a h = Some r" by blast
  with helper_step_ok [OF assms(3,1,2) step] assms(5,7) show ?thesis
    by (cases r) (auto simp: leaving_def life_fault_def worker_fault_def intro: helper_next.intros)
qed

lemma leaving_finishes:
  assumes "init_succeeds wok core" "guarded_chain wok (core_plugins core) bad" "n \<le> 8" "\<And>e. \<not> bad e"
  shows "life_ok wok core n lines h \<Longrightarrow> leaving h \<Longrightarrow> \<exists>h'. (helper_next core env)\<^sup>*\<^sup>* h h' \<and> main_thread h' = Done"
proof (induction "helper_work core h" arbitrary: h rule: less_induct)
  case less
  show ?case
  proof (cases "main_thread h = Done")
    case False
    from leaving_step [OF less.prems(1) assms(1-3) less.prems(2) False assms(4)] obtain g where g: "helper_next core env h g" by blast
    from g have run: "(helper_next core env)\<^sup>*\<^sup>* h g" by blast
    from leaving_run [OF less.prems(1) assms(1,2) less.prems(2) run]
      leaving_decreases [OF less.prems(1) assms(1,2) less.prems(2) g] less.hyps [of g]
    obtain h' where "(helper_next core env)\<^sup>*\<^sup>* g h'" "main_thread h' = Done" by blast
    with g show ?thesis by (blast intro: converse_rtranclp_into_rtranclp)
  qed blast
qed

text \<open>What is known of every state of the whole program.\<close>

lemma life_ok_run:
  assumes "guarded_chain wok (core_plugins core) bad" "init_succeeds wok core" "life_ok wok core n lines h0"
  shows "(helper_next core env)\<^sup>*\<^sup>* h0 h \<Longrightarrow> life_ok wok core n lines h"
proof (induction rule: rtranclp_induct)
  case (step g h)
  from step.hyps(2) obtain a where "helper_step core env a g = Some (Inr h)" by (auto elim: helper_nextE)
  from helper_step_ok [OF assms(1) step.IH assms(2) this] show ?case by simp
qed (rule assms(3))

subsection \<open>The deployed helper\<close>

text \<open>
  The three plugins with a memcached and a directory server that can be reached: the calls
  \<open>thread_init\<close> makes succeed, and a directory server is configured.
\<close>

definition connected ::
  "('w, 'r, 'e, 'a) ad_lib \<Rightarrow> 'w txt_access \<Rightarrow> ('w \<Rightarrow> string \<Rightarrow> string option) \<Rightarrow> 'w \<Rightarrow> bool" where
  "connected ad acc contents w \<longleftrightarrow> helper_ok ad acc contents w \<and> ad_uri (ad_data ad w) \<noteq> None"

definition services_up ::
  "('w, 's) mc_lib \<Rightarrow> ('w, 'r, 'e, 'a) ad_lib \<Rightarrow> 'w txt_access \<Rightarrow> ('w \<Rightarrow> string \<Rightarrow> string option) \<Rightarrow> bool" where
  "services_up mc ad acc contents \<longleftrightarrow>
     mc_contract mc (\<lambda>w. filter_ok (ad_data ad w) \<and> txt_ok acc w \<and> ad_uri (ad_data ad w) \<noteq> None) contents \<and>
     ad_contract ad (\<lambda>w. cache_sane contents w \<and> txt_ok acc w \<and> ad_uri (ad_data ad w) \<noteq> None) \<and>
     (\<forall>w. fst (memcached_create mc w)) \<and> (\<forall>s w. fst (memcached_server_push mc s w)) \<and>
     (\<forall>u w. fst (ldap_initialize ad u w) = LDAP_SUCCESS) \<and>
     (\<forall>d p w. fst (fst (ldap_sasl_bind ad d p w)) = LDAP_SUCCESS) \<and>
     (\<forall>d p w st i w'. ldap_sasl_bind ad d p w = ((st, i), w') \<longrightarrow> fst (fst (ldap_result ad i w')) = LDAP_RES_BIND)"

lemma connected_views:
  "mc_ok (\<lambda>w. filter_ok (ad_data ad w) \<and> txt_ok acc w \<and> ad_uri (ad_data ad w) \<noteq> None) contents = connected ad acc contents"
  "ad_ok ad (\<lambda>w. cache_sane contents w \<and> txt_ok acc w \<and> ad_uri (ad_data ad w) \<noteq> None) = connected ad acc contents"
  by (auto simp: fun_eq_iff mc_ok_def ad_ok_def connected_def helper_ok_def)

lemma services_plugins:
  assumes "services_up mc ad acc contents"
  shows "plugin_ok (connected ad acc contents) (memcached_plugin mc)"
    "plugin_ok (connected ad acc contents) (txtfile_plugin acc w0)"
    "plugin_guarded (connected ad acc contents) (directory_fault ad) (activedirectory_plugin ad w0)"
proof -
  show "plugin_ok (connected ad acc contents) (memcached_plugin mc)"
    using assms unfolding services_up_def connected_views(1) [symmetric]
    by (intro memcached_plugin_ok) simp
  show "plugin_ok (connected ad acc contents) (txtfile_plugin acc w0)"
    by (rule txtfile_plugin_ok) (simp add: connected_def helper_ok_def)
  show "plugin_guarded (connected ad acc contents) (directory_fault ad) (activedirectory_plugin ad w0)"
    using assms unfolding services_up_def connected_views(2) [symmetric]
    by (intro activedirectory_plugin_guarded) simp
qed

interpretation services:
  guarded_chain "\<lambda>w. services_up mc ad acc contents \<and> connected ad acc contents w"
    "all_plugins mc ad acc w0" "directory_fault ad"
  for mc ad acc contents w0
proof
  fix p assume "p \<in> set (all_plugins mc ad acc w0)"
  then show "plugin_guarded (\<lambda>w. services_up mc ad acc contents \<and> connected ad acc contents w) (directory_fault ad) p"
  proof (cases "services_up mc ad acc contents")
    case True
    with \<open>p \<in> set (all_plugins mc ad acc w0)\<close> services_plugins [OF True] show ?thesis
      by (auto simp: all_plugins_def intro: plugin_ok_guarded)
  qed (simp add: plugin_guarded_def hook_guarded_def hook_ok_def)
qed

lemma services_chain:
  assumes "services_up mc ad acc contents"
  shows "guarded_chain (connected ad acc contents) (all_plugins mc ad acc w0) (directory_fault ad)"
  using services.guarded_chain_axioms [of mc ad acc contents w0] assms by simp

lemma services_hook_fault:
  assumes "services_up mc ad acc contents" "core_plugins core = all_plugins mc ad acc w0"
    and "served (connected ad acc contents) core n lines (live h)" "worker_fault bad core i e h"
  shows "\<exists>req ps. threads (pool_of h) ! i = Handling req (activedirectory_plugin ad w0 # ps)
    \<and> webcontrol_activedirectory_handle_request ad req (outside (pool_of h)) = Inl e"
proof -
  from assms(4) obtain p where p: "i < length (threads (pool_of h))" "p \<in> set (all_plugins mc ad acc w0)"
    "hook_fault (pool_of h) i p e" using assms(2) by (auto simp: worker_fault_def)
  from assms(3) obtain channels where ok: "pool_ok (connected ad acc contents) core channels (pool_of h)" by (rule servedE)
  then have "thread_ok (core_plugins core) (threads (pool_of h) ! i)"
    using p(1) by (simp add: pool_ok_def list_all_length)
  moreover have "connected ad acc contents (outside (pool_of h))" using ok by (simp add: pool_ok_def)
  ultimately show ?thesis
    using hook_fault_directory [OF services_plugins(1,2) [OF assms(1)] _ p(2,3)] by blast
qed

lemma memcached_init_up:
  assumes "services_up mc ad acc contents" "webcontrol_memcached_thread_init mc w = Inr (rc, w')"
  shows "rc = 0"
  using assms by (auto simp: services_up_def webcontrol_memcached_thread_init_def Let_def split: prod.splits if_splits option.splits)
    (metis fst_conv)+

lemma activedirectory_init_up:
  assumes "services_up mc ad acc contents" "ad_uri (ad_data ad w) \<noteq> None"
    and "webcontrol_activedirectory_thread_init ad w = Inr (rc, w')"
  shows "rc = 0"
proof -
  from assms(2) obtain uri where uri: "ad_uri (ad_data ad w) = Some uri" by blast
  obtain w1 where 1: "ldap_initialize ad uri w = (LDAP_SUCCESS, w1)"
    using assms(1) by (metis services_up_def prod.collapse)
  obtain i w2 where 2: "ldap_sasl_bind ad (ad_bind_dn (ad_data ad w)) (ad_bind_password (ad_data ad w)) w1 = ((LDAP_SUCCESS, i), w2)"
    using assms(1) by (metis services_up_def prod.collapse)
  then have "fst (fst (ldap_result ad i w2)) = LDAP_RES_BIND" using assms(1) by (simp add: services_up_def)
  with assms(3) uri 1 2 show ?thesis
    by (auto simp: webcontrol_activedirectory_thread_init_def webcontrol_activedirectory_ldap_open_def split: prod.splits)
qed

lemma services_init:
  assumes "services_up mc ad acc contents" "core_plugins core = all_plugins mc ad acc w0"
  shows "init_succeeds (connected ad acc contents) core"
  unfolding init_succeeds_def
proof (intro allI impI notI)
  fix w w' assume w: "connected ad acc contents w" and run: "run_thread_init (core_plugins core) w = Inr (False, w')"
  have "plugin_ok (connected ad acc contents) (memcached_plugin mc)" by (rule services_plugins(1) [OF assms(1)])
  with w obtain rc w1 where 1: "webcontrol_memcached_thread_init mc w = Inr (rc, w1)" "connected ad acc contents w1"
    by (auto simp: plugin_ok_def memcached_plugin_hooks)
  with memcached_init_up [OF assms(1)] have "rc = 0" by blast
  with run assms(2) 1(1) obtain rc2 w2 where 2: "webcontrol_activedirectory_thread_init ad w1 = Inr (rc2, w2)" "rc2 \<noteq> 0"
    by (auto simp: all_plugins_def memcached_plugin_hooks activedirectory_plugin_hooks txtfile_plugin_hooks c_bind_eq_Inr
        split: if_splits)
  with activedirectory_init_up [OF assms(1) _ 2(1)] 1(2) show False by (simp add: connected_def)
qed

lemma file_changed_connected:
  assumes "data_separate mc ad acc contents"
  shows "keeps_world (connected ad acc contents) (map (file_changed acc) files)"
  unfolding keeps_world_def
proof (intro ballI allI impI)
  fix change w out w' assume ch: "change \<in> set (map (file_changed acc) files)" "change w = Inr (out, w')"
    and ok: "connected ad acc contents w"
  have "helper_ok ad acc contents w' \<and> (out = [] \<or> out \<in> notices)"
    using file_changed_keeps [OF assms, of files] ch ok by (auto simp: keeps_world_def connected_def)
  moreover have "ad_data ad w' = ad_data ad w"
    using ch assms by (auto simp: file_changed_def data_separate_def c_bind_eq_Inr)
  ultimately show "connected ad acc contents w' \<and> (out = [] \<or> out \<in> notices)" using ok by (simp add: connected_def)
qed

text \<open>
  C2: the shutdown loses nothing.  All three plugins loaded, services that can be
  reached, between one and eight workers, any input: whenever a signal has ended the event loop,
  wherever the workers are then and however they are scheduled afterwards, the only fault is
  that of a worker that asks the directory plugin, on a value that is missing or shorter than
  the four bytes it is compared with; every step brings the end closer, and until the end
  some actor can always go on.  At the end the queue is empty, every worker is gone, every
  text that was written to stdout is a reply of the protocol or one of the two notices of the
  main thread, and each line that had been read before the signal has been answered exactly
  once.  When the directory has no such value no step faults and the end is reached.
\<close>

theorem shutdown_answers_what_was_read:
  assumes "services_up mc ad acc contents" "data_separate mc ad acc contents" "connected ad acc contents w"
    and "core_plugins core = all_plugins mc ad acc w0"
    and "list_all read_fits rs" "sum_list (map read_size rs) \<le> TEXT_LIMIT" "0 < n" "n \<le> 8"
    and "(helper_next core env)\<^sup>*\<^sup>* (helper_init n rs (map (file_changed acc) files) w) h" "leaving h"
  shows "(\<forall>a e. helper_step core env a h = Some (Inl e) \<longrightarrow>
        directory_fault ad e \<and> (\<exists>i req ps. a = Worker i
          \<and> threads (pool_of h) ! i = Handling req (activedirectory_plugin ad w0 # ps)
          \<and> webcontrol_activedirectory_handle_request ad req (outside (pool_of h)) = Inl e))
    \<and> (\<forall>h'. helper_next core env h h' \<longrightarrow> leaving h' \<and> helper_work core h' < helper_work core h)
    \<and> (main_thread h \<noteq> Done \<longrightarrow> (\<exists>a r. helper_step core env a h = Some r))
    \<and> ((\<nexists>e. directory_fault ad e) \<longrightarrow> (\<exists>h'. (helper_next core env)\<^sup>*\<^sup>* h h' \<and> main_thread h' = Done))
    \<and> (\<forall>h'. (helper_next core env)\<^sup>*\<^sup>* h h' \<longrightarrow> main_thread h' = Done \<longrightarrow>
         pool.job_queue (pool_of h') = [] \<and> worker_points h' = replicate n At_End
         \<and> (\<forall>out \<in> set (console (live h')). squid_reply (line_channel out) out \<or> out \<in> {eof_message, ''ERROR'' @ [NL]})
         \<and> lines_channels (fst (text_reads rs [])) =
             mset (map line_channel (filter reply_line (console (live h')))) + lines_channels (unread h))"
proof -
  let ?wok = "connected ad acc contents" and ?lines = "fst (text_reads rs [])"
  have chain: "guarded_chain ?wok (core_plugins core) (directory_fault ad)" using services_chain [OF assms(1)] assms(4) by simp
  note init = services_init [OF assms(1,4)]
  have "life_ok ?wok core n ?lines (helper_init n rs (map (file_changed acc) files) w)"
    by (rule life_ok_init [OF assms(3,5,6) file_changed_connected [OF assms(2)]])
  from life_ok_run [OF chain init this assms(9)] have ok: "life_ok ?wok core n ?lines h" .
  then have served: "served ?wok core n ?lines (live h)" by (simp add: life_ok_def)
  have 1: "directory_fault ad e \<and> (\<exists>i req ps. a = Worker i
          \<and> threads (pool_of h) ! i = Handling req (activedirectory_plugin ad w0 # ps)
          \<and> webcontrol_activedirectory_handle_request ad req (outside (pool_of h)) = Inl e)"
    if "helper_step core env a h = Some (Inl e)" for a e
  proof -
    from helper_step_ok [OF chain ok init that] assms(10) obtain i where i: "a = Worker i" "worker_fault (directory_fault ad) core i e h"
      by (auto simp: leaving_def life_fault_def)
    with services_hook_fault [OF assms(1,4) served i(2)] show ?thesis by (auto simp: worker_fault_def)
  qed
  have 2: "\<exists>h'. (helper_next core env)\<^sup>*\<^sup>* h h' \<and> main_thread h' = Done" if "\<nexists>e. directory_fault ad e"
    using leaving_finishes [OF init chain assms(8) _ ok assms(10)] that by blast
  have 3: "pool.job_queue (pool_of h') = [] \<and> worker_points h' = replicate n At_End
      \<and> (\<forall>out \<in> set (console (live h')). squid_reply (line_channel out) out \<or> out \<in> {eof_message, ''ERROR'' @ [NL]})
      \<and> lines_channels ?lines = mset (map line_channel (filter reply_line (console (live h')))) + lines_channels (unread h)"
    if "(helper_next core env)\<^sup>*\<^sup>* h h'" "main_thread h' = Done" for h'
  proof -
    from leaving_run [OF ok init chain assms(10) that(1)]
    have ok': "life_ok ?wok core n ?lines h'" and u: "unread h' = unread h" by simp_all
    from ok' have "console_ok (live h')" by (auto simp: life_ok_def elim: servedE)
    with done_answered [OF ok' that(2) assms(7)] u show ?thesis
      by (simp add: console_ok_def reply_line_def notices_def)
  qed
  show ?thesis
    using 1 2 3 leaving_decreases [OF ok init chain assms(10)] leaving_progress [OF ok assms(8,10)] by blast
qed


text \<open>A run for the witness: one read, its lines enqueued, then a signal.\<close>

lemma enqueue_run:
  "main_thread h = Looping \<Longrightarrow> length (pool.job_queue (pool_of h)) + length (cut_lines (live h)) \<le> JOB_QUEUE_SLOTS \<Longrightarrow>
    \<exists>h'. (helper_next core env)\<^sup>*\<^sup>* h h' \<and> main_thread h' = Looping \<and> cut_lines (live h') = []
      \<and> arriving (live h') = arriving (live h)"
proof (induction "cut_lines (live h)" arbitrary: h)
  case (Cons b bs)
  let ?g = "h\<lparr>live := (live h)\<lparr>cut_lines := bs, worker_pool := (pool_of h)
    \<lparr>pool.job_queue := pool.job_queue (pool_of h) @ [Some b]\<rparr>\<rparr>\<rparr>"
  have cut: "cut_lines (live h) = b # bs" using Cons.hyps(2) by simp
  have "helper_step core env Stdin_Callback h = Some (Inr ?g)"
    using Cons.prems cut by (simp add: helper_step_def callback_step_def stdin_step_def)
  then have "helper_next core env h ?g" by (rule helper_next.intros)
  moreover from Cons.hyps(1) [of ?g] Cons.prems cut obtain h' where
    "(helper_next core env)\<^sup>*\<^sup>* ?g h'" "main_thread h' = Looping" "cut_lines (live h') = []"
    "arriving (live h') = arriving (live h)" by auto
  ultimately show ?case by (blast intro: converse_rtranclp_into_rtranclp)
qed auto

lemma read_then_signal:
  assumes "read_fits r" "read_size r \<le> TEXT_LIMIT" "length (fst (text_reads [r] [])) \<le> JOB_QUEUE_SLOTS"
  shows "\<exists>h. (helper_next core env)\<^sup>*\<^sup>* (helper_init n [r] chs w) h \<and> leaving h \<and> unread h = []"
proof -
  let ?h = "helper_init n [r] chs w"
  have "reads_ok [r] []" using assms(1,2) by (simp add: reads_ok_def)
  moreover have "stdin_watched reader_init" by (simp add: reader_init_def)
  ultimately obtain r' rest returned t ls where run: "stdin_read_cb [r] reader_init = Inr (r', rest, returned)"
    "reader_holds r' t ([] @ ls)" "loop_result [r] reader_init [] r' rest returned t ls" "length rest < length [r]"
    using stdin_read_cb_ok [OF reader_holds_init, of "[r]"] by (metis list.distinct(1))
  let ?g = "?h\<lparr>live := (live ?h)\<lparr>arriving := rest, line_reader := r'\<lparr>jobs := []\<rparr>, cut_lines := jobs r',
      console := written (drop (length (rd_stdout reader_init)) (rd_stdout r'))\<rparr>\<rparr>"
  have rest: "rest = []" using run(4) by simp
  have "length ls \<le> JOB_QUEUE_SLOTS" using run(3) assms(3) by (auto simp: loop_result_def split: if_splits)
  then have "length (jobs r') \<le> JOB_QUEUE_SLOTS" using run(2) by (auto simp: reader_holds_def dest: list_all2_lengthD)
  then obtain g' where g': "(helper_next core env)\<^sup>*\<^sup>* ?g g'" "main_thread g' = Looping" "cut_lines (live g') = []"
    "arriving (live g') = []"
    using enqueue_run [of ?g core env] rest by (auto simp: helper_init_def running_init_def pool_init_def)
  have "helper_step core env Stdin_Callback ?h = Some (Inr ?g)"
    using run(1) \<open>stdin_watched reader_init\<close>
    by (simp add: helper_step_def callback_step_def stdin_step_def helper_init_def running_init_def)
  then have "helper_next core env ?h ?g" by (rule helper_next.intros)
  moreover have "helper_next core env g' (g'\<lparr>main_thread := Cancel 0\<rparr>)"
    by (rule helper_next.intros [of _ _ Signal]) (simp add: helper_step_def sigint_step_def g')
  ultimately have "(helper_next core env)\<^sup>*\<^sup>* ?h (g'\<lparr>main_thread := Cancel 0\<rparr>)"
    using g'(1) by (meson converse_rtranclp_into_rtranclp rtranclp.rtrancl_into_rtrancl)
  then show ?thesis
    using g'(4) by (intro exI [of _ "g'\<lparr>main_thread := Cancel 0\<rparr>"]) (simp add: leaving_def unread_def coming_def)
qed

lemma demo_services: "services_up demo_mc demo_ad demo_acc d_cache"
  by (auto simp: services_up_def mc_contract_def ad_contract_def demo_mc_def demo_ad_def demo_acc_def txt_ok_def
      LDAP_SUCCESS_def LDAP_RES_BIND_def)

lemma demo_connected: "connected demo_ad demo_acc d_cache demo_world"
  using demo_helper_ok by (simp add: connected_def) (simp add: demo_ad_def demo_world_def)

theorem shutdown_answers_what_was_read_witness:
  "\<exists>h. (helper_next demo_core two_hosts)\<^sup>*\<^sup>* (helper_init 2 [ReadBytes (''3 10.0.0.1'' @ [NL])] [] demo_world) h
     \<and> main_thread h = Done
     \<and> mset (map line_channel (filter reply_line (console (live h)))) = lines_channels [''3 10.0.0.1'']"
proof -
  let ?r = "ReadBytes (''3 10.0.0.1'' @ [NL])"
  let ?init = "helper_init 2 [?r] (map (file_changed demo_acc) []) demo_world"
  have c: "core_plugins demo_core = all_plugins demo_mc demo_ad demo_acc demo_world" by (simp add: demo_core_def)
  have fits: "list_all read_fits [?r]" by (simp add: STDIN_BUF_CHUNKSIZE_def)
  have size: "sum_list (map read_size [?r]) \<le> TEXT_LIMIT" by (simp add: TEXT_LIMIT_def)
  have lines: "fst (text_reads [?r] []) = [''3 10.0.0.1'']" by (simp add: chunk_text_def)
  obtain h where h: "(helper_next demo_core two_hosts)\<^sup>*\<^sup>* ?init h" "leaving h" "unread h = []"
    using read_then_signal [of ?r demo_core two_hosts 2 "map (file_changed demo_acc) []" demo_world] fits size lines
    by (auto simp: JOB_QUEUE_SLOTS_def)
  note shutdown = shutdown_answers_what_was_read [OF demo_services demo_data_separate demo_connected c
      fits size _ _ h(1,2)]
  from shutdown demo_no_fault obtain h' where h': "(helper_next demo_core two_hosts)\<^sup>*\<^sup>* h h'" "main_thread h' = Done" by auto
  with shutdown h(3) lines have "mset (map line_channel (filter reply_line (console (live h')))) = lines_channels [''3 10.0.0.1'']"
    by (auto simp: lines_channels_def)
  moreover have "(helper_next demo_core two_hosts)\<^sup>*\<^sup>* ?init h'" using h(1) h'(1) by (rule rtranclp_trans)
  ultimately show ?thesis using h'(2) by auto
qed

end
