(* ===== verification/Job_Memory.thy ===== *)
theory Job_Memory
  imports C_Heap Worker_Pool
begin

text \<open>
  Who owns a job: the lines that \<open>stdin_read_cb\<close> allocates and the requests the workers
  allocate for them (\<open>src/core/main.c\<close>, \<open>worker\<close>), with \<open>free (req)\<close> and \<open>buffer_free (line)\<close> at
  the label \<open>endrequest\<close>.  The queue carries pointers, as in the code; using or freeing a
  block that is not allocated is the fault \<open>BadPointer\<close>.

  The pool of workers on these pointers refines the pool of the theory \<open>Worker_Pool\<close>, in which
  lines and requests are values.
\<close>

section \<open>Blocks\<close>

text \<open>What \<open>malloc\<close> returns here: an array of characters, a \<open>buffer\<close> struct, a \<open>request\<close>.\<close>

datatype job_object = Chars block | Line_Struct "addr option" size_t size_t | Request_Struct request

definition load_line :: "job_object heap \<Rightarrow> addr option \<Rightarrow> buffer c_result" where
  "load_line h l =
     c_bind (hp_load h l) (\<lambda>x. case x of
       Line_Struct None len cap \<Rightarrow> Inr \<lparr>buf_ptr = None, buf_len = len, buf_capacity = cap\<rparr>
     | Line_Struct (Some p) len cap \<Rightarrow>
         c_bind (hp_load h (Some p)) (\<lambda>y. case y of
           Chars blk \<Rightarrow> Inr \<lparr>buf_ptr = Some blk, buf_len = len, buf_capacity = cap\<rparr>
         | _ \<Rightarrow> Inl BadPointer)
     | _ \<Rightarrow> Inl BadPointer)"

definition load_request :: "job_object heap \<Rightarrow> addr \<Rightarrow> request c_result" where
  "load_request h r =
     c_bind (hp_load h (Some r)) (\<lambda>x. case x of Request_Struct req \<Rightarrow> Inr req | _ \<Rightarrow> Inl BadPointer)"

text \<open>\<open>buffer_free\<close>\<close>

definition line_free :: "job_object heap \<Rightarrow> addr option \<Rightarrow> job_object heap c_result" where
  "line_free h l =
     (if l = None then Inr h
      else c_bind (hp_load h l) (\<lambda>x. case x of
        Line_Struct p len cap \<Rightarrow> c_bind (hp_free h p) (\<lambda>h. hp_free h l)
      | _ \<Rightarrow> Inl BadPointer))"

text \<open>The two blocks of a new line, as the buffer functions leave them: the struct and its characters.\<close>

definition line_alloc :: "(job_object heap \<Rightarrow> addr) \<Rightarrow> buffer \<Rightarrow> job_object heap \<Rightarrow> addr \<times> job_object heap" where
  "line_alloc pick b h =
     (let (l, h) = hp_malloc pick (Line_Struct None (buf_len b) (buf_capacity b)) h in
      case buf_ptr b of
        None \<Rightarrow> (l, h)
      | Some blk \<Rightarrow>
          (let (p, h) = hp_malloc pick (Chars blk) h
           in (l, AList.update l (Line_Struct (Some p) (buf_len b) (buf_capacity b)) h)))"

section \<open>The reader and the workers\<close>

text \<open>Where a worker is, with the pointers it holds: \<open>line\<close> and \<open>req\<close>.\<close>

datatype 'w holding =
    Idle
  | Asking addr addr "'w plugin list"
  | Posting addr addr "'w plugin list"
  | Ending addr addr
  | Ended

record 'w memory_pool =
  heap :: "job_object heap"
  arrivals :: "buffer option list"    \<comment> \<open>the lines still to be enqueued, and the null pointers after them\<close>
  queued :: "addr option list"
  holdings :: "'w holding list"
  mp_world :: 'w
  mp_stdout :: "string list"

definition take_step :: "(job_object heap \<Rightarrow> addr) \<Rightarrow> 'w core \<Rightarrow> net_env \<Rightarrow> nat \<Rightarrow> 'w memory_pool \<Rightarrow>
    'w memory_pool c_result option" where
  "take_step pick core env i s =
     (case queued s of
        [] \<Rightarrow> None
      | None # q \<Rightarrow> Some (Inr (s\<lparr>queued := q, holdings := (holdings s)[i := Ended]\<rparr>))
      | Some l # q \<Rightarrow> Some (
          let (r, h) = hp_malloc pick (Request_Struct (new_request (core_have_ipv6 core))) (heap s) in
          c_bind (load_line h (Some l)) (\<lambda>line.
          c_bind (parse_job (core_have_ipv6 core) env line) (\<lambda>(req, valid).
          c_bind (hp_store h (Some r) (Request_Struct req)) (\<lambda>h.
          if valid
          then Inr (s\<lparr>heap := h, queued := q, holdings := (holdings s)[i := Asking l r (core_plugins core)]\<rparr>)
          else Inr (s\<lparr>heap := h, queued := q, holdings := (holdings s)[i := Ending l r],
            mp_stdout := mp_stdout s @ printed (refuse req)\<rparr>))))))"

definition ask_step :: "addr \<Rightarrow> addr \<Rightarrow> 'w plugin \<Rightarrow> 'w plugin list \<Rightarrow> nat \<Rightarrow> 'w memory_pool \<Rightarrow>
    'w memory_pool c_result" where
  "ask_step l r p ps i s =
     (case pl_handle_request p of
        None \<Rightarrow> Inr (s\<lparr>holdings := (holdings s)[i := Asking l r ps]\<rparr>)
      | Some hook \<Rightarrow>
          c_bind (load_request (heap s) r) (\<lambda>req.
          c_bind (hook req (mp_world s)) (\<lambda>(status, req, w).
          c_bind (hp_store (heap s) (Some r) (Request_Struct (req\<lparr>response_result := status_code status\<rparr>))) (\<lambda>h.
          Inr (s\<lparr>heap := h, mp_world := w,
            holdings := (holdings s)[i := Asking l r (if status \<noteq> HANDLER_GO_ON then [] else ps)]\<rparr>)))))"

definition answer_step :: "'w core \<Rightarrow> addr \<Rightarrow> addr \<Rightarrow> nat \<Rightarrow> 'w memory_pool \<Rightarrow> 'w memory_pool c_result" where
  "answer_step core l r i s =
     c_bind (load_request (heap s) r) (\<lambda>req.
     let (out, go_on) = answer (core_deny_by_default core) req in
     Inr (s\<lparr>holdings := (holdings s)[i := if go_on \<and> \<not> skip_post_handle_request req
         then Posting l r (core_plugins core) else Ending l r],
       mp_stdout := mp_stdout s @ [out]\<rparr>))"

fun posting_step :: "addr \<Rightarrow> addr \<Rightarrow> 'w plugin list \<Rightarrow> nat \<Rightarrow> 'w memory_pool \<Rightarrow> 'w memory_pool c_result" where
  "posting_step l r [] i s = Inr (s\<lparr>holdings := (holdings s)[i := Ending l r]\<rparr>)"
| "posting_step l r (p # ps) i s =
     (case pl_post_handle_request p of
        None \<Rightarrow> Inr (s\<lparr>holdings := (holdings s)[i := Posting l r ps]\<rparr>)
      | Some hook \<Rightarrow>
          c_bind (load_request (heap s) r) (\<lambda>req.
          c_bind (hook req (mp_world s)) (\<lambda>(_, req, w).
          c_bind (hp_store (heap s) (Some r) (Request_Struct req)) (\<lambda>h.
          Inr (s\<lparr>heap := h, mp_world := w, holdings := (holdings s)[i := Posting l r ps]\<rparr>)))))"

text \<open>\<open>endrequest\<close>\<close>

definition endrequest_step :: "addr \<Rightarrow> addr \<Rightarrow> nat \<Rightarrow> 'w memory_pool \<Rightarrow> 'w memory_pool c_result" where
  "endrequest_step l r i s =
     c_bind (hp_free (heap s) (Some r)) (\<lambda>h.
     c_bind (line_free h (Some l)) (\<lambda>h.
     Inr (s\<lparr>heap := h, holdings := (holdings s)[i := Idle]\<rparr>)))"

definition memory_step :: "(job_object heap \<Rightarrow> addr) \<Rightarrow> 'w core \<Rightarrow> net_env \<Rightarrow> nat \<Rightarrow> 'w memory_pool \<Rightarrow>
    'w memory_pool c_result option" where
  "memory_step pick core env i s =
     (case holdings s ! i of
        Idle \<Rightarrow> take_step pick core env i s
      | Asking l r [] \<Rightarrow> Some (answer_step core l r i s)
      | Asking l r (p # ps) \<Rightarrow> Some (ask_step l r p ps i s)
      | Posting l r ps \<Rightarrow> Some (posting_step l r ps i s)
      | Ending l r \<Rightarrow> Some (endrequest_step l r i s)
      | Ended \<Rightarrow> None)"

text \<open>The reader allocates a line and enqueues it; \<open>main\<close> enqueues the null pointers.\<close>

definition arrival_step :: "(job_object heap \<Rightarrow> addr) \<Rightarrow> 'w memory_pool \<Rightarrow> 'w memory_pool option" where
  "arrival_step pick s =
     (case arrivals s of
        [] \<Rightarrow> None
      | None # js \<Rightarrow> Some (s\<lparr>arrivals := js, queued := queued s @ [None]\<rparr>)
      | Some b # js \<Rightarrow>
          (let (l, h) = line_alloc pick b (heap s)
           in Some (s\<lparr>heap := h, arrivals := js, queued := queued s @ [Some l]\<rparr>)))"

definition memory_init :: "nat \<Rightarrow> buffer option list \<Rightarrow> 'w \<Rightarrow> 'w memory_pool" where
  "memory_init n js w =
     \<lparr>heap = [], arrivals = js, queued = [], holdings = replicate n Idle, mp_world = w, mp_stdout = []\<rparr>"

inductive memory_next :: "(job_object heap \<Rightarrow> addr) \<Rightarrow> 'w core \<Rightarrow> net_env \<Rightarrow> 'w memory_pool \<Rightarrow> 'w memory_pool \<Rightarrow> bool"
  for pick core env where
  arrival: "arrival_step pick s = Some s' \<Longrightarrow> memory_next pick core env s s'"
| worker: "i < length (holdings s) \<Longrightarrow> memory_step pick core env i s = Some (Inr s') \<Longrightarrow> memory_next pick core env s s'"

inductive_cases memory_nextE: "memory_next pick core env s s'"

section \<open>Ownership\<close>

definition line_blocks :: "job_object heap \<Rightarrow> addr \<Rightarrow> addr multiset" where
  "line_blocks h l = (case map_of h l of Some (Line_Struct (Some p) len cap) \<Rightarrow> {#l, p#} | _ \<Rightarrow> {#l#})"

fun job_blocks :: "job_object heap \<Rightarrow> addr option \<Rightarrow> addr multiset" where
  "job_blocks h None = {#}"
| "job_blocks h (Some l) = line_blocks h l"

fun hold_blocks :: "job_object heap \<Rightarrow> 'w holding \<Rightarrow> addr multiset" where
  "hold_blocks h (Asking l r ps) = add_mset r (line_blocks h l)"
| "hold_blocks h (Posting l r ps) = add_mset r (line_blocks h l)"
| "hold_blocks h (Ending l r) = add_mset r (line_blocks h l)"
| "hold_blocks h _ = {#}"

definition owned :: "job_object heap \<Rightarrow> addr option list \<Rightarrow> 'w holding list \<Rightarrow> addr multiset" where
  "owned h q hs = sum_list (map (job_blocks h) q) + sum_list (map (hold_blocks h) hs)"

text \<open>
  The pointers stand for the values of the pool, and the allocated blocks are exactly those
  the queue and the workers own, each once.
\<close>

fun job_at :: "job_object heap \<Rightarrow> addr option \<Rightarrow> buffer option \<Rightarrow> bool" where
  "job_at h None j \<longleftrightarrow> j = None"
| "job_at h (Some l) j \<longleftrightarrow> (\<exists>b. j = Some b \<and> load_line h (Some l) = Inr b)"

fun hold_at :: "job_object heap \<Rightarrow> 'w holding \<Rightarrow> 'w thread_at \<Rightarrow> bool" where
  "hold_at h Idle t \<longleftrightarrow> t = Dequeuing"
| "hold_at h (Asking l r ps) t \<longleftrightarrow>
     (\<exists>b req. load_line h (Some l) = Inr b \<and> load_request h r = Inr req \<and> t = Handling req ps)"
| "hold_at h (Posting l r ps) t \<longleftrightarrow>
     (\<exists>b req. load_line h (Some l) = Inr b \<and> load_request h r = Inr req \<and> t = Storing req ps)"
| "hold_at h (Ending l r) t \<longleftrightarrow>
     (\<exists>b req. load_line h (Some l) = Inr b \<and> load_request h r = Inr req) \<and> t = Dequeuing"
| "hold_at h Ended t \<longleftrightarrow> t = Terminated"

definition represents :: "'w memory_pool \<Rightarrow> 'w pool \<Rightarrow> bool" where
  "represents s p \<longleftrightarrow>
     (\<exists>js. list_all2 (job_at (heap s)) (queued s) js \<and> job_queue p = js @ arrivals s)
     \<and> list_all2 (hold_at (heap s)) (holdings s) (threads p)
     \<and> outside p = mp_world s \<and> stdout_lines p = mp_stdout s
     \<and> owned (heap s) (queued s) (holdings s) = mset_set (fst ` set (heap s))"

lemma sum_list_replicate_empty: "sum_list (replicate m {#}) = {#}"
  by (induction m) simp_all

lemma represents_init: "represents (memory_init n js w) (pool_init n js w)"
proof -
  have "sum_list (map (hold_blocks []) (replicate n Idle)) = {#}" by (induction n) simp_all
  moreover have "list_all2 (hold_at []) (replicate n Idle) (replicate n Dequeuing)"
    by (simp add: list_all2_conv_all_nth)
  ultimately show ?thesis by (simp add: represents_def memory_init_def pool_init_def owned_def)
qed

subsection \<open>Frames\<close>

lemma line_frame:
  assumes "\<And>a. a \<in># line_blocks h l \<Longrightarrow> map_of h' a = map_of h a"
  shows "line_blocks h' l = line_blocks h l" "load_line h' (Some l) = load_line h (Some l)"
proof -
  have l: "map_of h' l = map_of h l"
    by (rule assms) (simp add: line_blocks_def split: option.split job_object.split)
  then show "line_blocks h' l = line_blocks h l" by (simp add: line_blocks_def)
  show "load_line h' (Some l) = load_line h (Some l)"
  proof (cases "\<exists>p len cap. map_of h l = Some (Line_Struct (Some p) len cap)")
    case True
    then obtain p len cap where p: "map_of h l = Some (Line_Struct (Some p) len cap)" by blast
    then have "map_of h' p = map_of h p" by (intro assms) (simp add: line_blocks_def)
    with l p show ?thesis by (simp add: load_line_def hp_load_def)
  next
    case False
    with l show ?thesis
      by (cases "map_of h l") (auto simp: load_line_def hp_load_def split: job_object.split option.split)
  qed
qed

lemma request_frame: "map_of h' r = map_of h r \<Longrightarrow> load_request h' r = load_request h r"
  by (simp add: load_request_def hp_load_def)

lemma job_frame:
  assumes "\<And>a. a \<in># job_blocks h j \<Longrightarrow> map_of h' a = map_of h a"
  shows "job_blocks h' j = job_blocks h j" "job_at h' j v = job_at h j v"
  using assms line_frame [of h _ h'] by (cases j; simp)+

lemma hold_frame:
  assumes "\<And>a. a \<in># hold_blocks h t \<Longrightarrow> map_of h' a = map_of h a"
  shows "hold_blocks h' t = hold_blocks h t" "hold_at h' t v = hold_at h t v"
  using assms line_frame [of h _ h'] request_frame [of h' _ h] by (cases t; simp)+

lemma sum_list_member: "x \<in> set xs \<Longrightarrow> a \<in># f x \<Longrightarrow> a \<in># sum_list (map f xs)"
  by (induction xs) auto

text \<open>
  A predicate on the heap that depends on the blocks of its subject only; what it says of a
  list survives every change elsewhere.
\<close>

locale framed =
  fixes blocks :: "job_object heap \<Rightarrow> 'p \<Rightarrow> addr multiset" and fits :: "job_object heap \<Rightarrow> 'p \<Rightarrow> 'v \<Rightarrow> bool"
  assumes blocks_frame: "(\<And>a. a \<in># blocks h x \<Longrightarrow> map_of h' a = map_of h a) \<Longrightarrow> blocks h' x = blocks h x"
    and fits_frame: "(\<And>a. a \<in># blocks h x \<Longrightarrow> map_of h' a = map_of h a) \<Longrightarrow> fits h' x v = fits h x v"
begin

lemma list_blocks:
  assumes "\<And>a. a \<in># sum_list (map (blocks h) xs) \<Longrightarrow> map_of h' a = map_of h a"
  shows "sum_list (map (blocks h') xs) = sum_list (map (blocks h) xs)"
proof -
  have "map (blocks h') xs = map (blocks h) xs"
    by (intro map_cong refl blocks_frame assms) (rule sum_list_member)
  then show ?thesis by (rule arg_cong)
qed

lemma list_fits:
  assumes "\<And>a. a \<in># sum_list (map (blocks h) xs) \<Longrightarrow> map_of h' a = map_of h a" "list_all2 (fits h) xs vs"
  shows "list_all2 (fits h') xs vs"
proof (rule list.rel_mono_strong [OF assms(2)])
  fix x v assume "x \<in> set xs" "fits h x v"
  then show "fits h' x v" using fits_frame [of h x h' v] assms(1) sum_list_member [of x xs _ "blocks h"] by blast
qed

end

interpretation jobs: framed job_blocks job_at
  by unfold_locales (rule job_frame, blast)+

interpretation holds: framed hold_blocks hold_at
  by unfold_locales (rule hold_frame, blast)+

text \<open>All blocks but those of one worker, and what a step that touches only that worker's blocks keeps.\<close>

definition others :: "job_object heap \<Rightarrow> 'w holding list \<Rightarrow> nat \<Rightarrow> addr multiset" where
  "others h hs i = sum_list (map (hold_blocks h) (take i hs)) + sum_list (map (hold_blocks h) (drop (Suc i) hs))"

lemma holds_split:
  assumes "i < length hs"
  shows "sum_list (map (hold_blocks h) hs) = hold_blocks h (hs ! i) + others h hs i"
    "sum_list (map (hold_blocks h) (hs[i := x])) = hold_blocks h x + others h hs i"
proof -
  have "sum_list (map (hold_blocks h) hs) = sum_list (map (hold_blocks h) (take i hs @ hs ! i # drop (Suc i) hs))"
    using id_take_nth_drop [OF assms] by simp
  then show "sum_list (map (hold_blocks h) hs) = hold_blocks h (hs ! i) + others h hs i" by (simp add: others_def)
  show "sum_list (map (hold_blocks h) (hs[i := x])) = hold_blocks h x + others h hs i"
    by (simp add: upd_conv_take_nth_drop [OF assms] others_def)
qed

lemma others_frame:
  assumes "i < length hs" "\<And>a. a \<in># others h hs i \<Longrightarrow> map_of h' a = map_of h a"
  shows "others h' hs i = others h hs i"
    "list_all2 (hold_at h) hs ts \<Longrightarrow> hold_at h' x t \<Longrightarrow> list_all2 (hold_at h') (hs[i := x]) (ts[i := t])"
proof -
  have fore: "map_of h' a = map_of h a" if "a \<in># sum_list (map (hold_blocks h) (take i hs))" for a
    using that assms(2) by (simp add: others_def)
  have rear: "map_of h' a = map_of h a" if "a \<in># sum_list (map (hold_blocks h) (drop (Suc i) hs))" for a
    using that assms(2) by (simp add: others_def)
  show "others h' hs i = others h hs i"
    using holds.list_blocks [of h "take i hs" h', OF fore] holds.list_blocks [of h "drop (Suc i) hs" h', OF rear]
    by (simp add: others_def)
  assume fits: "list_all2 (hold_at h) hs ts" "hold_at h' x t"
  have len: "length ts = length hs" using fits(1) by (simp add: list_all2_lengthD)
  have "list_all2 (hold_at h') (take i hs) (take i ts)"
    by (rule holds.list_fits [OF fore list_all2_takeI [OF fits(1)]])
  moreover have "list_all2 (hold_at h') (drop (Suc i) hs) (drop (Suc i) ts)"
    by (rule holds.list_fits [OF rear list_all2_dropI [OF fits(1)]])
  ultimately show "list_all2 (hold_at h') (hs[i := x]) (ts[i := t])"
    using fits(2) assms(1) len by (simp add: upd_conv_take_nth_drop list_all2_appendI)
qed

lemma owned_split:
  "i < length hs \<Longrightarrow> owned h q hs = sum_list (map (job_blocks h) q) + hold_blocks h (hs ! i) + others h hs i"
  by (simp add: owned_def holds_split(1) ac_simps)

lemma owned_disjoint:
  assumes "X + Y = mset_set A" "a \<in># X"
  shows "a \<notin># Y"
proof
  assume "a \<in># Y"
  then have "2 \<le> count X a + count Y a" using assms(2) by (metis add_mono_thms_linordered_semiring(1) count_greater_eq_one_iff one_add_one)
  also have "\<dots> = count (mset_set A) a" using assms(1) by (metis count_union)
  also have "\<dots> \<le> 1" by (simp add: count_mset_set')
  finally show False by simp
qed

lemma owned_dom: "X + Y = mset_set (fst ` set h) \<Longrightarrow> a \<in># X \<Longrightarrow> a \<in> fst ` set h"
  by (metis List.finite_set finite_imageI finite_set_mset_mset_set union_iff)

lemma owned_rest:
  assumes "X + Y = mset_set A" "finite A"
  shows "X = mset_set (A - set_mset Y)"
proof (rule multiset_eqI)
  fix a
  have "count X a + count Y a = count (mset_set A) a" using assms(1) by (metis count_union)
  then have "count X a + count Y a = (if a \<in> A then 1 else 0)" using assms(2) by simp
  moreover have "a \<in># Y \<longleftrightarrow> 1 \<le> count Y a" by simp
  moreover have "count (mset_set (A - set_mset Y)) a = (if a \<in> A \<and> a \<notin># Y then 1 else 0)" using assms(2) by simp
  moreover have "x = z" if "x + y = (if P then 1 else 0)" "Q \<longleftrightarrow> 1 \<le> y" "z = (if P \<and> \<not> Q then 1 else 0)"
    for x y z :: nat and P Q using that by (auto split: if_splits)
  ultimately show "count X a = count (mset_set (A - set_mset Y)) a" by blast
qed

text \<open>The rule all steps of the workers use.\<close>

lemma represents_update:
  assumes "list_all2 (job_at h) q js" "list_all2 (hold_at h) hs ts" "i < length hs"
    and frame: "\<And>a. a \<in># sum_list (map (job_blocks h) q) + others h hs i \<Longrightarrow> map_of h' a = map_of h a"
    and new: "hold_at h' x t"
    and all: "sum_list (map (job_blocks h) q) + others h hs i + hold_blocks h' x = mset_set (fst ` set h')"
  shows "list_all2 (job_at h') q js" "list_all2 (hold_at h') (hs[i := x]) (ts[i := t])"
    "owned h' q (hs[i := x]) = mset_set (fst ` set h')"
proof -
  have q: "map_of h' a = map_of h a" if "a \<in># sum_list (map (job_blocks h) q)" for a using that frame by simp
  have o: "map_of h' a = map_of h a" if "a \<in># others h hs i" for a using that frame by simp
  show "list_all2 (job_at h') q js" by (rule jobs.list_fits [OF q assms(1)])
  show "list_all2 (hold_at h') (hs[i := x]) (ts[i := t])" by (rule others_frame(2) [OF assms(3) o assms(2) new])
  show "owned h' q (hs[i := x]) = mset_set (fst ` set h')"
    using all jobs.list_blocks [OF q] others_frame(1) [OF assms(3) o] holds_split(2) [OF assms(3), of h' x]
    by (simp add: owned_def ac_simps)
qed

end
