(* ===== verification/Job_Ownership.thy ===== *)
theory Job_Ownership
  imports Job_Memory
begin

text \<open>
  The pool of workers on pointers (\<open>Job_Memory\<close>) refines the pool on values
  (\<open>Worker_Pool\<close>): each step does what the step on the values does, and keeps the allocated
  blocks equal to the owned ones.  From this it follows that every block of a job is freed
  once.

  Nothing here models further code.
\<close>

section \<open>Every step is a step of the pool\<close>

text \<open>The pointers a busy worker holds, and what they stand for.\<close>

fun job_of :: "'w holding \<Rightarrow> (addr \<times> addr) option" where
  "job_of (Asking l r ps) = Some (l, r)"
| "job_of (Posting l r ps) = Some (l, r)"
| "job_of (Ending l r) = Some (l, r)"
| "job_of _ = None"

fun thread_of :: "'w holding \<Rightarrow> request \<Rightarrow> 'w thread_at" where
  "thread_of (Asking l r ps) req = Handling req ps"
| "thread_of (Posting l r ps) req = Storing req ps"
| "thread_of _ req = Dequeuing"

lemma job_of_blocks: "job_of x = Some (l, r) \<Longrightarrow> hold_blocks h x = add_mset r (line_blocks h l)"
  by (cases x) auto

lemma job_of_at:
  "job_of x = Some (l, r) \<Longrightarrow> hold_at h x t \<longleftrightarrow>
     (\<exists>b req. load_line h (Some l) = Inr b \<and> load_request h r = Inr req \<and> t = thread_of x req)"
  by (cases x) auto

lemma representsE:
  assumes "represents s p"
  obtains js where "list_all2 (job_at (heap s)) (queued s) js" "job_queue p = js @ arrivals s"
    "list_all2 (hold_at (heap s)) (holdings s) (threads p)" "outside p = mp_world s" "stdout_lines p = mp_stdout s"
    "owned (heap s) (queued s) (holdings s) = mset_set (fst ` set (heap s))"
  using assms unfolding represents_def by blast

text \<open>A busy worker owns its blocks alone.\<close>

lemma busy_blocks:
  assumes "owned h q hs = mset_set (fst ` set h)" "i < length hs" "job_of (hs ! i) = Some (l, r)"
  shows "r \<notin># line_blocks h l" "r \<notin># sum_list (map (job_blocks h) q) + others h hs i"
    "\<And>a. a \<in># line_blocks h l \<Longrightarrow> a \<notin># sum_list (map (job_blocks h) q) + others h hs i"
    "sum_list (map (job_blocks h) q) + others h hs i + add_mset r (line_blocks h l) = mset_set (fst ` set h)"
proof -
  show all: "sum_list (map (job_blocks h) q) + others h hs i + add_mset r (line_blocks h l) = mset_set (fst ` set h)"
    using assms owned_split [OF assms(2), of h q] by (simp add: job_of_blocks ac_simps)
  show "r \<notin># line_blocks h l"
    using owned_disjoint [of "{#r#}" "line_blocks h l + (sum_list (map (job_blocks h) q) + others h hs i)" "fst ` set h" r] all
    by (simp add: ac_simps)
  show "r \<notin># sum_list (map (job_blocks h) q) + others h hs i"
    using owned_disjoint [of "add_mset r (line_blocks h l)" "sum_list (map (job_blocks h) q) + others h hs i" "fst ` set h" r] all
    by (simp add: ac_simps)
  show "a \<notin># sum_list (map (job_blocks h) q) + others h hs i" if "a \<in># line_blocks h l" for a
    using owned_disjoint [of "add_mset r (line_blocks h l)" "sum_list (map (job_blocks h) q) + others h hs i" "fst ` set h" a] all that
    by (simp add: ac_simps)
qed

text \<open>The steps in which a worker goes on with its job, and writes to its request at most.\<close>

lemma represents_step:
  assumes repr: "represents s p" and i: "i < length (holdings s)" "job_of (holdings s ! i) = Some (l, r)" "job_of x = Some (l, r)"
    and h': "load_request h' r = Inr req" "\<And>a. a \<noteq> r \<Longrightarrow> map_of h' a = map_of (heap s) a" "fst ` set h' = fst ` set (heap s)"
  shows "represents (s\<lparr>heap := h', holdings := (holdings s)[i := x], mp_world := w, mp_stdout := out\<rparr>)
    (p\<lparr>threads := (threads p)[i := thread_of x req], outside := w, stdout_lines := out\<rparr>)"
proof -
  from repr obtain js where inv: "list_all2 (job_at (heap s)) (queued s) js" "job_queue p = js @ arrivals s"
    "list_all2 (hold_at (heap s)) (holdings s) (threads p)"
    "owned (heap s) (queued s) (holdings s) = mset_set (fst ` set (heap s))" by (rule representsE)
  note own = busy_blocks [OF inv(4) i(1,2)]
  have line: "line_blocks h' l = line_blocks (heap s) l" "load_line h' (Some l) = load_line (heap s) (Some l)"
    using own(1) h'(2) by (intro line_frame; metis)+
  have "hold_at (heap s) (holdings s ! i) (threads p ! i)" using inv(3) i(1) by (rule list_all2_nthD)
  then obtain b where "load_line (heap s) (Some l) = Inr b" using job_of_at [OF i(2)] by blast
  then have new: "hold_at h' x (thread_of x req)" using job_of_at [OF i(3)] h'(1) line(2) by auto
  have frame: "map_of h' a = map_of (heap s) a"
    if "a \<in># sum_list (map (job_blocks (heap s)) (queued s)) + others (heap s) (holdings s) i" for a
    using own(2) that by (intro h'(2)) blast
  have all: "sum_list (map (job_blocks (heap s)) (queued s)) + others (heap s) (holdings s) i + hold_blocks h' x = mset_set (fst ` set h')"
    using own(4) h'(3) line(1) i(3) by (simp add: job_of_blocks)
  from represents_update [OF inv(1,3) i(1) frame new all] inv(2) show ?thesis
    unfolding represents_def by auto
qed

lemma represents_move:
  assumes repr: "represents s p" and i: "i < length (holdings s)" "job_of (holdings s ! i) = Some (l, r)" "job_of x = Some (l, r)"
    and req: "load_request (heap s) r = Inr req"
  shows "represents (s\<lparr>holdings := (holdings s)[i := x], mp_stdout := mp_stdout s @ outs\<rparr>)
    (p\<lparr>threads := (threads p)[i := thread_of x req], stdout_lines := stdout_lines p @ outs\<rparr>)"
proof -
  have p: "p\<lparr>threads := ts, outside := mp_world s, stdout_lines := mp_stdout s @ outs\<rparr>
      = p\<lparr>threads := ts, stdout_lines := stdout_lines p @ outs\<rparr>" for ts
    using repr by (auto elim!: representsE)
  from represents_step [OF repr i req, of "mp_stdout s @ outs" "mp_world s"] show ?thesis
    unfolding p by simp
qed

lemma store_request:
  assumes "load_request h r = Inr req0"
  obtains h' where "hp_store h (Some r) (Request_Struct req) = Inr h'" "load_request h' r = Inr req"
    "\<And>a. a \<noteq> r \<Longrightarrow> map_of h' a = map_of h a" "fst ` set h' = fst ` set h"
proof -
  from assms obtain c where c: "map_of h r = Some c"
    by (auto simp: load_request_def hp_load_def c_bind_eq_Inr split: option.splits)
  let ?h = "AList.update r (Request_Struct req) h"
  have "r \<in> fst ` set h" using c by (metis map_of_eq_None_iff option.distinct(1))
  then have "fst ` set ?h = fst ` set h" by (auto simp: AList.dom_update)
  moreover have "map_of ?h = (map_of h)(r \<mapsto> Request_Struct req)" by (rule AList.update_conv')
  ultimately show ?thesis using c by (intro that [of ?h]) (auto simp: hp_store_def load_request_def hp_load_def)
qed


lemma represents_store:
  assumes repr: "represents s p" and i: "i < length (holdings s)" "job_of (holdings s ! i) = Some (l, r)" "job_of x = Some (l, r)"
    and req0: "load_request (heap s) r = Inr req0"
  obtains h' where "hp_store (heap s) (Some r) (Request_Struct req) = Inr h'"
    "represents (s\<lparr>heap := h', mp_world := w, holdings := (holdings s)[i := x]\<rparr>)
      (p\<lparr>outside := w, threads := (threads p)[i := thread_of x req]\<rparr>)"
proof -
  from store_request [OF req0] obtain h' where h': "hp_store (heap s) (Some r) (Request_Struct req) = Inr h'"
    "load_request h' r = Inr req" "\<And>a. a \<noteq> r \<Longrightarrow> map_of h' a = map_of (heap s) a"
    "fst ` set h' = fst ` set (heap s)" by blast
  have "mp_stdout s = stdout_lines p" using repr by (auto elim: representsE)
  then have "s\<lparr>heap := h', holdings := (holdings s)[i := x], mp_world := w, mp_stdout := stdout_lines p\<rparr>
      = s\<lparr>heap := h', mp_world := w, holdings := (holdings s)[i := x]\<rparr>"
    by (cases s) simp
  moreover have "p\<lparr>threads := ts, outside := w, stdout_lines := stdout_lines p\<rparr> = p\<lparr>outside := w, threads := ts\<rparr>" for ts
    by (cases p) simp
  moreover have "represents (s\<lparr>heap := h', holdings := (holdings s)[i := x], mp_world := w, mp_stdout := stdout_lines p\<rparr>)
      (p\<lparr>threads := (threads p)[i := thread_of x req], outside := w, stdout_lines := stdout_lines p\<rparr>)"
    by (rule represents_step [OF repr i h'(2) _ h'(4)]) (rule h'(3))
  ultimately have "represents (s\<lparr>heap := h', mp_world := w, holdings := (holdings s)[i := x]\<rparr>)
      (p\<lparr>outside := w, threads := (threads p)[i := thread_of x req]\<rparr>)"
    by (simp only:)
  with h'(1) show ?thesis by (rule that)
qed

text \<open>
  What a step on the pointers does is what the step on the values does: the same fault, or a
  state that represents the new values.
\<close>

definition agrees :: "'w memory_pool c_result \<Rightarrow> 'w pool c_result \<Rightarrow> bool" where
  "agrees r v = (case (r, v) of (Inl e, Inl f) \<Rightarrow> e = f | (Inr s, Inr p) \<Rightarrow> represents s p | _ \<Rightarrow> False)"

lemma agrees_simps [simp]:
  "agrees (Inl e) (Inl f) \<longleftrightarrow> e = f" "agrees (Inr s) (Inr p) \<longleftrightarrow> represents s p"
  "\<not> agrees (Inl e) (Inr p)" "\<not> agrees (Inr s) (Inl e)"
  by (simp_all add: agrees_def)

lemma busy_request:
  assumes "represents s p" "i < length (holdings s)" "job_of (holdings s ! i) = Some (l, r)"
  obtains req b where "load_request (heap s) r = Inr req" "load_line (heap s) (Some l) = Inr b"
    "threads p ! i = thread_of (holdings s ! i) req" "i < length (threads p)"
proof -
  from assms(1) have at: "list_all2 (hold_at (heap s)) (holdings s) (threads p)" by (rule representsE)
  then have "hold_at (heap s) (holdings s ! i) (threads p ! i)" using assms(2) by (rule list_all2_nthD)
  with that job_of_at [OF assms(3)] list_all2_lengthD [OF at] assms(2) show ?thesis by metis
qed

lemma ask_step_agrees:
  assumes repr: "represents s p" and i: "i < length (holdings s)" "holdings s ! i = Asking l r (pl # ps)"
  shows "\<exists>req. threads p ! i = Handling req (pl # ps) \<and> agrees (ask_step l r pl ps i s) (handle_step req pl ps i p)"
proof -
  have job: "job_of (holdings s ! i) = Some (l, r)" using i(2) by simp
  from busy_request [OF repr i(1) job] obtain req where
    req: "load_request (heap s) r = Inr req" "threads p ! i = Handling req (pl # ps)" using i(2) by auto
  have w: "outside p = mp_world s" "stdout_lines p = mp_stdout s" using repr by (auto elim: representsE)
  show ?thesis
  proof (cases "pl_handle_request pl")
    case None
    with represents_move [OF repr i(1) job _ req(1), of "Asking l r ps" "[]"] req show ?thesis by (simp add: ask_step_def)
  next
    case (Some hook)
    show ?thesis
    proof (cases "hook req (mp_world s)")
      case (Inl e)
      with Some req w show ?thesis by (simp add: ask_step_def)
    next
      case (Inr x)
      obtain status req' w' where x: "x = (status, req', w')" by (cases x)
      let ?req = "req'\<lparr>response_result := status_code status\<rparr>"
      have x': "job_of (Asking l r (if status \<noteq> HANDLER_GO_ON then [] else ps)) = Some (l, r)" by simp
      obtain h' where "hp_store (heap s) (Some r) (Request_Struct ?req) = Inr h'"
        "represents (s\<lparr>heap := h', mp_world := w', holdings := (holdings s)
            [i := Asking l r (if status \<noteq> HANDLER_GO_ON then [] else ps)]\<rparr>)
          (p\<lparr>outside := w', threads := (threads p)
            [i := thread_of (Asking l r (if status \<noteq> HANDLER_GO_ON then [] else ps)) ?req]\<rparr>)"
        by (rule represents_store [OF repr i(1) job x' req(1), of ?req w'])
      then show ?thesis using Some Inr x req w(1) by (simp add: ask_step_def)
    qed
  qed
qed

lemma answer_step_agrees:
  assumes repr: "represents s p" and i: "i < length (holdings s)" "holdings s ! i = Asking l r []"
  shows "\<exists>req. threads p ! i = Handling req [] \<and> agrees (answer_step core l r i s) (Inr (reply_step core req i p))"
proof -
  have job: "job_of (holdings s ! i) = Some (l, r)" using i(2) by simp
  from busy_request [OF repr i(1) job] obtain req where
    req: "load_request (heap s) r = Inr req" "threads p ! i = Handling req []" using i(2) by auto
  obtain out go_on where a: "answer (core_deny_by_default core) req = (out, go_on)" by fastforce
  let ?x = "if go_on \<and> \<not> skip_post_handle_request req then Posting l r (core_plugins core) else Ending l r"
  have "thread_of ?x req = (if go_on \<and> \<not> skip_post_handle_request req then Storing req (core_plugins core) else Dequeuing)"
    by simp
  with represents_move [OF repr i(1) job _ req(1), of ?x "[out]"]
  show ?thesis using req a by (simp add: answer_step_def reply_step_def)
qed

lemma posting_step_agrees:
  assumes repr: "represents s p" and i: "i < length (holdings s)" "holdings s ! i = Posting l r ps"
  shows "\<exists>req. threads p ! i = Storing req ps \<and> agrees (posting_step l r ps i s) (post_step req ps i p)"
proof -
  have job: "job_of (holdings s ! i) = Some (l, r)" using i(2) by simp
  from busy_request [OF repr i(1) job] obtain req where
    req: "load_request (heap s) r = Inr req" "threads p ! i = Storing req ps" using i(2) by auto
  have w: "outside p = mp_world s" "stdout_lines p = mp_stdout s" using repr by (auto elim: representsE)
  show ?thesis
  proof (cases ps)
    case Nil
    with represents_move [OF repr i(1) job _ req(1), of "Ending l r" "[]"] req show ?thesis by simp
  next
    case (Cons pl ps')
    show ?thesis
    proof (cases "pl_post_handle_request pl")
      case None
      with represents_move [OF repr i(1) job _ req(1), of "Posting l r ps'" "[]"] req Cons show ?thesis by simp
    next
      case (Some hook)
      show ?thesis
      proof (cases "hook req (mp_world s)")
        case (Inl e)
        with Some req w Cons show ?thesis by simp
      next
        case (Inr x)
        obtain status req' w' where x: "x = (status, req', w')" by (cases x)
        have x': "job_of (Posting l r ps') = Some (l, r)" by simp
        obtain h' where "hp_store (heap s) (Some r) (Request_Struct req') = Inr h'"
          "represents (s\<lparr>heap := h', mp_world := w', holdings := (holdings s)[i := Posting l r ps']\<rparr>)
            (p\<lparr>outside := w', threads := (threads p)[i := thread_of (Posting l r ps') req']\<rparr>)"
          by (rule represents_store [OF repr i(1) job x' req(1), of req' w'])
        then show ?thesis using Some Inr x req w(1) Cons by simp
      qed
    qed
  qed
qed

text \<open>\<open>endrequest\<close> frees what the worker holds; the values do not change.\<close>

lemma line_free_ok:
  assumes "load_line h (Some l) = Inr b" "l \<in> fst ` set h"
    and "\<And>p len cap. map_of h l = Some (Line_Struct (Some p) len cap) \<Longrightarrow> p \<in> fst ` set h \<and> p \<noteq> l"
  shows "\<exists>h'. line_free h (Some l) = Inr h' \<and> fst ` set h' = fst ` set h - set_mset (line_blocks h l)
    \<and> (\<forall>a. a \<notin># line_blocks h l \<longrightarrow> map_of h' a = map_of h a)"
proof -
  from assms(1) obtain po len cap where l: "map_of h l = Some (Line_Struct po len cap)"
    by (auto simp: load_line_def hp_load_def c_bind_eq_Inr split: option.splits job_object.splits)
  show ?thesis
  proof (cases po)
    case None
    with l show ?thesis
      by (simp add: line_free_def mem_simps line_blocks_def addresses_delete AList.delete_conv')
  next
    case (Some p)
    with l assms(3) obtain c where p: "map_of h p = Some c" "p \<noteq> l" by (metis map_of_eq_None_iff option.exhaust)
    let ?h = "AList.delete l (AList.delete p h)"
    have "map_of (AList.delete p h) l = map_of h l" using p(2) by (simp add: AList.delete_conv')
    with l p Some have "line_free h (Some l) = Inr ?h" by (simp add: line_free_def mem_simps)
    moreover have "fst ` set ?h = fst ` set h - set_mset (line_blocks h l)"
      using l Some by (auto simp: line_blocks_def addresses_delete)
    moreover have "map_of ?h a = map_of h a" if "a \<notin># line_blocks h l" for a
      using l Some that by (auto simp: line_blocks_def AList.delete_conv')
    ultimately show ?thesis by blast
  qed
qed

lemma job_frees:
  assumes own: "R + add_mset r (line_blocks h l) = mset_set (fst ` set h)" "r \<notin># line_blocks h l" "r \<notin># R"
      "\<And>a. a \<in># line_blocks h l \<Longrightarrow> a \<notin># R"
    and line: "load_line h (Some l) = Inr b"
  shows "\<exists>h1 h2. hp_free h (Some r) = Inr h1 \<and> line_free h1 (Some l) = Inr h2
    \<and> (\<forall>a \<in># R. map_of h2 a = map_of h a) \<and> R = mset_set (fst ` set h2)"
proof -
  let ?h1 = "AList.delete r h"
  have h1: "map_of ?h1 a = map_of h a" if "a \<noteq> r" for a using that by (simp add: AList.delete_conv')
  have same: "line_blocks ?h1 l = line_blocks h l" "load_line ?h1 (Some l) = load_line h (Some l)"
    using own(2) by (intro line_frame h1; metis)+
  have sub: "a \<in> fst ` set ?h1" if "a \<in># line_blocks h l" for a
    using owned_dom [of "line_blocks h l" "R + {#r#}" h a] own(1,2) that by (auto simp: ac_simps addresses_delete)
  have l: "l \<in># line_blocks h l" by (simp add: line_blocks_def split: option.split job_object.split)
  have p: "q \<in> fst ` set ?h1 \<and> q \<noteq> l" if "map_of ?h1 l = Some (Line_Struct (Some q) len cap)" for q len cap
  proof -
    from that same(1) have eq: "line_blocks h l = {#l, q#}" by (simp add: line_blocks_def)
    have "{#l#} + ({#q#} + (R + {#r#})) = mset_set (fst ` set h)"
      using own(1) eq by (simp add: ac_simps add_mset_commute)
    from owned_disjoint [OF this, of l] sub [of q] eq show ?thesis by auto
  qed
  have "load_line ?h1 (Some l) = Inr b" "l \<in> fst ` set ?h1" using same(2) line sub l by simp_all
  from line_free_ok [OF this] p obtain h2 where h2: "line_free ?h1 (Some l) = Inr h2"
    "fst ` set h2 = fst ` set ?h1 - set_mset (line_blocks h l)" "\<And>a. a \<notin># line_blocks h l \<Longrightarrow> map_of h2 a = map_of ?h1 a"
    unfolding same(1) by blast
  have "r \<in> fst ` set h" using owned_dom [of "{#r#}" "R + line_blocks h l" h r] own(1) by (simp add: ac_simps)
  then have "hp_free h (Some r) = Inr ?h1" by (auto simp: hp_free_def map_of_eq_None_iff)
  moreover have "map_of h2 a = map_of h a" if "a \<in># R" for a using that own(3,4) h2(3) h1 by metis
  moreover have "R = mset_set (fst ` set h2)"
    using owned_rest [OF own(1)] h2(2) by (simp add: addresses_delete set_diff_eq Diff_insert insert_commute)
  ultimately show ?thesis using h2(1) by blast
qed

lemma endrequest_step_agrees:
  assumes repr: "represents s p" and i: "i < length (holdings s)" "holdings s ! i = Ending l r"
  shows "\<exists>s'. endrequest_step l r i s = Inr s' \<and> represents s' p \<and> holdings s' = (holdings s)[i := Idle]
    \<and> arrivals s' = arrivals s"
proof -
  from repr obtain js where inv: "list_all2 (job_at (heap s)) (queued s) js" "job_queue p = js @ arrivals s"
    "list_all2 (hold_at (heap s)) (holdings s) (threads p)"
    "owned (heap s) (queued s) (holdings s) = mset_set (fst ` set (heap s))" by (rule representsE)
  have job: "job_of (holdings s ! i) = Some (l, r)" using i(2) by simp
  obtain req b where req: "load_line (heap s) (Some l) = Inr b" "threads p ! i = thread_of (holdings s ! i) req"
    by (rule busy_request [OF repr i(1) job])
  note own = busy_blocks [OF inv(4) i(1) job]
  from job_frees [OF own(4,1,2,3) req(1)] obtain h1 h2 where free: "hp_free (heap s) (Some r) = Inr h1"
    "line_free h1 (Some l) = Inr h2"
    and frame: "\<And>a. a \<in># sum_list (map (job_blocks (heap s)) (queued s)) + others (heap s) (holdings s) i
      \<Longrightarrow> map_of h2 a = map_of (heap s) a"
    and all: "sum_list (map (job_blocks (heap s)) (queued s)) + others (heap s) (holdings s) i = mset_set (fst ` set h2)"
    by blast
  have "threads p ! i = Dequeuing" using req(2) i(2) by simp
  then have "(threads p)[i := Dequeuing] = threads p" by (metis list_update_id)
  with represents_update [OF inv(1,3) i(1) frame, of Idle Dequeuing] all inv(2) repr
  have "represents (s\<lparr>heap := h2, holdings := (holdings s)[i := Idle]\<rparr>) p"
    unfolding represents_def by simp
  with free show ?thesis by (simp add: endrequest_step_def)
qed

text \<open>A job is taken: the worker now owns the line and the new request.\<close>

lemma line_fresh:
  assumes "line_blocks h l + R = mset_set (fst ` set h)" "a \<notin> fst ` set h"
  shows "line_blocks ((a, c) # h) l = line_blocks h l" "load_line ((a, c) # h) (Some l) = load_line h (Some l)"
proof -
  have same: "map_of ((a, c) # h) b = map_of h b" if "b \<in># line_blocks h l" for b
    using owned_dom [OF assms(1) that] assms(2) by auto
  show "line_blocks ((a, c) # h) l = line_blocks h l" by (rule line_frame(1)) (rule same)
  show "load_line ((a, c) # h) (Some l) = load_line h (Some l)" by (rule line_frame(2)) (rule same)
qed

lemma represents_new_request:
  assumes "list_all2 (job_at h) q vs" "list_all2 (hold_at h) hs ts" "i < length hs"
    and own: "line_blocks h l + (sum_list (map (job_blocks h) q) + others h hs i) = mset_set (fst ` set h)"
    and line: "load_line h (Some l) = Inr b" and fresh: "a \<notin> fst ` set h" and x: "job_of x = Some (l, a)"
    and h': "h' = (a, Request_Struct req) # h"
  shows "list_all2 (job_at h') q vs" "list_all2 (hold_at h') (hs[i := x]) (ts[i := thread_of x req])"
    "owned h' q (hs[i := x]) = mset_set (fst ` set h')"
proof -
  let ?rest = "sum_list (map (job_blocks h) q) + others h hs i"
  have new: "hold_at h' x (thread_of x req)"
    using job_of_at [OF x] line line_fresh(2) [OF own fresh] by (simp add: h' load_request_def)
  have frame: "map_of h' b = map_of h b" if "b \<in># ?rest" for b
  proof -
    have "b \<in> fst ` set h" using owned_dom [of ?rest "line_blocks h l" h b] own that by (simp add: ac_simps)
    with fresh show ?thesis by (auto simp: h')
  qed
  have full: "?rest + hold_blocks h' x = mset_set (fst ` set h')"
    using own fresh job_of_blocks [OF x] line_fresh(1) [OF own fresh] by (simp add: h' ac_simps)
  show "list_all2 (job_at h') q vs" "list_all2 (hold_at h') (hs[i := x]) (ts[i := thread_of x req])"
    "owned h' q (hs[i := x]) = mset_set (fst ` set h')"
    by (rule represents_update [OF assms(1-3) frame new full]; assumption)+
qed

lemma take_null:
  assumes repr: "represents s p" and i: "i < length (holdings s)" "holdings s ! i = Idle" and q: "queued s = None # q"
  shows "\<exists>js. job_queue p = None # js \<and> represents (s\<lparr>queued := q, holdings := (holdings s)[i := Ended]\<rparr>)
    (p\<lparr>job_queue := js, threads := (threads p)[i := Terminated]\<rparr>)"
proof -
  from repr q obtain vs where inv: "list_all2 (job_at (heap s)) q vs" "job_queue p = None # vs @ arrivals s"
    "list_all2 (hold_at (heap s)) (holdings s) (threads p)" "outside p = mp_world s" "stdout_lines p = mp_stdout s"
    "owned (heap s) (queued s) (holdings s) = mset_set (fst ` set (heap s))"
    by (auto elim!: representsE simp: list_all2_Cons1)
  have "sum_list (map (job_blocks (heap s)) q) + others (heap s) (holdings s) i + hold_blocks (heap s) Ended
      = mset_set (fst ` set (heap s))"
    using inv(6) owned_split [OF i(1), of "heap s" "queued s"] i(2) q by (simp add: ac_simps)
  from represents_update [OF inv(1,3) i(1) refl _ this, of Terminated] inv
  show ?thesis by (intro exI [of _ "vs @ arrivals s"]) (auto simp: represents_def)
qed

lemma take_step_agrees:
  assumes pick: "malloc_contract pick" and repr: "represents s p"
    and i: "i < length (holdings s)" "holdings s ! i = Idle" and r: "take_step pick core env i s = Some r"
  shows "\<exists>v. dequeue_step core env i p = Some v \<and> agrees r v"
proof -
  let ?h = "heap s" and ?v6 = "core_have_ipv6 core"
  from repr obtain js where inv: "list_all2 (job_at ?h) (queued s) js" "job_queue p = js @ arrivals s"
    "list_all2 (hold_at ?h) (holdings s) (threads p)" "outside p = mp_world s" "stdout_lines p = mp_stdout s"
    "owned ?h (queued s) (holdings s) = mset_set (fst ` set ?h)" by (rule representsE)
  from r obtain j q where q: "queued s = j # q" by (auto simp: take_step_def split: list.splits)
  with inv(1) obtain v vs where v: "js = v # vs" "job_at ?h j v" "list_all2 (job_at ?h) q vs"
    by (auto simp: list_all2_Cons1)
  have "threads p ! i = Dequeuing" using list_all2_nthD [OF inv(3) i(1)] i(2) by simp
  then have idle: "(threads p)[i := Dequeuing] = threads p" by (metis list_update_id)
  have own: "job_blocks ?h j + (sum_list (map (job_blocks ?h) q) + others ?h (holdings s) i) = mset_set (fst ` set ?h)"
    using inv(6) owned_split [OF i(1), of ?h "queued s"] i(2) q by (simp add: ac_simps)
  show ?thesis
  proof (cases j)
    case None
    with take_null [OF repr i] q r show ?thesis by (auto simp: take_step_def dequeue_step_def)
  next
    case (Some l)
    with v(2) obtain line where line: "v = Some line" "load_line ?h (Some l) = Inr line" by auto
    have fresh: "pick ?h \<notin> fst ` set ?h" by (rule malloc_fresh [OF pick])
    note own' = own [unfolded Some job_blocks.simps]
    note load = line_fresh(2) [OF own' fresh] line(2)
    show ?thesis
    proof (cases "parse_job ?v6 env line")
      case (Inl e)
      with r q Some line v(1) inv(2) load show ?thesis
        by (auto simp: take_step_def dequeue_step_def hp_malloc_def)
    next
      case (Inr x)
      obtain req valid where x: "x = (req, valid)" by (cases x)
      note new = represents_new_request [OF v(3) inv(3) i(1) own' line(2) fresh _ refl, of _ req]
      show ?thesis
      proof (cases valid)
        case True
        with r q Some line v(1) inv load Inr x new [of "Asking l (pick ?h) (core_plugins core)"] show ?thesis
          by (auto simp: take_step_def dequeue_step_def hp_malloc_def represents_def)
      next
        case False
        with r q Some line v(1) inv load Inr x new [of "Ending l (pick ?h)"] idle show ?thesis
          by (auto simp: take_step_def dequeue_step_def hp_malloc_def represents_def)
      qed
    qed
  qed
qed


text \<open>A line arrives: the values in the queue, with those still to come, stay the same.\<close>

lemma line_alloc_ok:
  assumes pick: "malloc_contract pick"
  shows "\<exists>l h'. line_alloc pick b h = (l, h') \<and> load_line h' (Some l) = Inr b
    \<and> (\<forall>a \<in> fst ` set h. map_of h' a = map_of h a)
    \<and> mset_set (fst ` set h') = mset_set (fst ` set h) + line_blocks h' l"
proof (cases "buf_ptr b")
  case None
  let ?l = "pick h" and ?h' = "(pick h, Line_Struct None (buf_len b) (buf_capacity b)) # h"
  have l: "?l \<notin> fst ` set h" by (rule malloc_fresh [OF pick])
  then have "map_of ?h' a = map_of h a" if "a \<in> fst ` set h" for a using that by (cases "a = ?l") simp_all
  with l None show ?thesis
    by (intro exI [of _ ?l] exI [of _ ?h']) (simp add: line_alloc_def hp_malloc_def load_line_def line_blocks_def)
next
  case (Some blk)
  define l h1 where "l = pick h" and "h1 = (l, Line_Struct None (buf_len b) (buf_capacity b)) # h"
  define p where "p = pick h1"
  let ?st = "Line_Struct (Some p) (buf_len b) (buf_capacity b)"
  let ?h' = "AList.update l ?st ((p, Chars blk) # h1)"
  have l: "l \<notin> fst ` set h" unfolding l_def by (rule malloc_fresh [OF pick])
  have "p \<notin> fst ` set h1" unfolding p_def by (rule malloc_fresh [OF pick])
  then have p: "p \<notin> fst ` set h" "p \<noteq> l" by (auto simp: h1_def)
  have h': "?h' = (p, Chars blk) # (l, ?st) # h" using p(2) by (simp add: h1_def)
  have "line_alloc pick b h = (l, ?h')"
    using Some by (simp add: line_alloc_def hp_malloc_def l_def h1_def p_def)
  moreover have "load_line ?h' (Some l) = Inr b" "line_blocks ?h' l = {#l, p#}"
    using Some p(2) unfolding h' by (simp_all add: load_line_def hp_load_def line_blocks_def)
  moreover have "map_of ?h' a = map_of h a" if "a \<in> fst ` set h" for a
    using that l p unfolding h' by auto
  moreover have "mset_set (fst ` set ?h') = mset_set (fst ` set h) + {#l, p#}"
    using l p unfolding h' by simp
  ultimately show ?thesis by metis
qed

lemma arrival_step_agrees:
  assumes pick: "malloc_contract pick" and repr: "represents s p" and step: "arrival_step pick s = Some s'"
  shows "represents s' p \<and> holdings s' = holdings s \<and> length (arrivals s') < length (arrivals s)"
proof -
  from repr obtain js where inv: "list_all2 (job_at (heap s)) (queued s) js" "job_queue p = js @ arrivals s"
    "list_all2 (hold_at (heap s)) (holdings s) (threads p)" "outside p = mp_world s" "stdout_lines p = mp_stdout s"
    "owned (heap s) (queued s) (holdings s) = mset_set (fst ` set (heap s))" by (rule representsE)
  from step obtain j rest where j: "arrivals s = j # rest" by (auto simp: arrival_step_def split: list.splits)
  show ?thesis
  proof (cases j)
    case None
    have "list_all2 (job_at (heap s)) (queued s @ [None]) (js @ [None])" using inv(1) by (simp add: list_all2_appendI)
    moreover have "s' = s\<lparr>arrivals := rest, queued := queued s @ [None]\<rparr>" using step j None by (simp add: arrival_step_def)
    moreover have "owned (heap s) (queued s @ [None]) (holdings s) = owned (heap s) (queued s) (holdings s)"
      by (simp add: owned_def)
    ultimately show ?thesis using inv j None unfolding represents_def by (auto intro!: exI [of _ "js @ [None]"])
  next
    case (Some b)
    from line_alloc_ok [OF pick, of b "heap s"] obtain l h' where
      alloc: "line_alloc pick b (heap s) = (l, h')" "load_line h' (Some l) = Inr b"
        "mset_set (fst ` set h') = mset_set (fst ` set (heap s)) + line_blocks h' l"
      and old: "\<And>a. a \<in> fst ` set (heap s) \<Longrightarrow> map_of h' a = map_of (heap s) a" by blast
    have s': "s' = s\<lparr>heap := h', arrivals := rest, queued := queued s @ [Some l]\<rparr>"
      using step j Some alloc(1) by (simp add: arrival_step_def)
    have own: "sum_list (map (job_blocks (heap s)) (queued s)) + sum_list (map (hold_blocks (heap s)) (holdings s))
        = mset_set (fst ` set (heap s))" using inv(6) by (simp add: owned_def)
    have fq: "map_of h' a = map_of (heap s) a" if "a \<in># sum_list (map (job_blocks (heap s)) (queued s))" for a
      by (rule old) (rule owned_dom [OF own that])
    have fh: "map_of h' a = map_of (heap s) a" if "a \<in># sum_list (map (hold_blocks (heap s)) (holdings s))" for a
      by (rule old) (rule owned_dom [OF own [unfolded add.commute [of "sum_list (map (job_blocks (heap s)) (queued s))"]] that])
    have "list_all2 (job_at h') (queued s @ [Some l]) (js @ [Some b])"
      using jobs.list_fits [OF fq inv(1)] alloc(2) by (simp add: list_all2_appendI)
    moreover have "list_all2 (hold_at h') (holdings s) (threads p)" by (rule holds.list_fits [OF fh inv(3)])
    moreover have "owned h' (queued s @ [Some l]) (holdings s) = mset_set (fst ` set h')"
      using jobs.list_blocks [of "heap s" "queued s" h', OF fq] holds.list_blocks [of "heap s" "holdings s" h', OF fh] own alloc(3)
      by (simp add: owned_def ac_simps)
    ultimately show ?thesis
      using inv(2,4,5) j Some s' unfolding represents_def by (auto intro!: exI [of _ "js @ [Some b]"])
  qed
qed

lemma memory_step_agrees:
  assumes "malloc_contract pick" "represents s p" "i < length (holdings s)" "memory_step pick core env i s = Some r"
  shows "(\<exists>v. thread_step core env i p = Some v \<and> agrees r v)
    \<or> (\<exists>l q s'. holdings s ! i = Ending l q \<and> r = Inr s' \<and> represents s' p \<and> holdings s' = (holdings s)[i := Idle]
        \<and> arrivals s' = arrivals s)"
proof (cases "holdings s ! i")
  case Idle
  from assms(2) have at: "list_all2 (hold_at (heap s)) (holdings s) (threads p)" by (rule representsE)
  have "threads p ! i = Dequeuing" using list_all2_nthD [OF at assms(3)] Idle by simp
  with take_step_agrees [OF assms(1-3) Idle, of core env r] assms(4) Idle show ?thesis
    by (simp add: memory_step_def thread_step_def)
next
  case (Asking l q ps)
  show ?thesis
  proof (cases ps)
    case Nil
    with answer_step_agrees [OF assms(2,3), of l q core] Asking assms(4) show ?thesis
      by (auto simp: memory_step_def thread_step_def)
  next
    case (Cons pl ps')
    with ask_step_agrees [OF assms(2,3), of l q pl ps'] Asking assms(4) show ?thesis
      by (auto simp: memory_step_def thread_step_def simp del: handle_step.simps)
  qed
next
  case (Posting l q ps)
  with posting_step_agrees [OF assms(2,3), of l q ps] assms(4) show ?thesis
    by (auto simp: memory_step_def thread_step_def)
next
  case (Ending l q)
  with endrequest_step_agrees [OF assms(2,3) Ending] assms(4) show ?thesis
    by (auto simp: memory_step_def)
qed (use assms(4) in \<open>simp add: memory_step_def\<close>)


section \<open>Nothing is used after it was freed, and nothing is left\<close>

fun ending :: "'w holding \<Rightarrow> nat" where
  "ending (Ending l r) = 1"
| "ending _ = 0"

text \<open>The steps that are left, at most, in a state that represents the pool \<open>p\<close>.\<close>

definition memory_work :: "'w core \<Rightarrow> 'w memory_pool \<Rightarrow> 'w pool \<Rightarrow> nat" where
  "memory_work core s p = 2 * pool_work core p + sum_list (map ending (holdings s)) + length (arrivals s)"

definition memory_ok :: "('w \<Rightarrow> bool) \<Rightarrow> 'w core \<Rightarrow> size_t multiset \<Rightarrow> nat \<Rightarrow> 'w memory_pool \<Rightarrow> 'w pool \<Rightarrow> bool" where
  "memory_ok wok core channels n s p \<longleftrightarrow> represents s p \<and> pool_ok wok core channels p \<and> length (threads p) = n"

lemma memory_ok_holdings: "memory_ok wok core channels n s p \<Longrightarrow> length (holdings s) = n"
  by (auto simp: memory_ok_def elim: representsE dest: list_all2_lengthD)

text \<open>A step changes the place of its own worker, and no line arrives.\<close>

definition own_step :: "nat \<Rightarrow> 'w memory_pool \<Rightarrow> 'w memory_pool \<Rightarrow> bool" where
  "own_step i s s' \<longleftrightarrow> (\<exists>x. holdings s' = (holdings s)[i := x]) \<and> arrivals s' = arrivals s"

lemma take_own: "take_step pick core env i s = Some (Inr s') \<Longrightarrow> own_step i s s'"
  by (auto simp: own_step_def take_step_def c_bind_eq_Inr hp_malloc_def split: list.splits option.splits if_splits)

lemma ask_own: "ask_step l r p ps i s = Inr s' \<Longrightarrow> own_step i s s'"
  by (auto simp: own_step_def ask_step_def c_bind_eq_Inr split: option.splits)

lemma answer_own:
  assumes "answer_step core l r i s = Inr s'"
  shows "own_step i s s'"
proof -
  from assms obtain req where "load_request (heap s) r = Inr req" by (auto simp: answer_step_def c_bind_eq_Inr)
  moreover obtain out go_on where "answer (core_deny_by_default core) req = (out, go_on)" by fastforce
  ultimately have "s' = s\<lparr>holdings := (holdings s)[i := if go_on \<and> \<not> skip_post_handle_request req
      then Posting l r (core_plugins core) else Ending l r], mp_stdout := mp_stdout s @ [out]\<rparr>"
    using assms by (simp add: answer_step_def)
  then show ?thesis unfolding own_step_def by auto
qed

lemma posting_own:
  assumes "posting_step l r ps i s = Inr s'"
  shows "own_step i s s'"
proof (cases ps)
  case (Cons p ps')
  show ?thesis
  proof (cases "pl_post_handle_request p")
    case None
    with Cons assms have "s' = s\<lparr>holdings := (holdings s)[i := Posting l r ps']\<rparr>" by simp
    then show ?thesis unfolding own_step_def by auto
  qed (use Cons assms in \<open>auto simp: own_step_def c_bind_eq_Inr\<close>)
qed (use assms in \<open>auto simp: own_step_def\<close>)

lemma memory_step_own:
  assumes "memory_step pick core env i s = Some (Inr s')"
  shows "own_step i s s'"
proof (cases "holdings s ! i")
  case (Asking l r ps)
  with assms ask_own answer_own show ?thesis by (cases ps) (fastforce simp: memory_step_def)+
next
  case (Ending l r)
  with assms show ?thesis by (auto simp: memory_step_def endrequest_step_def own_step_def c_bind_eq_Inr)
qed (use assms take_own posting_own in \<open>auto simp: memory_step_def\<close>)

lemma memory_step_ok:
  assumes pick: "malloc_contract pick" and chain: "plugin_chain wok (core_plugins core)"
    and ok: "memory_ok wok core channels n s p"
    and i: "i < length (holdings s)" "memory_step pick core env i s = Some r"
  shows "\<exists>s' p'. r = Inr s' \<and> memory_ok wok core channels n s' p' \<and> memory_work core s' p' < memory_work core s p"
proof -
  have repr: "represents s p" and pool: "pool_ok wok core channels p" and n: "length (threads p) = n"
    using ok by (simp_all add: memory_ok_def)
  have ip: "i < length (threads p)" using i(1) n memory_ok_holdings [OF ok] by simp
  note sum = sum_list_update_thread [OF i(1), of ending]
  from memory_step_agrees [OF pick repr i] show ?thesis
  proof (elim disjE exE conjE)
    fix v assume v: "thread_step core env i p = Some v" and agr: "agrees r v"
    from plugin_chain.thread_step_ok [OF chain refl pool ip v] obtain p' where
      p': "v = Inr p'" "pool_ok wok core channels p'" "pool_work core p' < pool_work core p" "length (threads p') = n"
      using n by metis
    with agr obtain s' where s': "r = Inr s'" "represents s' p'" by (cases r) auto
    with memory_step_own i(2) obtain x where x: "holdings s' = (holdings s)[i := x]" "arrivals s' = arrivals s"
      unfolding own_step_def by blast
    have "ending x \<le> 1" by (cases x) simp_all
    with sum [of x] x p'(3) have "memory_work core s' p' < memory_work core s p" by (simp add: memory_work_def)
    with s' p'(2,4) show ?thesis by (auto simp: memory_ok_def)
  next
    fix l q s' assume "holdings s ! i = Ending l q" "r = Inr s'" "represents s' p"
      "holdings s' = (holdings s)[i := Idle]" "arrivals s' = arrivals s"
    with sum [of Idle] pool n show ?thesis by (auto simp: memory_ok_def memory_work_def)
  qed
qed

lemma memory_next_ok:
  assumes "malloc_contract pick" "plugin_chain wok (core_plugins core)" "memory_ok wok core channels n s p"
    and "memory_next pick core env s s'"
  shows "\<exists>p'. memory_ok wok core channels n s' p' \<and> memory_work core s' p' < memory_work core s p"
  using assms(4)
proof cases
  case arrival
  have "represents s p" using assms(3) by (simp add: memory_ok_def)
  from arrival_step_agrees [OF assms(1) this arrival] assms(3) show ?thesis
    by (intro exI [of _ p]) (simp add: memory_ok_def memory_work_def)
next
  case (worker i)
  from memory_step_ok [OF assms(1-3) worker] show ?thesis by auto
qed

lemma memory_run_ok:
  assumes "malloc_contract pick" "plugin_chain wok (core_plugins core)"
  shows "(memory_next pick core env)\<^sup>*\<^sup>* s0 s \<Longrightarrow> memory_ok wok core channels n s0 p0 \<Longrightarrow> \<exists>p. memory_ok wok core channels n s p"
proof (induction rule: rtranclp_induct)
  case (step s t)
  then obtain p where "memory_ok wok core channels n s p" by blast
  from memory_next_ok [OF assms this step.hyps(2)] show ?case by blast
qed blast

lemma memory_finishes:
  assumes "malloc_contract pick" "plugin_chain wok (core_plugins core)"
  shows "memory_ok wok core channels n s p \<Longrightarrow> \<exists>s'. (memory_next pick core env)\<^sup>*\<^sup>* s s' \<and> (\<nexists>t. memory_next pick core env s' t)"
proof (induction "memory_work core s p" arbitrary: s p rule: less_induct)
  case less
  show ?case
  proof (cases "\<exists>t. memory_next pick core env s t")
    case True
    then obtain t where t: "memory_next pick core env s t" by blast
    from memory_next_ok [OF assms less.prems t] obtain p' where
      "memory_ok wok core channels n t p'" "memory_work core t p' < memory_work core s p" by blast
    with less.hyps obtain s' where "(memory_next pick core env)\<^sup>*\<^sup>* t s'" "\<nexists>u. memory_next pick core env s' u" by blast
    with t show ?thesis by (blast intro: converse_rtranclp_into_rtranclp)
  qed blast
qed

text \<open>When nothing is left to do.\<close>

lemma memory_quiet:
  assumes pick: "malloc_contract pick" and chain: "plugin_chain wok (core_plugins core)"
    and ok: "memory_ok wok core channels n s p" and stuck: "\<nexists>t. memory_next pick core env s t"
  shows "arrivals s = []"
    "t \<in> set (holdings s) \<Longrightarrow> t = Ended \<or> t = Idle \<and> queued s = []"
proof -
  have "arrival_step pick s = None" using stuck by (cases "arrival_step pick s") (auto intro: memory_next.arrival)
  then show "arrivals s = []" by (auto simp: arrival_step_def Let_def split: list.splits option.splits prod.splits)
  assume "t \<in> set (holdings s)"
  then obtain i where i: "i < length (holdings s)" "holdings s ! i = t" by (auto simp: in_set_conv_nth)
  have "memory_step pick core env i s = None"
  proof (rule ccontr)
    assume "memory_step pick core env i s \<noteq> None"
    then obtain r where r: "memory_step pick core env i s = Some r" by blast
    from memory_step_ok [OF pick chain ok i(1) this] obtain s' where "r = Inr s'" by blast
    with r i(1) stuck show False by (auto intro: memory_next.worker)
  qed
  with i(2) show "t = Ended \<or> t = Idle \<and> queued s = []"
    by (auto simp: memory_step_def take_step_def split: holding.splits list.splits option.splits)
qed

lemma memory_stuck:
  assumes pick: "malloc_contract pick" and chain: "plugin_chain wok (core_plugins core)"
    and ok: "memory_ok wok core channels n s p" and n: "0 < n" and stuck: "\<nexists>t. memory_next pick core env s t"
  shows "heap s = []" "mset (map line_channel (mp_stdout s)) = channels"
proof -
  note quiet = memory_quiet [OF pick chain ok stuck]
  from ok quiet(1) have inv: "list_all2 (job_at (heap s)) (queued s) (job_queue p)"
    "list_all2 (hold_at (heap s)) (holdings s) (threads p)" "stdout_lines p = mp_stdout s"
    "owned (heap s) (queued s) (holdings s) = mset_set (fst ` set (heap s))"
    unfolding memory_ok_def by (auto elim: representsE)
  have pool: "pool_ok wok core channels p" "length (threads p) = n" using ok by (simp_all add: memory_ok_def)
  have "holdings s \<noteq> []" "threads p \<noteq> []" using n pool(2) memory_ok_holdings [OF ok] by auto
  then obtain t where t: "t \<in> set (holdings s)" by (meson hd_in_set)
  have thread: "thread_step core env i p = None" if "i < length (threads p)" for i
  proof -
    have i: "i < length (holdings s)" using that pool(2) memory_ok_holdings [OF ok] by simp
    from list_all2_nthD [OF inv(2) i] quiet(2) [OF nth_mem [OF i]] inv(1) show ?thesis
      by (auto simp: thread_step_def dequeue_step_def)
  qed
  show "mset (map line_channel (mp_stdout s)) = channels"
    using pool_stuck_answered [OF pool(1) \<open>threads p \<noteq> []\<close> thread] inv(3) by auto
  have holds: "hold_blocks (heap s) t = {#}" if "t \<in> set (holdings s)" for t using quiet(2) [OF that] by auto
  have jobs: "j = None" if "j \<in> set (queued s)" for j
  proof -
    have "t = Ended" using quiet(2) [OF t] that by auto
    with t inv(2) have "Terminated \<in> set (threads p)" by (metis hold_at.simps(5) in_set_conv_nth list_all2_conv_all_nth)
    with pool(1) obtain k where "job_queue p = replicate k None" unfolding pool_ok_def by auto
    with inv(1) that show ?thesis by (cases j) (auto simp: list_all2_conv_all_nth in_set_conv_nth)
  qed
  have "job_blocks (heap s) j = {#}" if "j \<in> set (queued s)" for j using jobs [OF that] by simp
  with holds have "a \<notin># owned (heap s) (queued s) (holdings s)" for a by (auto simp: owned_def)
  then have none: "a \<notin> fst ` set (heap s)" for a unfolding inv(4) by simp
  show "heap s = []"
  proof (cases "heap s")
    case (Cons c h)
    with none [of "fst c"] show ?thesis by simp
  qed
qed

text \<open>
  C9: every block of a job is freed exactly once, and only after its last use.  For any
  allocator that returns blocks not in use (it may reuse freed ones at once), plugins that
  keep the contract, any number of workers at least one, and any lines followed by any
  number of null pointers, under every interleaving of the reader and the workers: no step
  uses or frees a block that is not allocated, or faults otherwise; at every moment the
  allocated blocks are exactly those of the lines in the queue and of the line and request
  of each busy worker, none owned twice; and from every state the pool runs to one where
  nothing is left to do, in which no block is allocated any more and every line has been
  answered.
\<close>

theorem jobs_freed_exactly_once:
  assumes "malloc_contract pick" "plugin_chain wok (core_plugins core)" "wok w" "list_all2 buf_cstr bs ts" "0 < n"
    and "(memory_next pick core env)\<^sup>*\<^sup>* (memory_init n (map Some bs @ replicate k None) w) s"
  shows "(\<forall>i r. i < length (holdings s) \<longrightarrow> memory_step pick core env i s = Some r \<longrightarrow> (\<exists>s'. r = Inr s'))
    \<and> owned (heap s) (queued s) (holdings s) = mset_set (fst ` set (heap s))
    \<and> ((\<nexists>t. memory_next pick core env s t) \<longrightarrow> heap s = []
        \<and> mset (map line_channel (mp_stdout s)) = mset (map (\<lambda>t. line_channel (until_nul t)) ts))
    \<and> (\<exists>s'. (memory_next pick core env)\<^sup>*\<^sup>* s s' \<and> (\<nexists>t. memory_next pick core env s' t))"
proof -
  let ?channels = "mset (map (\<lambda>t. line_channel (until_nul t)) ts)" and ?js = "map Some bs @ replicate k None"
  have "pool_ok wok core ?channels (pool_init n ?js w)" by (rule pool_init_ok) (rule assms(3), rule assms(4))
  then have "memory_ok wok core ?channels n (memory_init n ?js w) (pool_init n ?js w)"
    using represents_init by (simp add: memory_ok_def) (simp add: pool_init_def)
  from memory_run_ok [OF assms(1,2,6) this] obtain p where ok: "memory_ok wok core ?channels n s p" by blast
  then have "owned (heap s) (queued s) (holdings s) = mset_set (fst ` set (heap s))"
    by (auto simp: memory_ok_def elim: representsE)
  with memory_step_ok [OF assms(1,2) ok] memory_stuck [OF assms(1,2) ok assms(5)] memory_finishes [OF assms(1,2) ok]
  show ?thesis by blast
qed

theorem jobs_freed_exactly_once_witness:
  "\<exists>b s. buf_cstr b ''7 10.0.0.1''
     \<and> (memory_next above_all deny_core one_address)\<^sup>*\<^sup>* (memory_init 2 [Some b, Some b, None, None] ()) s
     \<and> heap s = [] \<and> mset (map line_channel (mp_stdout s)) = {#line_channel ''7 10.0.0.1'', line_channel ''7 10.0.0.1''#}"
proof -
  obtain b where b: "buf_cstr b ''7 10.0.0.1''" by (rule line_buffer)
  let ?init = "memory_init 2 (map Some [b, b] @ replicate 2 None) ()"
  have bs: "list_all2 buf_cstr [b, b] [''7 10.0.0.1'', ''7 10.0.0.1'']" using b by simp
  have two: "0 < (2 :: nat)" by simp
  note freed = jobs_freed_exactly_once [OF above_all_contract deny_all_chain TrueI bs two, of one_address 2]
  from freed [OF rtranclp.rtrancl_refl] obtain s where
    s: "(memory_next above_all deny_core one_address)\<^sup>*\<^sup>* ?init s" "\<nexists>t. memory_next above_all deny_core one_address s t"
    by blast
  from freed [OF s(1)] s(2) have "heap s = []"
    "mset (map line_channel (mp_stdout s)) = {#line_channel ''7 10.0.0.1'', line_channel ''7 10.0.0.1''#}" by auto
  with s(1) b show ?thesis by (intro exI [of _ b] exI [of _ s]) (simp add: numeral_eq_Suc)
qed

end
