(* ===== verification/Thread_Data.thy ===== *)
theory Thread_Data
  imports C_Heap Deployment Shutdown
begin

text \<open>
  What belongs to one thread: its \<open>thread\<close> struct (\<open>src/core/webcontrol_base.h\<close>) and the
  functions that find it (\<open>current_thread\<close>, \<open>current_thread_number\<close> in
  \<open>src/core/webcontrol.h\<close>), the connections that \<open>mod_memcached\<close> and \<open>mod_activedirectory\<close> keep as
  thread-specific data, the destructors of these keys, and the \<open>thread_msg\<close> a worker sends when
  it ends (\<open>src/core/main.c\<close>).

  Connections and messages are blocks of a heap: using or closing one that is not open is the
  fault \<open>BadPointer\<close>.  The hooks of the two plugins are those of their theories with the
  connection they fetch; all threads are interleaved.
\<close>

section \<open>Threads and thread-specific data\<close>

record thread =
  thread_number :: size_t

text \<open>The array \<open>workers\<close>, as \<open>main\<close> fills it; a \<open>thread *\<close> is an index.\<close>

definition workers_array :: "nat \<Rightarrow> thread list" where
  "workers_array num_threads = map (\<lambda>i. \<lparr>thread_number = of_nat i + 1\<rparr>) [0..<num_threads]"

text \<open>The keys; each thread has a value for each, null before it is set.\<close>

datatype tls_key = Current_Thread_Key | Memcached_Tls_Key | Ldap_Key

datatype connection = Memcached_St | Ldap_Con

datatype thread_signal = No_Signal | WORKER_TERMINATE

record thread_msg =
  msg_thread :: "nat option"
  msg_signal :: thread_signal

text \<open>
  Where a thread is: created, in the loop over the \<open>thread_init\<close> hooks (with those that are
  left), in the job loop, at the label \<open>terminate\<close>, with its message allocated, before the
  \<open>thread_free\<close> hooks, in \<open>pthread_exit\<close>, gone.
\<close>

datatype 'w loaded = Memcached_Loaded | Directory_Loaded | Other_Loaded "'w plugin"

datatype 'w thread_point =
    Created
  | Opening "'w loaded list"
  | Serving
  | Reporting
  | Reported addr
  | Freeing
  | Exiting
  | Gone

record 'w thread_state =
  ts_world :: 'w
  connections :: "connection heap"
  specific :: "(tls_key \<rightharpoonup> addr) list"
  points :: "'w thread_point list"
  messages :: "thread_msg heap"
  signal_messages :: "addr list"
  in_event_loop :: bool

text \<open>The libraries, where they and \<open>malloc\<close> place what they allocate, and the plugins loaded.\<close>

record ('w, 's, 'r, 'e, 'a) setting =
  mc_calls :: "('w, 's) mc_lib"
  ad_calls :: "('w, 'r, 'e, 'a) ad_lib"
  new_connection :: "connection heap \<Rightarrow> addr"
  new_message :: "thread_msg heap \<Rightarrow> addr"
  loaded_plugins :: "'w loaded list"

definition threads_init :: "nat \<Rightarrow> 'w \<Rightarrow> 'w thread_state" where
  "threads_init num_threads w =
     \<lparr>ts_world = w, connections = [], specific = replicate num_threads Map.empty,
      points = replicate num_threads Created, messages = [], signal_messages = [], in_event_loop = True\<rparr>"

definition pthread_getspecific :: "nat \<Rightarrow> tls_key \<Rightarrow> 'w thread_state \<Rightarrow> addr option" where
  "pthread_getspecific i k s = (specific s ! i) k"

definition pthread_setspecific :: "nat \<Rightarrow> tls_key \<Rightarrow> addr option \<Rightarrow> 'w thread_state \<Rightarrow> 'w thread_state" where
  "pthread_setspecific i k v s = s\<lparr>specific := (specific s)[i := (specific s ! i)(k := v)]\<rparr>"

definition at_point :: "nat \<Rightarrow> 'w thread_point \<Rightarrow> 'w thread_state \<Rightarrow> 'w thread_state" where
  "at_point i x s = s\<lparr>points := (points s)[i := x]\<rparr>"

definition current_thread :: "nat \<Rightarrow> 'w thread_state \<Rightarrow> addr option" where
  "current_thread i s = pthread_getspecific i Current_Thread_Key s"

definition current_thread_number :: "thread list \<Rightarrow> nat \<Rightarrow> 'w thread_state \<Rightarrow> size_t c_result" where
  "current_thread_number ts i s =
     (case current_thread i s of
        None \<Rightarrow> Inr 0
      | Some t \<Rightarrow> if t < length ts then Inr (thread_number (ts ! t)) else Inl BadPointer)"

section \<open>Connections\<close>

text \<open>
  \<open>thread_init\<close> of \<open>mod_memcached\<close>: the handle is stored only after the servers were accepted,
  and not freed otherwise.
\<close>

definition memcached_thread_init_at ::
  "('w, 's, 'r, 'e, 'a) setting \<Rightarrow> nat \<Rightarrow> 'w thread_state \<Rightarrow> int \<times> 'w thread_state" where
  "memcached_thread_init_at cfg i s =
     (let lib = mc_calls cfg; (created, w) = memcached_create lib (ts_world s) in
      if \<not> created then (-1, s\<lparr>ts_world := w\<rparr>)
      else
        (let (memc, h) = hp_malloc (new_connection cfg) Memcached_St (connections s);
             (success, w) =
               (case mc_servers lib w of
                  Some servers \<Rightarrow> memcached_server_push lib servers w
                | None \<Rightarrow> memcached_server_push lib (memcached_servers_parse lib WEBCONTROL_MEMCACHED_DEFAULT_SERVERS) w);
             s = s\<lparr>ts_world := w, connections := h\<rparr>
         in if \<not> success then (-1, s) else (0, pthread_setspecific i Memcached_Tls_Key (Some memc) s)))"

text \<open>\<open>webcontrol_activedirectory_ldap_open\<close>: likewise for an LDAP connection and its bind.\<close>

definition ldap_open_at ::
  "('w, 's, 'r, 'e, 'a) setting \<Rightarrow> nat \<Rightarrow> 'w thread_state \<Rightarrow> int \<times> 'w thread_state" where
  "ldap_open_at cfg i s =
     (let lib = ad_calls cfg; pc = ad_data lib (ts_world s) in
      case ad_uri pc of
        None \<Rightarrow> (-1, s)
      | Some uri \<Rightarrow>
          (let (status, w) = ldap_initialize lib uri (ts_world s) in
           if status \<noteq> LDAP_SUCCESS then (-1, s\<lparr>ts_world := w\<rparr>)
           else
             (let (ldap_con, h) = hp_malloc (new_connection cfg) Ldap_Con (connections s);
                  ((status, msgid), w) = ldap_sasl_bind lib (ad_bind_dn pc) (ad_bind_password pc) w
              in if status \<noteq> LDAP_SUCCESS then (-1, s\<lparr>ts_world := w, connections := h\<rparr>)
                 else
                   (let ((status, result), w) = ldap_result lib msgid w;
                        s = s\<lparr>ts_world := w, connections := h\<rparr>
                    in if status \<noteq> LDAP_RES_BIND then (-1, s)
                       else (0, pthread_setspecific i Ldap_Key (Some ldap_con) s)))))"

fun open_hook ::
  "('w, 's, 'r, 'e, 'a) setting \<Rightarrow> nat \<Rightarrow> 'w loaded \<Rightarrow> 'w thread_state \<Rightarrow> (int \<times> 'w thread_state) c_result" where
  "open_hook cfg i Memcached_Loaded s = Inr (memcached_thread_init_at cfg i s)"
| "open_hook cfg i Directory_Loaded s =
     (let (rc, s) = ldap_open_at cfg i s in Inr (if rc \<noteq> 0 then -1 else 0, s))"
| "open_hook cfg i (Other_Loaded p) s =
     (case pl_thread_init p of
        None \<Rightarrow> Inr (0, s)
      | Some h \<Rightarrow> c_bind (h (ts_world s)) (\<lambda>(rc, w). Inr (rc, s\<lparr>ts_world := w\<rparr>)))"

text \<open>A call of a library function on the connection that a thread has stored.\<close>

definition use_connection :: "connection \<Rightarrow> tls_key \<Rightarrow> nat \<Rightarrow> 'w thread_state \<Rightarrow> unit c_result" where
  "use_connection c k i s =
     c_bind (hp_load (connections s) (pthread_getspecific i k s)) (\<lambda>x. if x = c then Inr () else Inl BadPointer)"

definition in_world :: "'w thread_state \<Rightarrow> (handler_status \<times> request \<times> 'w) c_result \<Rightarrow>
    (handler_status \<times> request \<times> 'w thread_state) c_result" where
  "in_world s r = c_bind r (\<lambda>(status, req, w). Inr (status, req, s\<lparr>ts_world := w\<rparr>))"

text \<open>
  The request hooks.  \<open>mod_activedirectory\<close> fetches its connection once the address has resolved
  to a name.
\<close>

fun handle_hook ::
  "('w, 's, 'r, 'e, 'a) setting \<Rightarrow> nat \<Rightarrow> 'w loaded \<Rightarrow> request \<Rightarrow> 'w thread_state \<Rightarrow>
    (handler_status \<times> request \<times> 'w thread_state) c_result" where
  "handle_hook cfg i Memcached_Loaded req s =
     c_bind (use_connection Memcached_St Memcached_Tls_Key i s) (\<lambda>_.
     in_world s (webcontrol_memcached_handle_request (mc_calls cfg) req (ts_world s)))"
| "handle_hook cfg i Directory_Loaded req s =
     c_bind (case webcontrol_rdns_lookup (getnameinfo (ad_calls cfg)) (ip_addr req) host_buffer HOST_NAME_MAX (ts_world s) of
         Inr (True, hostname, w) \<Rightarrow> use_connection Ldap_Con Ldap_Key i s
       | _ \<Rightarrow> Inr ()) (\<lambda>_.
     in_world s (webcontrol_activedirectory_handle_request (ad_calls cfg) req (ts_world s)))"
| "handle_hook cfg i (Other_Loaded p) req s =
     (case pl_handle_request p of
        None \<Rightarrow> Inr (HANDLER_GO_ON, req, s)
      | Some h \<Rightarrow> in_world s (h req (ts_world s)))"

fun post_hook ::
  "('w, 's, 'r, 'e, 'a) setting \<Rightarrow> nat \<Rightarrow> 'w loaded \<Rightarrow> request \<Rightarrow> 'w thread_state \<Rightarrow>
    (handler_status \<times> request \<times> 'w thread_state) c_result" where
  "post_hook cfg i Memcached_Loaded req s =
     c_bind (use_connection Memcached_St Memcached_Tls_Key i s) (\<lambda>_.
     in_world s (webcontrol_memcached_post_handle_request (mc_calls cfg) req (ts_world s)))"
| "post_hook cfg i Directory_Loaded req s = Inr (HANDLER_GO_ON, req, s)"
| "post_hook cfg i (Other_Loaded p) req s =
     (case pl_post_handle_request p of
        None \<Rightarrow> Inr (HANDLER_GO_ON, req, s)
      | Some h \<Rightarrow> in_world s (h req (ts_world s)))"

fun free_hook :: "'w loaded \<Rightarrow> 'w thread_state \<Rightarrow> 'w thread_state c_result" where
  "free_hook (Other_Loaded p) s =
     (case pl_thread_free p of
        None \<Rightarrow> Inr s
      | Some h \<Rightarrow> c_bind (h (ts_world s)) (\<lambda>w. Inr (s\<lparr>ts_world := w\<rparr>)))"
| "free_hook _ s = Inr s"

fun free_hooks :: "'w loaded list \<Rightarrow> 'w thread_state \<Rightarrow> 'w thread_state c_result" where
  "free_hooks [] s = Inr s"
| "free_hooks (p # ps) s = c_bind (free_hook p s) (\<lambda>s. free_hooks ps s)"

subsection \<open>Destructors\<close>

definition close_connection :: "connection \<Rightarrow> addr option \<Rightarrow> 'w thread_state \<Rightarrow> 'w thread_state c_result" where
  "close_connection c v s =
     c_bind (hp_load (connections s) v) (\<lambda>x.
     if x = c then c_bind (hp_free (connections s) v) (\<lambda>h. Inr (s\<lparr>connections := h\<rparr>)) else Inl BadPointer)"

definition memcached_tls_key_free :: "nat \<Rightarrow> addr option \<Rightarrow> 'w thread_state \<Rightarrow> 'w thread_state c_result" where
  "memcached_tls_key_free i v s =
     c_bind (if v \<noteq> None then close_connection Memcached_St v s else Inr s) (\<lambda>s.
     Inr (pthread_setspecific i Memcached_Tls_Key None s))"

definition ldap_key_destruct :: "nat \<Rightarrow> addr option \<Rightarrow> 'w thread_state \<Rightarrow> 'w thread_state c_result" where
  "ldap_key_destruct i v s =
     c_bind (close_connection Ldap_Con v s) (\<lambda>s. Inr (pthread_setspecific i Ldap_Key None s))"

text \<open>The destructor each key was created with; \<open>current_thread_key\<close> has none.\<close>

fun key_destructor :: "tls_key \<Rightarrow> (nat \<Rightarrow> addr option \<Rightarrow> 'w thread_state \<Rightarrow> 'w thread_state c_result) option" where
  "key_destructor Current_Thread_Key = None"
| "key_destructor Memcached_Tls_Key = Some memcached_tls_key_free"
| "key_destructor Ldap_Key = Some ldap_key_destruct"

text \<open>
  \<open>pthread_exit\<close>: in an order that POSIX leaves open, each key with a destructor and a value that
  is not null is set to null and its destructor is called with the value.
\<close>

definition destructor_step :: "nat \<Rightarrow> tls_key \<Rightarrow> 'w thread_state \<Rightarrow> 'w thread_state c_result option" where
  "destructor_step i k s =
     (case key_destructor k of
        None \<Rightarrow> None
      | Some d \<Rightarrow>
          (case pthread_getspecific i k s of
             None \<Rightarrow> None
           | Some v \<Rightarrow> Some (d i (Some v) (pthread_setspecific i k None s))))"

definition exit_step :: "nat \<Rightarrow> 'w thread_state \<Rightarrow> 'w thread_state option" where
  "exit_step i s =
     (if pthread_getspecific i Memcached_Tls_Key s = None \<and> pthread_getspecific i Ldap_Key s = None
      then Some (at_point i Gone s) else None)"

section \<open>The threads interleaved\<close>

text \<open>The start of \<open>worker\<close>, and one round of its loop over the \<open>thread_init\<close> hooks.\<close>

definition begin_step :: "('w, 's, 'r, 'e, 'a) setting \<Rightarrow> nat \<Rightarrow> 'w thread_state \<Rightarrow> 'w thread_state" where
  "begin_step cfg i s =
     at_point i (Opening (loaded_plugins cfg)) (pthread_setspecific i Current_Thread_Key (Some i) s)"

fun opening_step ::
  "('w, 's, 'r, 'e, 'a) setting \<Rightarrow> nat \<Rightarrow> 'w loaded list \<Rightarrow> 'w thread_state \<Rightarrow> 'w thread_state c_result" where
  "opening_step cfg i [] s = Inr (at_point i Serving s)"
| "opening_step cfg i (p # ps) s =
     c_bind (open_hook cfg i p s) (\<lambda>(rc, s). Inr (at_point i (if rc \<noteq> 0 then Reporting else Opening ps) s))"

text \<open>The message of a worker that ends: allocated and filled, then enqueued.\<close>

definition report_step :: "('w, 's, 'r, 'e, 'a) setting \<Rightarrow> nat \<Rightarrow> 'w thread_state \<Rightarrow> 'w thread_state" where
  "report_step cfg i s =
     (let (msg, h) = hp_malloc (new_message cfg) \<lparr>msg_thread = Some i, msg_signal = WORKER_TERMINATE\<rparr> (messages s)
      in at_point i (Reported msg) (s\<lparr>messages := h\<rparr>))"

definition send_step :: "nat \<Rightarrow> addr \<Rightarrow> 'w thread_state \<Rightarrow> 'w thread_state option" where
  "send_step i msg s =
     (if length (signal_messages s) < SIGNAL_SLOTS
      then Some (at_point i Freeing (s\<lparr>signal_messages := signal_messages s @ [msg]\<rparr>)) else None)"

text \<open>What a thread does next by itself; \<open>None\<close> while it waits.\<close>

definition thread_step_at ::
  "('w, 's, 'r, 'e, 'a) setting \<Rightarrow> nat \<Rightarrow> 'w thread_state \<Rightarrow> 'w thread_state c_result option" where
  "thread_step_at cfg i s =
     (case points s ! i of
        Created \<Rightarrow> Some (Inr (begin_step cfg i s))
      | Opening ps \<Rightarrow> Some (opening_step cfg i ps s)
      | Serving \<Rightarrow> None
      | Reporting \<Rightarrow> Some (Inr (report_step cfg i s))
      | Reported msg \<Rightarrow> map_option Inr (send_step i msg s)
      | Freeing \<Rightarrow> Some (c_bind (free_hooks (loaded_plugins cfg) s) (\<lambda>s. Inr (at_point i Exiting s)))
      | Exiting \<Rightarrow> map_option Inr (exit_step i s)
      | Gone \<Rightarrow> None)"

text \<open>
  \<open>thread_sig_cb\<close>: the message is dequeued, checked and freed.  The counter \<open>active_workers\<close> is
  in the theory \<open>Whole_Life\<close>; here the loop may end at any time.
\<close>

definition thread_sig_cb :: "'w thread_state \<Rightarrow> 'w thread_state c_result option" where
  "thread_sig_cb s =
     (if \<not> in_event_loop s then None
      else case signal_messages s of
        [] \<Rightarrow> None
      | msg # rest \<Rightarrow> Some (
          c_bind (hp_load (messages s) (Some msg)) (\<lambda>m.
          if msg_thread m = None then Inl AssertFailed
          else c_bind (hp_free (messages s) (Some msg)) (\<lambda>h.
            Inr (s\<lparr>messages := h, signal_messages := rest\<rparr>)))))"

text \<open>
  Who acts: a thread by itself, a thread that serves a request with a plugin's hook or its post
  hook, a thread that has dequeued the null pointer, a thread in \<open>pthread_exit\<close>, the callback,
  and \<open>main\<close> when the event loop ends.
\<close>

datatype 'w thread_actor =
    Runs nat
  | Handles nat "'w loaded" request
  | Posts nat "'w loaded" request
  | Quits nat
  | Destructs nat tls_key
  | Calls_Back
  | Leaves_Loop

definition threads_step ::
  "('w, 's, 'r, 'e, 'a) setting \<Rightarrow> 'w thread_actor \<Rightarrow> 'w thread_state \<Rightarrow> 'w thread_state c_result option" where
  "threads_step cfg a s =
     (case a of
        Runs i \<Rightarrow> if i < length (points s) then thread_step_at cfg i s else None
      | Handles i p req \<Rightarrow>
          if i < length (points s) \<and> points s ! i = Serving \<and> p \<in> set (loaded_plugins cfg)
          then Some (c_bind (handle_hook cfg i p req s) (\<lambda>(status, req, s). Inr s)) else None
      | Posts i p req \<Rightarrow>
          if i < length (points s) \<and> points s ! i = Serving \<and> p \<in> set (loaded_plugins cfg)
          then Some (c_bind (post_hook cfg i p req s) (\<lambda>(status, req, s). Inr s)) else None
      | Quits i \<Rightarrow>
          if i < length (points s) \<and> points s ! i = Serving then Some (Inr (at_point i Reporting s)) else None
      | Destructs i k \<Rightarrow>
          if i < length (points s) \<and> points s ! i = Exiting then destructor_step i k s else None
      | Calls_Back \<Rightarrow> thread_sig_cb s
      | Leaves_Loop \<Rightarrow> if in_event_loop s then Some (Inr (s\<lparr>in_event_loop := False\<rparr>)) else None)"

text \<open>The requests that a worker hands to the plugins are well-formed (theory \<open>Worker\<close>).\<close>

fun actor_wf :: "'w thread_actor \<Rightarrow> bool" where
  "actor_wf (Handles i p req) \<longleftrightarrow> (\<exists>a. request_wf req a)"
| "actor_wf (Posts i p req) \<longleftrightarrow> (\<exists>a. request_wf req a)"
| "actor_wf _ \<longleftrightarrow> True"

inductive threads_next :: "('w, 's, 'r, 'e, 'a) setting \<Rightarrow> 'w thread_state \<Rightarrow> 'w thread_state \<Rightarrow> bool" for cfg where
  "actor_wf a \<Longrightarrow> threads_step cfg a s = Some (Inr s') \<Longrightarrow> threads_next cfg s s'"

inductive_cases threads_nextE: "threads_next cfg s s'"

end
