(* ===== verification/Thread_Ownership.thy ===== *)
theory Thread_Ownership
  imports Thread_Data
begin

text \<open>
  What holds of the connections and messages of the theory \<open>Thread_Data\<close> under every
  interleaving: each connection is stored by one thread under one key, is open while it is stored,
  and is closed by the destructor of its key when that thread ends.

  Nothing here models further code.
\<close>

section \<open>The hooks and those of the plugins\<close>

fun plugin_of :: "('w, 's, 'r, 'e, 'a) setting \<Rightarrow> 'w \<Rightarrow> 'w loaded \<Rightarrow> 'w plugin" where
  "plugin_of cfg w0 Memcached_Loaded = memcached_plugin (mc_calls cfg)"
| "plugin_of cfg w0 Directory_Loaded = activedirectory_plugin (ad_calls cfg) w0"
| "plugin_of cfg w0 (Other_Loaded p) = p"

fun key_of :: "'w loaded \<Rightarrow> tls_key option" where
  "key_of Memcached_Loaded = Some Memcached_Tls_Key"
| "key_of Directory_Loaded = Some Ldap_Key"
| "key_of (Other_Loaded p) = None"

fun conn_kind :: "tls_key \<Rightarrow> connection option" where
  "conn_kind Current_Thread_Key = None"
| "conn_kind Memcached_Tls_Key = Some Memcached_St"
| "conn_kind Ldap_Key = Some Ldap_Con"

text \<open>Once a connection has been created, giving it its servers or its bind does not fail.\<close>

definition opens_clean :: "('w, 's, 'r, 'e, 'a) setting \<Rightarrow> bool" where
  "opens_clean cfg \<longleftrightarrow>
     (\<forall>s w. fst (memcached_server_push (mc_calls cfg) s w)) \<and>
     (\<forall>d p w. fst (fst (ldap_sasl_bind (ad_calls cfg) d p w)) = LDAP_SUCCESS) \<and>
     (\<forall>d p w st i w'. ldap_sasl_bind (ad_calls cfg) d p w = ((st, i), w') \<longrightarrow>
        fst (fst (ldap_result (ad_calls cfg) i w')) = LDAP_RES_BIND)"

text \<open>What an operation that opens a connection does to those that are open and stored.\<close>

inductive opens ::
  "('w, 's, 'r, 'e, 'a) setting \<Rightarrow> nat \<Rightarrow> tls_key option \<Rightarrow> int \<Rightarrow> 'w thread_state \<Rightarrow> 'w thread_state \<Rightarrow> bool"
  for cfg i k where
  nothing: "k = None \<or> rc \<noteq> 0 \<Longrightarrow> opens cfg i k rc s (s\<lparr>ts_world := w\<rparr>)"
| lost: "rc \<noteq> 0 \<Longrightarrow> \<not> opens_clean cfg \<Longrightarrow>
    opens cfg i k rc s (s\<lparr>ts_world := w, connections := (new_connection cfg (connections s), c) # connections s\<rparr>)"
| stored: "k = Some key \<Longrightarrow> conn_kind key = Some c \<Longrightarrow>
    opens cfg i k 0 s (pthread_setspecific i key (Some (new_connection cfg (connections s)))
      (s\<lparr>ts_world := w, connections := (new_connection cfg (connections s), c) # connections s\<rparr>))"

lemma memcached_open:
  assumes "memcached_thread_init_at cfg i s = (rc, s')"
  shows "opens cfg i (Some Memcached_Tls_Key) rc s s'"
    "webcontrol_memcached_thread_init (mc_calls cfg) (ts_world s) = Inr (rc, ts_world s')"
proof -
  let ?lib = "mc_calls cfg"
  obtain created w1 where c: "memcached_create ?lib (ts_world s) = (created, w1)" by fastforce
  obtain success w2 where p: "(case mc_servers ?lib w1 of
      Some servers \<Rightarrow> memcached_server_push ?lib servers w1
    | None \<Rightarrow> memcached_server_push ?lib (memcached_servers_parse ?lib WEBCONTROL_MEMCACHED_DEFAULT_SERVERS) w1) = (success, w2)"
    by fastforce
  have clean: "\<not> success \<Longrightarrow> \<not> opens_clean cfg"
    using p by (auto simp: opens_clean_def split: option.splits) (metis fst_conv)+
  show "opens cfg i (Some Memcached_Tls_Key) rc s s'"
    using assms c p clean opens.nothing [of "Some Memcached_Tls_Key" "-1" cfg i s w1]
      opens.lost [of "-1" cfg i "Some Memcached_Tls_Key" s Memcached_St w2]
      opens.stored [of "Some Memcached_Tls_Key" Memcached_Tls_Key Memcached_St cfg i s w2]
    by (auto simp: memcached_thread_init_at_def hp_malloc_def Let_def split: if_splits)
  show "webcontrol_memcached_thread_init ?lib (ts_world s) = Inr (rc, ts_world s')"
    using assms c p
    by (auto simp: memcached_thread_init_at_def webcontrol_memcached_thread_init_def hp_malloc_def Let_def
        pthread_setspecific_def split: if_splits)
qed

lemma ldap_open:
  assumes "ldap_open_at cfg i s = (rc, s')"
  shows "opens cfg i (Some Ldap_Key) rc s s'"
    "webcontrol_activedirectory_ldap_open (ad_calls cfg) (ad_data (ad_calls cfg) (ts_world s)) (ts_world s) = (rc, ts_world s')"
proof -
  let ?lib = "ad_calls cfg" and ?k = "Some Ldap_Key"
  let ?pc = "ad_data ?lib (ts_world s)"
  show "webcontrol_activedirectory_ldap_open ?lib ?pc (ts_world s) = (rc, ts_world s')"
    using assms
    by (auto simp: ldap_open_at_def webcontrol_activedirectory_ldap_open_def hp_malloc_def Let_def
        pthread_setspecific_def split: if_splits option.splits prod.splits)
  show "opens cfg i ?k rc s s'"
  proof (cases "ad_uri ?pc")
    case None
    then show ?thesis
      using assms opens.nothing [of ?k "-1" cfg i s "ts_world s"] by (auto simp: ldap_open_at_def)
  next
    case (Some uri)
    obtain st1 w1 where i: "ldap_initialize ?lib uri (ts_world s) = (st1, w1)" by fastforce
    obtain st2 msgid w2 where b: "ldap_sasl_bind ?lib (ad_bind_dn ?pc) (ad_bind_password ?pc) w1 = ((st2, msgid), w2)"
      by (metis prod.collapse)
    obtain st3 res w3 where r: "ldap_result ?lib msgid w2 = ((st3, res), w3)" by (metis prod.collapse)
    have clean: "st2 \<noteq> LDAP_SUCCESS \<Longrightarrow> \<not> opens_clean cfg" "st3 \<noteq> LDAP_RES_BIND \<Longrightarrow> \<not> opens_clean cfg"
      using b r unfolding opens_clean_def by (metis fst_conv)+
    show ?thesis
      using assms Some i b r clean opens.nothing [of ?k "-1" cfg i s w1]
        opens.lost [of "-1" cfg i ?k s Ldap_Con w2] opens.lost [of "-1" cfg i ?k s Ldap_Con w3]
        opens.stored [of ?k Ldap_Key Ldap_Con cfg i s w3]
      by (auto simp: ldap_open_at_def hp_malloc_def Let_def split: if_splits)
  qed
qed

text \<open>
  The return code and the world are those of the plugin's own hook, so that the two agree on
  what the worker does next.
\<close>

definition agree :: "('a \<times> 'w) c_result \<Rightarrow> ('a \<times> 'w thread_state) c_result \<Rightarrow> bool" where
  "agree r r' \<longleftrightarrow> r = c_bind r' (\<lambda>(x, s). Inr (x, ts_world s))"

lemma opens_rc: "opens cfg i k rc s s' \<Longrightarrow> rc \<noteq> 0 \<Longrightarrow> rc' \<noteq> 0 \<Longrightarrow> opens cfg i k rc' s s'"
  by (induction rule: opens.induct) (auto intro: opens.intros)

lemma open_hook_agrees:
  "agree (case pl_thread_init (plugin_of cfg w0 p) of None \<Rightarrow> Inr (0, ts_world s) | Some h \<Rightarrow> h (ts_world s)) (open_hook cfg i p s)"
proof (cases p)
  case Memcached_Loaded
  obtain rc s' where o: "memcached_thread_init_at cfg i s = (rc, s')" by fastforce
  with memcached_open(2) [OF o] Memcached_Loaded show ?thesis by (simp add: agree_def memcached_plugin_hooks)
next
  case Directory_Loaded
  obtain rc s' where o: "ldap_open_at cfg i s = (rc, s')" by fastforce
  with ldap_open(2) [OF o] Directory_Loaded show ?thesis
    by (simp add: agree_def activedirectory_plugin_hooks webcontrol_activedirectory_thread_init_def)
next
  case (Other_Loaded q)
  then show ?thesis by (cases "pl_thread_init q"; cases "the (pl_thread_init q) (ts_world s)") (auto simp: agree_def)
qed

lemma open_hook_opens:
  assumes "open_hook cfg i p s = Inr (rc, s')"
  shows "opens cfg i (key_of p) rc s s'"
proof (cases p)
  case Memcached_Loaded
  with assms memcached_open(1) show ?thesis by auto
next
  case Directory_Loaded
  with assms obtain rc' where o: "ldap_open_at cfg i s = (rc', s')" "rc = (if rc' \<noteq> 0 then -1 else 0)"
    by (auto simp: Let_def split: prod.splits)
  with ldap_open(1) [OF o(1)] opens_rc [of cfg i "Some Ldap_Key" rc' s s' "-1"] Directory_Loaded show ?thesis by auto
next
  case (Other_Loaded q)
  moreover have "opens cfg i None rc s s" using opens.nothing [of None rc cfg i s "ts_world s"] by simp
  moreover have "opens cfg i None rc s (s\<lparr>ts_world := w\<rparr>)" for w by (rule opens.nothing) simp
  ultimately show ?thesis using assms by (auto split: option.splits elim!: c_bind_InrE)
qed

lemma use_connection_ok:
  assumes "map_of (connections s) a = Some c" "pthread_getspecific i k s = Some a"
  shows "use_connection c k i s = Inr ()"
  using assms by (simp add: use_connection_def hp_load_def)

lemma handle_hook_agrees:
  assumes "\<And>k c. key_of p = Some k \<Longrightarrow> conn_kind k = Some c \<Longrightarrow> use_connection c k i s = Inr ()"
  shows "handle_hook cfg i p req s =
      in_world s (case pl_handle_request (plugin_of cfg w0 p) of None \<Rightarrow> Inr (HANDLER_GO_ON, req, ts_world s) | Some h \<Rightarrow> h req (ts_world s))"
    "post_hook cfg i p req s =
      in_world s (case pl_post_handle_request (plugin_of cfg w0 p) of None \<Rightarrow> Inr (HANDLER_GO_ON, req, ts_world s) | Some h \<Rightarrow> h req (ts_world s))"
  using assms by (cases p; simp add: memcached_plugin_hooks activedirectory_plugin_hooks in_world_def
      split: option.split sum.split bool.split)+

lemma free_hooks_agree:
  "free_hooks ps s = c_bind (run_thread_free (map (plugin_of cfg w0) ps) (ts_world s)) (\<lambda>w. Inr (s\<lparr>ts_world := w\<rparr>))"
proof (induction ps arbitrary: s)
  case (Cons p ps)
  show ?case
  proof (cases p)
    case (Other_Loaded q)
    then show ?thesis
      by (cases "pl_thread_free q"; cases "the (pl_thread_free q) (ts_world s)") (simp_all add: Cons.IH)
  qed (simp_all add: Cons.IH memcached_plugin_hooks activedirectory_plugin_hooks)
qed simp

section \<open>Connections that are stored\<close>

definition stored_at :: "'w thread_state \<Rightarrow> nat \<Rightarrow> tls_key \<Rightarrow> addr \<Rightarrow> bool" where
  "stored_at s i k a \<longleftrightarrow> i < length (specific s) \<and> k \<noteq> Current_Thread_Key \<and> pthread_getspecific i k s = Some a"

definition connections_ok :: "'w thread_state \<Rightarrow> bool" where
  "connections_ok s \<longleftrightarrow>
     (\<forall>i k a. stored_at s i k a \<longrightarrow> map_of (connections s) a = conn_kind k)
     \<and> (\<forall>i k j k' a. stored_at s i k a \<longrightarrow> stored_at s j k' a \<longrightarrow> i = j \<and> k = k')"

definition none_lost :: "'w thread_state \<Rightarrow> bool" where
  "none_lost s \<longleftrightarrow> (\<forall>a \<in> fst ` set (connections s). \<exists>i k. stored_at s i k a)"

lemma conn_kind_Some: "k \<noteq> Current_Thread_Key \<Longrightarrow> \<exists>c. conn_kind k = Some c"
  by (cases k) auto

lemma stored_at_open: "connections_ok s \<Longrightarrow> stored_at s i k a \<Longrightarrow> a \<in> fst ` set (connections s)"
  using conn_kind_Some [of k] unfolding connections_ok_def stored_at_def
  by (metis map_of_eq_None_iff option.distinct(1))

lemma stored_at_set:
  "i < length (specific s) \<Longrightarrow> stored_at (pthread_setspecific i k v s) j k' a \<longleftrightarrow>
     (if j = i \<and> k' = k then k \<noteq> Current_Thread_Key \<and> v = Some a else stored_at s j k' a)"
  by (auto simp: stored_at_def pthread_setspecific_def pthread_getspecific_def nth_list_update)

lemma stored_at_cong: "specific s' = specific s \<Longrightarrow> stored_at s' = stored_at s"
  by (simp add: fun_eq_iff stored_at_def pthread_getspecific_def)

lemma connections_cong:
  assumes "specific s' = specific s" "connections s' = connections s"
  shows "connections_ok s' = connections_ok s" "none_lost s' = none_lost s"
  using assms by (simp_all add: connections_ok_def none_lost_def stored_at_cong [OF assms(1)])

text \<open>Opening a connection: one that is lost disturbs nobody, one that is stored is new.\<close>

lemma opens_frame:
  assumes "opens cfg i k rc s s'"
  shows "points s' = points s" "messages s' = messages s" "signal_messages s' = signal_messages s"
    "in_event_loop s' = in_event_loop s" "length (specific s') = length (specific s)"
    "j \<noteq> i \<Longrightarrow> specific s' ! j = specific s ! j"
  using assms by (induction rule: opens.induct) (simp_all add: pthread_setspecific_def)

lemma opens_current:
  "opens cfg i k rc s s' \<Longrightarrow> i < length (specific s) \<Longrightarrow>
    (specific s' ! i) Current_Thread_Key = (specific s ! i) Current_Thread_Key"
  by (induction rule: opens.induct) (auto simp: pthread_setspecific_def)

lemma opens_stores:
  assumes "opens cfg i k 0 s s'" "i < length (specific s)"
  shows "(specific s' ! i) k' \<noteq> None \<longleftrightarrow> k = Some k' \<or> (specific s ! i) k' \<noteq> None"
  using assms by (cases rule: opens.cases) (auto simp: pthread_setspecific_def nth_list_update)

lemma connections_grow:
  assumes ok: "connections_ok s" and fresh: "a \<notin> fst ` set (connections s)"
  shows "connections_ok (s\<lparr>ts_world := w, connections := (a, c) # connections s\<rparr>)"
proof -
  have "map_of ((a, c) # connections s) b = map_of (connections s) b" if "stored_at s i k b" for i k b
    using stored_at_open [OF ok that] fresh by auto
  then show ?thesis using ok stored_at_cong [of "s\<lparr>ts_world := w, connections := (a, c) # connections s\<rparr>" s]
    by (simp add: connections_ok_def)
qed

lemma store_new:
  assumes "i < length (specific s)" "conn_kind key = Some c"
    and s': "s' = pthread_setspecific i key (Some a) (s\<lparr>ts_world := w, connections := (a, c) # connections s\<rparr>)"
  shows "stored_at s' j k b \<longleftrightarrow> (if j = i \<and> k = key then b = a else stored_at s j k b)"
    "connections s' = (a, c) # connections s"
proof -
  let ?s = "s\<lparr>ts_world := w, connections := (a, c) # connections s\<rparr>"
  have "key \<noteq> Current_Thread_Key" using assms(2) by auto
  then show "stored_at s' j k b \<longleftrightarrow> (if j = i \<and> k = key then b = a else stored_at s j k b)"
    using assms(1) stored_at_set [of i ?s key "Some a" j k b] stored_at_cong [of ?s s] by (auto simp: s')
  show "connections s' = (a, c) # connections s" by (simp add: s' pthread_setspecific_def)
qed

lemma opens_keeps_ok:
  assumes pick: "malloc_contract (new_connection cfg)" and ok: "connections_ok s" and i: "i < length (specific s)"
    and o: "opens cfg i k rc s s'"
  shows "connections_ok s'"
proof -
  let ?a = "new_connection cfg (connections s)"
  note fresh = malloc_fresh [OF pick, of "connections s"]
  have not_stored: "\<not> stored_at s j k' ?a" for j k' using stored_at_open [OF ok] fresh by blast
  show ?thesis
    using o
  proof (cases rule: opens.cases)
    case (nothing w)
    then show ?thesis using ok connections_cong(1) [of s' s] by simp
  next
    case (lost c w)
    then show ?thesis using connections_grow [OF ok fresh] by simp
  next
    case (stored key c w)
    note new = store_new [OF i stored(4) stored(2)]
    have "map_of (connections s') b = conn_kind k'" if "stored_at s' j k' b" for j k' b
    proof (cases "j = i \<and> k' = key")
      case False
      then have "stored_at s j k' b" using that new(1) by simp
      then show ?thesis using not_stored ok unfolding connections_ok_def new(2) by auto
    qed (use that new stored(4) in auto)
    moreover have "j = l \<and> k' = k''" if "stored_at s' j k' b" "stored_at s' l k'' b" for j k' l k'' b
    proof (cases "b = ?a")
      case False
      then have "stored_at s j k' b" "stored_at s l k'' b" using that unfolding new(1) by (auto split: if_splits)
      then show ?thesis using ok unfolding connections_ok_def by blast
    qed (use that not_stored in \<open>auto simp: new(1) split: if_splits\<close>)
    ultimately show ?thesis unfolding connections_ok_def by blast
  qed
qed

lemma opens_loses_none:
  assumes "opens_clean cfg" "none_lost s" and i: "i < length (specific s)"
    and o: "opens cfg i k rc s s'" and free: "\<And>key. k = Some key \<Longrightarrow> pthread_getspecific i key s = None"
  shows "none_lost s'"
  using o
proof (cases rule: opens.cases)
  case (nothing w)
  then show ?thesis using assms(2) connections_cong(2) [of s' s] by simp
next
  case (lost c w)
  then show ?thesis using assms(1) by simp
next
  case (stored key c w)
  note new = store_new [OF i stored(4) stored(2)]
  have "\<not> stored_at s i key b" for b using free [OF stored(3)] by (simp add: stored_at_def)
  then show ?thesis using assms(2) unfolding none_lost_def new by fastforce
qed

text \<open>Closing one.\<close>

lemma destructor_closes:
  assumes ok: "connections_ok s" and at: "stored_at s i k a"
  defines "s' \<equiv> s\<lparr>connections := AList.delete a (connections s), specific := (specific s)[i := (specific s ! i)(k := None)]\<rparr>"
  shows "destructor_step i k s = Some (Inr s')" "connections_ok s'" "none_lost s \<Longrightarrow> none_lost s'"
proof -
  have i: "i < length (specific s)" and k: "k \<noteq> Current_Thread_Key" and a: "pthread_getspecific i k s = Some a"
    using at by (simp_all add: stored_at_def)
  have kind: "map_of (connections s) a = conn_kind k" using ok at unfolding connections_ok_def by blast
  then show "destructor_step i k s = Some (Inr s')"
    using i k a by (cases k) (simp_all add: destructor_step_def memcached_tls_key_free_def ldap_key_destruct_def
        close_connection_def hp_load_def hp_free_def pthread_setspecific_def pthread_getspecific_def s'_def)
  have at': "stored_at s' j k' b \<longleftrightarrow> stored_at s j k' b \<and> (j, k') \<noteq> (i, k)" for j k' b
    using i k by (auto simp: stored_at_def s'_def pthread_getspecific_def nth_list_update)
  have other: "b \<noteq> a" if "stored_at s' j k' b" for j k' b
    using that at ok unfolding at' connections_ok_def by blast
  have heap: "connections s' = AList.delete a (connections s)" by (simp add: s'_def)
  have "map_of (connections s') b = conn_kind k'" if "stored_at s' j k' b" for j k' b
    using that other [OF that] ok unfolding at' heap connections_ok_def by (metis (no_types, lifting) map_of_delete)
  then show "connections_ok s'" using ok unfolding connections_ok_def at' by blast
  show "none_lost s'" if none: "none_lost s"
    unfolding none_lost_def
  proof
    fix b assume "b \<in> fst ` set (connections s')"
    then have b: "b \<in> fst ` set (connections s)" "b \<noteq> a" by (simp_all add: heap addresses_delete)
    then obtain j k' where "stored_at s j k' b" using none unfolding none_lost_def by blast
    moreover have "(j, k') \<noteq> (i, k)" using calculation b(2) a by (auto simp: stored_at_def)
    ultimately show "\<exists>j k'. stored_at s' j k' b" unfolding at' by blast
  qed
qed

section \<open>The invariant\<close>

text \<open>What a thread has stored, by where it is; each plugin with a connection is loaded once.\<close>

definition loaded_once :: "'w loaded list \<Rightarrow> bool" where
  "loaded_once ps \<longleftrightarrow> distinct (filter (\<lambda>p. key_of p \<noteq> None) ps)"

fun point_ok :: "'w loaded list \<Rightarrow> nat \<Rightarrow> 'w thread_point \<Rightarrow> (tls_key \<rightharpoonup> addr) \<Rightarrow> bool" where
  "point_ok ps i Created m \<longleftrightarrow> m = Map.empty"
| "point_ok ps i (Opening qs) m \<longleftrightarrow> m Current_Thread_Key = Some i \<and>
     (\<exists>opened. ps = opened @ qs \<and> (\<forall>k. k \<noteq> Current_Thread_Key \<longrightarrow> (m k \<noteq> None \<longleftrightarrow> Some k \<in> key_of ` set opened)))"
| "point_ok ps i Serving m \<longleftrightarrow> m Current_Thread_Key = Some i \<and> (\<forall>p \<in> set ps. \<forall>k. key_of p = Some k \<longrightarrow> m k \<noteq> None)"
| "point_ok ps i Gone m \<longleftrightarrow> m Current_Thread_Key = Some i \<and> (\<forall>k. k \<noteq> Current_Thread_Key \<longrightarrow> m k = None)"
| "point_ok ps i _ m \<longleftrightarrow> m Current_Thread_Key = Some i"

fun has_sent :: "'w thread_point \<Rightarrow> bool" where
  "has_sent Freeing \<longleftrightarrow> True"
| "has_sent Exiting \<longleftrightarrow> True"
| "has_sent Gone \<longleftrightarrow> True"
| "has_sent _ \<longleftrightarrow> False"

definition message_from :: "nat \<Rightarrow> thread_msg" where
  "message_from i = \<lparr>msg_thread = Some i, msg_signal = WORKER_TERMINATE\<rparr>"

definition messages_fit :: "'w thread_point list \<Rightarrow> thread_msg heap \<Rightarrow> addr list \<Rightarrow> bool" where
  "messages_fit ps h q \<longleftrightarrow>
     distinct q \<and>
     (\<forall>m \<in> set q. \<exists>i < length ps. has_sent (ps ! i) \<and> map_of h m = Some (message_from i)) \<and>
     (\<forall>i < length ps. \<forall>m. ps ! i = Reported m \<longrightarrow> map_of h m = Some (message_from i)) \<and>
     (\<forall>m \<in> fst ` set h. m \<in> set q \<or> (\<exists>i < length ps. ps ! i = Reported m))"

definition threads_ok :: "('w, 's, 'r, 'e, 'a) setting \<Rightarrow> ('w \<Rightarrow> bool) \<Rightarrow> nat \<Rightarrow> 'w thread_state \<Rightarrow> bool" where
  "threads_ok cfg wok n s \<longleftrightarrow>
     wok (ts_world s) \<and> length (specific s) = n \<and> length (points s) = n
     \<and> connections_ok s \<and> (opens_clean cfg \<longrightarrow> none_lost s)
     \<and> (\<forall>i < n. point_ok (loaded_plugins cfg) i (points s ! i) (specific s ! i))
     \<and> messages_fit (points s) (messages s) (signal_messages s)"

lemma threads_ok_init: "wok w \<Longrightarrow> threads_ok cfg wok n (threads_init n w)"
  by (auto simp: threads_ok_def threads_init_def connections_ok_def none_lost_def messages_fit_def stored_at_def
      pthread_getspecific_def)

lemma key_of_inject: "key_of p = Some k \<Longrightarrow> key_of q = Some k \<Longrightarrow> q = p"
  by (cases p; cases q) auto

text \<open>The next plugin of a thread that opens its connections has none stored yet.\<close>

lemma opening_next_free:
  assumes "loaded_once ps" "point_ok ps i (Opening (p # qs)) m" "key_of p = Some k"
  shows "m k = None"
proof -
  obtain opened where d: "ps = opened @ p # qs" "\<forall>k. k \<noteq> Current_Thread_Key \<longrightarrow> (m k \<noteq> None \<longleftrightarrow> Some k \<in> key_of ` set opened)"
    using assms(2) by auto
  have k: "k \<noteq> Current_Thread_Key" using assms(3) by (cases p) auto
  have "Some k \<notin> key_of ` set opened"
  proof
    assume "Some k \<in> key_of ` set opened"
    then obtain q where q: "q \<in> set opened" "key_of q = Some k" by auto
    then have "p \<in> set opened" using key_of_inject [OF assms(3) q(2)] by simp
    then show False using assms(1,3) d(1) by (simp add: loaded_once_def)
  qed
  with d(2) k show ?thesis by auto
qed

lemma opening_next:
  assumes "point_ok ps i (Opening (p # qs)) m" "m' Current_Thread_Key = m Current_Thread_Key"
    and "\<And>k. m' k \<noteq> None \<longleftrightarrow> key_of p = Some k \<or> m k \<noteq> None"
  shows "point_ok ps i (Opening qs) m'"
proof -
  obtain opened where d: "ps = opened @ p # qs" "\<forall>k. k \<noteq> Current_Thread_Key \<longrightarrow> (m k \<noteq> None \<longleftrightarrow> Some k \<in> key_of ` set opened)"
    "m Current_Thread_Key = Some i"
    using assms(1) by auto
  then have "ps = (opened @ [p]) @ qs" "\<forall>k. k \<noteq> Current_Thread_Key \<longrightarrow> (m' k \<noteq> None \<longleftrightarrow> Some k \<in> key_of ` set (opened @ [p]))"
    using assms(3) by auto
  then show ?thesis using d(3) assms(2) unfolding point_ok.simps by metis
qed

lemma opening_done: "point_ok ps i (Opening []) m \<Longrightarrow> point_ok ps i Serving m"
  by (auto simp: rev_image_eqI split: if_splits) (metis imageI key_of.elims option.distinct(1) option.inject tls_key.distinct)

text \<open>A thread that moves on without touching the messages.\<close>

fun reported :: "'w thread_point \<Rightarrow> addr option" where
  "reported (Reported m) = Some m"
| "reported _ = None"

lemma messages_fit_move:
  assumes "messages_fit ps h q" "i < length ps" "reported (ps ! i) = None" "reported x = None"
    "has_sent (ps ! i) \<Longrightarrow> has_sent x"
  shows "messages_fit (ps[i := x]) h q"
  unfolding messages_fit_def
proof (intro conjI ballI allI impI)
  show "distinct q" using assms(1) by (simp add: messages_fit_def)
next
  fix m assume "m \<in> set q"
  then obtain j where "j < length ps" "has_sent (ps ! j)" "map_of h m = Some (message_from j)"
    using assms(1) unfolding messages_fit_def by blast
  then show "\<exists>j < length (ps[i := x]). has_sent (ps[i := x] ! j) \<and> map_of h m = Some (message_from j)"
    using assms(2,5) by (intro exI [of _ j], cases "j = i") auto
next
  fix j m assume j: "j < length (ps[i := x])" "ps[i := x] ! j = Reported m"
  then have "j \<noteq> i" using assms(2,4) by auto
  then show "map_of h m = Some (message_from j)" using j assms(1) unfolding messages_fit_def by simp
next
  fix m assume "m \<in> fst ` set h"
  then have "m \<in> set q \<or> (\<exists>j < length ps. ps ! j = Reported m)" using assms(1) unfolding messages_fit_def by blast
  then show "m \<in> set q \<or> (\<exists>j < length (ps[i := x]). ps[i := x] ! j = Reported m)"
    using assms(3) by (metis length_list_update nth_list_update_neq option.distinct(1) reported.simps(1))
qed

lemma messages_fitE:
  assumes "messages_fit ps h q"
  obtains "distinct q" "\<And>m. m \<in> set q \<Longrightarrow> \<exists>i < length ps. has_sent (ps ! i) \<and> map_of h m = Some (message_from i)"
    "\<And>i m. i < length ps \<Longrightarrow> ps ! i = Reported m \<Longrightarrow> map_of h m = Some (message_from i)"
    "\<And>m. m \<in> fst ` set h \<Longrightarrow> m \<in> set q \<or> (\<exists>i < length ps. ps ! i = Reported m)"
  using assms unfolding messages_fit_def by blast

lemma message_from_inject [simp]: "message_from i = message_from j \<longleftrightarrow> i = j"
  by (simp add: message_from_def)

text \<open>A message is allocated, sent, and received.\<close>

lemma messages_fit_report:
  assumes "messages_fit ps h q" "i < length ps" "reported (ps ! i) = None" "\<not> has_sent (ps ! i)" "m \<notin> fst ` set h"
  shows "messages_fit (ps[i := Reported m]) ((m, message_from i) # h) q"
proof -
  from assms(1) have fit: "distinct q" "\<And>m. m \<in> set q \<Longrightarrow> \<exists>i < length ps. has_sent (ps ! i) \<and> map_of h m = Some (message_from i)"
    "\<And>i m. i < length ps \<Longrightarrow> ps ! i = Reported m \<Longrightarrow> map_of h m = Some (message_from i)"
    "\<And>m. m \<in> fst ` set h \<Longrightarrow> m \<in> set q \<or> (\<exists>i < length ps. ps ! i = Reported m)"
    by (rule messages_fitE, blast)+
  let ?ps = "ps[i := Reported m]" and ?h = "(m, message_from i) # h"
  have new: "map_of h m = None" using assms(5) by (simp add: map_of_eq_None_iff)
  have "\<exists>j < length ?ps. has_sent (?ps ! j) \<and> map_of ?h k = Some (message_from j)" if k: "k \<in> set q" for k
  proof -
    obtain j where j: "j < length ps" "has_sent (ps ! j)" "map_of h k = Some (message_from j)" using fit(2) [OF k] by blast
    moreover have "j \<noteq> i" "k \<noteq> m" using j(2,3) assms(4) new by auto
    ultimately show ?thesis by auto
  qed
  moreover have "map_of ?h k = Some (message_from j)" if "j < length ?ps" "?ps ! j = Reported k" for j k
    using that fit(3) [of j k] new assms(2) by (cases "j = i") auto
  moreover have "k \<in> set q \<or> (\<exists>j < length ?ps. ?ps ! j = Reported k)" if "k \<in> fst ` set ?h" for k
  proof (cases "k = m")
    case False
    then have "k \<in> set q \<or> (\<exists>j < length ps. ps ! j = Reported k)" using that fit(4) by auto
    moreover have "ps ! i \<noteq> Reported k" using assms(3) by auto
    ultimately show ?thesis by (metis length_list_update nth_list_update_neq)
  qed (use assms(2) in auto)
  ultimately show ?thesis using fit(1) unfolding messages_fit_def by blast
qed

lemma messages_fit_send:
  assumes "messages_fit ps h q" "i < length ps" "ps ! i = Reported m"
  shows "messages_fit (ps[i := Freeing]) h (q @ [m])"
proof -
  from assms(1) have fit: "distinct q" "\<And>m. m \<in> set q \<Longrightarrow> \<exists>i < length ps. has_sent (ps ! i) \<and> map_of h m = Some (message_from i)"
    "\<And>i m. i < length ps \<Longrightarrow> ps ! i = Reported m \<Longrightarrow> map_of h m = Some (message_from i)"
    "\<And>m. m \<in> fst ` set h \<Longrightarrow> m \<in> set q \<or> (\<exists>i < length ps. ps ! i = Reported m)"
    by (rule messages_fitE, blast)+
  let ?ps = "ps[i := Freeing]"
  have mine: "map_of h m = Some (message_from i)" by (rule fit(3) [OF assms(2,3)])
  have "m \<notin> set q" using fit(2) [of m] mine assms(3) by auto
  moreover have "\<exists>j < length ?ps. has_sent (?ps ! j) \<and> map_of h k = Some (message_from j)" if k: "k \<in> set (q @ [m])" for k
  proof (cases "k = m")
    case True
    then show ?thesis using mine assms(2) by (intro exI [of _ i]) simp
  next
    case False
    then obtain j where j: "j < length ps" "has_sent (ps ! j)" "map_of h k = Some (message_from j)" using fit(2) k by auto
    moreover have "j \<noteq> i" using j(2) assms(3) by auto
    ultimately show ?thesis by auto
  qed
  moreover have "map_of h k = Some (message_from j)" if "j < length ?ps" "?ps ! j = Reported k" for j k
    using that fit(3) [of j k] assms(2) by (cases "j = i") auto
  moreover have "k \<in> set (q @ [m]) \<or> (\<exists>j < length ?ps. ?ps ! j = Reported k)" if "k \<in> fst ` set h" for k
  proof (cases "k = m")
    case False
    then have "ps ! i \<noteq> Reported k" using assms(3) by simp
    then show ?thesis using fit(4) [OF that] by (metis Un_iff length_list_update nth_list_update_neq set_append)
  qed simp
  ultimately show ?thesis using fit(1) unfolding messages_fit_def by simp
qed

lemma messages_fit_receive:
  assumes "messages_fit ps h (m # q)"
  shows "\<exists>i < length ps. map_of h m = Some (message_from i)" "messages_fit ps (AList.delete m h) q"
proof -
  from assms have fit: "distinct (m # q)" "\<And>k. k \<in> set (m # q) \<Longrightarrow> \<exists>i < length ps. has_sent (ps ! i) \<and> map_of h k = Some (message_from i)"
    "\<And>i k. i < length ps \<Longrightarrow> ps ! i = Reported k \<Longrightarrow> map_of h k = Some (message_from i)"
    "\<And>k. k \<in> fst ` set h \<Longrightarrow> k \<in> set (m # q) \<or> (\<exists>i < length ps. ps ! i = Reported k)"
    by (rule messages_fitE, blast)+
  obtain i where i: "i < length ps" "has_sent (ps ! i)" "map_of h m = Some (message_from i)" using fit(2) [of m] by auto
  then show "\<exists>i < length ps. map_of h m = Some (message_from i)" by blast
  have "map_of (AList.delete m h) k = Some (message_from j)" if "j < length ps" "ps ! j = Reported k" for j k
  proof -
    have k: "map_of h k = Some (message_from j)" by (rule fit(3) [OF that])
    then have "k \<noteq> m" using i that(2) by auto
    with k show ?thesis by simp
  qed
  moreover have "\<exists>j < length ps. has_sent (ps ! j) \<and> map_of (AList.delete m h) k = Some (message_from j)" if "k \<in> set q" for k
    using that fit(1) fit(2) [of k] by (metis distinct.simps(2) list.set_intros(2) map_of_delete)
  moreover have "k \<in> set q \<or> (\<exists>j < length ps. ps ! j = Reported k)" if "k \<in> fst ` set (AList.delete m h)" for k
    using that fit(4) [of k] by (auto simp: addresses_delete)
  ultimately show "messages_fit ps (AList.delete m h) q" using fit(1) unfolding messages_fit_def by simp
qed

section \<open>Every step keeps the invariant\<close>

lemma at_point_same: "points s ! i = x \<Longrightarrow> at_point i x s = s"
  by (auto simp: at_point_def)

lemma at_point_simps [simp]:
  "points (at_point i x s) = (points s)[i := x]" "specific (at_point i x s) = specific s"
  "connections (at_point i x s) = connections s" "messages (at_point i x s) = messages s"
  "signal_messages (at_point i x s) = signal_messages s" "ts_world (at_point i x s) = ts_world s"
  by (simp_all add: at_point_def)

lemma threads_ok_thread:
  assumes ok: "threads_ok cfg wok n s" and i: "i < n"
    and move: "reported (points s ! i) = None" "reported x = None" "has_sent (points s ! i) \<Longrightarrow> has_sent x"
    and t: "wok (ts_world t)" "points t = points s" "messages t = messages s" "signal_messages t = signal_messages s"
      "length (specific t) = n" "\<And>j. j \<noteq> i \<Longrightarrow> specific t ! j = specific s ! j"
      "connections_ok t" "opens_clean cfg \<Longrightarrow> none_lost t"
    and point: "point_ok (loaded_plugins cfg) i x (specific t ! i)"
  shows "threads_ok cfg wok n (at_point i x t)"
proof -
  have "point_ok (loaded_plugins cfg) j ((points s)[i := x] ! j) (specific t ! j)" if "j < n" for j
    using that ok point t(6) by (cases "j = i") (simp_all add: threads_ok_def)
  moreover have "messages_fit ((points s)[i := x]) (messages s) (signal_messages s)"
    using ok i move by (intro messages_fit_move) (simp_all add: threads_ok_def)
  moreover have "length (points s) = n" using ok by (simp add: threads_ok_def)
  moreover note connections_cong [of "at_point i x t" t]
  ultimately show ?thesis using t by (simp add: threads_ok_def)
qed

lemma threads_ok_step:
  assumes "threads_ok cfg wok n s" "i < n" "reported (points s ! i) = None" "reported x = None"
    "has_sent (points s ! i) \<Longrightarrow> has_sent x" "point_ok (loaded_plugins cfg) i x (specific s ! i)"
  shows "threads_ok cfg wok n (at_point i x s)"
  by (rule threads_ok_thread [OF assms(1-5)]) (use assms(1,6) in \<open>simp_all add: threads_ok_def\<close>)

lemma threads_ok_world:
  assumes "threads_ok cfg wok n s" "wok w"
  shows "threads_ok cfg wok n (s\<lparr>ts_world := w\<rparr>)"
  using assms connections_cong [of "s\<lparr>ts_world := w\<rparr>" s] by (simp add: threads_ok_def)

lemma threads_okD:
  assumes "threads_ok cfg wok n s"
  shows "wok (ts_world s)" "length (specific s) = n" "length (points s) = n" "connections_ok s"
    "opens_clean cfg \<Longrightarrow> none_lost s" "i < n \<Longrightarrow> point_ok (loaded_plugins cfg) i (points s ! i) (specific s ! i)"
    "messages_fit (points s) (messages s) (signal_messages s)"
  using assms by (simp_all add: threads_ok_def)

lemma begin_keeps:
  assumes ok: "threads_ok cfg wok n s" and i: "i < n" "points s ! i = Created"
  shows "threads_ok cfg wok n (begin_step cfg i s)"
proof -
  let ?t = "pthread_setspecific i Current_Thread_Key (Some i) s"
  note s = threads_okD [OF ok]
  have empty: "specific s ! i = Map.empty" using s(6) [OF i(1)] i(2) by simp
  have i': "i < length (specific s)" using s(2) i(1) by simp
  have "stored_at ?t = stored_at s" using stored_at_set [OF i', of Current_Thread_Key "Some i"]
    by (auto simp: fun_eq_iff stored_at_def)
  moreover have "connections ?t = connections s" by (simp add: pthread_setspecific_def)
  ultimately have t: "connections_ok ?t = connections_ok s" "none_lost ?t = none_lost s"
    by (simp_all add: connections_ok_def none_lost_def)
  have point: "point_ok (loaded_plugins cfg) i (Opening (loaded_plugins cfg)) (specific ?t ! i)"
    using empty i' by (simp add: pthread_setspecific_def)
  show ?thesis unfolding begin_step_def
    by (rule threads_ok_thread [OF ok i(1) _ _ _ _ _ _ _ _ _ _ _ point])
      (use i s t in \<open>simp_all add: pthread_setspecific_def\<close>)
qed

text \<open>The hooks do what the plugins' own hooks do, which keep the worker's contract.\<close>

lemma hook_results:
  assumes chain: "plugin_chain wok (map (plugin_of cfg w0) (loaded_plugins cfg))" and p: "p \<in> set (loaded_plugins cfg)"
    and w: "wok (ts_world s)"
  shows "\<exists>rc s'. open_hook cfg i p s = Inr (rc, s') \<and> wok (ts_world s')"
    and "request_wf req a \<Longrightarrow> (\<And>k c. key_of p = Some k \<Longrightarrow> conn_kind k = Some c \<Longrightarrow> use_connection c k i s = Inr ()) \<Longrightarrow>
      \<exists>st req' w'. handle_hook cfg i p req s = Inr (st, req', s\<lparr>ts_world := w'\<rparr>) \<and> wok w'"
    and "request_wf req a \<Longrightarrow> (\<And>k c. key_of p = Some k \<Longrightarrow> conn_kind k = Some c \<Longrightarrow> use_connection c k i s = Inr ()) \<Longrightarrow>
      \<exists>st req' w'. post_hook cfg i p req s = Inr (st, req', s\<lparr>ts_world := w'\<rparr>) \<and> wok w'"
    and "\<exists>w'. free_hooks (loaded_plugins cfg) s = Inr (s\<lparr>ts_world := w'\<rparr>) \<and> wok w'"
proof -
  let ?p = "plugin_of cfg w0 p"
  have ok: "plugin_ok wok ?p" using plugin_chain.plugins_ok [OF chain] p by simp
  obtain rc w' where h: "(case pl_thread_init ?p of None \<Rightarrow> Inr (0, ts_world s) | Some h \<Rightarrow> h (ts_world s)) = Inr (rc, w')" "wok w'"
    using ok w unfolding plugin_ok_def by (cases "pl_thread_init ?p") auto
  then have "c_bind (open_hook cfg i p s) (\<lambda>(rc, s). Inr (rc, ts_world s)) = Inr (rc, w')"
    using open_hook_agrees [where cfg = cfg and ?w0.0 = w0 and p = p and s = s and i = i] by (simp add: agree_def)
  then show "\<exists>rc s'. open_hook cfg i p s = Inr (rc, s') \<and> wok (ts_world s')"
    using h(2) by (cases "open_hook cfg i p s") auto
  show "\<exists>st req' w'. handle_hook cfg i p req s = Inr (st, req', s\<lparr>ts_world := w'\<rparr>) \<and> wok w'"
    if "request_wf req a" "\<And>k c. key_of p = Some k \<Longrightarrow> conn_kind k = Some c \<Longrightarrow> use_connection c k i s = Inr ()"
  proof -
    have "\<exists>st req' w'. (case pl_handle_request ?p of None \<Rightarrow> Inr (HANDLER_GO_ON, req, ts_world s) | Some h \<Rightarrow> h req (ts_world s))
        = Inr (st, req', w') \<and> wok w'"
      using ok w that(1) unfolding plugin_ok_def hook_ok_def by (cases "pl_handle_request ?p") (auto, blast)
    moreover have "handle_hook cfg i p req s = in_world s
        (case pl_handle_request ?p of None \<Rightarrow> Inr (HANDLER_GO_ON, req, ts_world s) | Some h \<Rightarrow> h req (ts_world s))"
      by (rule handle_hook_agrees(1) [OF that(2)])
    ultimately show ?thesis by (auto simp: in_world_def)
  qed
  show "\<exists>st req' w'. post_hook cfg i p req s = Inr (st, req', s\<lparr>ts_world := w'\<rparr>) \<and> wok w'"
    if "request_wf req a" "\<And>k c. key_of p = Some k \<Longrightarrow> conn_kind k = Some c \<Longrightarrow> use_connection c k i s = Inr ()"
  proof -
    have "\<exists>st req' w'. (case pl_post_handle_request ?p of None \<Rightarrow> Inr (HANDLER_GO_ON, req, ts_world s) | Some h \<Rightarrow> h req (ts_world s))
        = Inr (st, req', w') \<and> wok w'"
      using ok w that(1) unfolding plugin_ok_def hook_ok_def by (cases "pl_post_handle_request ?p") (auto, blast)
    moreover have "post_hook cfg i p req s = in_world s
        (case pl_post_handle_request ?p of None \<Rightarrow> Inr (HANDLER_GO_ON, req, ts_world s) | Some h \<Rightarrow> h req (ts_world s))"
      by (rule handle_hook_agrees(2) [OF that(2)])
    ultimately show ?thesis by (auto simp: in_world_def)
  qed
  obtain w' where "run_thread_free (map (plugin_of cfg w0) (loaded_plugins cfg)) (ts_world s) = Inr w'" "wok w'"
    using plugin_chain.thread_free_ok [OF chain subset_refl w] by blast
  then show "\<exists>w'. free_hooks (loaded_plugins cfg) s = Inr (s\<lparr>ts_world := w'\<rparr>) \<and> wok w'"
    by (auto simp: free_hooks_agree [of _ s cfg w0])
qed

lemma opening_keeps:
  assumes ok: "threads_ok cfg wok n s" and i: "i < n" "points s ! i = Opening ps"
    and pick: "malloc_contract (new_connection cfg)" and once: "loaded_once (loaded_plugins cfg)"
    and chain: "plugin_chain wok (map (plugin_of cfg w0) (loaded_plugins cfg))"
  shows "\<exists>s'. opening_step cfg i ps s = Inr s' \<and> threads_ok cfg wok n s'"
proof (cases ps)
  case Nil
  have "point_ok (loaded_plugins cfg) i Serving (specific s ! i)"
    by (rule opening_done) (use threads_okD(6) [OF ok i(1)] i(2) Nil in simp)
  then have "threads_ok cfg wok n (at_point i Serving s)"
    by (intro threads_ok_step [OF ok i(1)]) (simp_all add: i(2))
  then show ?thesis by (simp add: Nil)
next
  case (Cons p qs)
  note s = threads_okD [OF ok]
  have at: "point_ok (loaded_plugins cfg) i (Opening (p # qs)) (specific s ! i)" using s(6) [OF i(1)] i(2) Cons by simp
  then have "p \<in> set (loaded_plugins cfg)" by auto
  then obtain rc t where o: "open_hook cfg i p s = Inr (rc, t)" "wok (ts_world t)"
    using hook_results(1) [OF chain _ s(1)] by blast
  note opens = open_hook_opens [OF o(1)]
  have i': "i < length (specific s)" using s(2) i(1) by simp
  have free: "pthread_getspecific i key s = None" if "key_of p = Some key" for key
    using opening_next_free [OF once at that] by (simp add: pthread_getspecific_def)
  let ?x = "if rc \<noteq> 0 then Reporting else Opening qs"
  have point: "point_ok (loaded_plugins cfg) i ?x (specific t ! i)"
  proof (cases "rc = 0")
    case True
    with opening_next [OF at] opens_current [OF opens i'] opens_stores [of cfg i "key_of p" s t] opens i' show ?thesis by simp
  next
    case False
    then show ?thesis using at opens_current [OF opens i'] by simp
  qed
  have "threads_ok cfg wok n (at_point i ?x t)"
    by (rule threads_ok_thread [OF ok i(1) _ _ _ o(2) _ _ _ _ _ _ _ point])
      (use i(2) s(2,5) opens_frame [OF opens] opens_keeps_ok [OF pick s(4) i' opens]
        opens_loses_none [OF _ _ i' opens free] in auto)
  with o(1) Cons show ?thesis by simp
qed

lemma serving_use:
  assumes ok: "threads_ok cfg wok n s" and i: "i < n" "points s ! i = Serving"
    and p: "p \<in> set (loaded_plugins cfg)" "key_of p = Some k" "conn_kind k = Some c"
  shows "use_connection c k i s = Inr ()"
proof -
  note s = threads_okD [OF ok]
  obtain a where a: "(specific s ! i) k = Some a" using s(6) [OF i(1)] i(2) p(1,2) by auto
  then have "stored_at s i k a" using i(1) s(2) p(3) by (auto simp: stored_at_def pthread_getspecific_def)
  then have "map_of (connections s) a = Some c" using s(4) p(3) unfolding connections_ok_def by auto
  with a show ?thesis by (intro use_connection_ok) (simp_all add: pthread_getspecific_def)
qed

lemma report_keeps:
  assumes ok: "threads_ok cfg wok n s" and i: "i < n" "points s ! i = Reporting" and pick: "malloc_contract (new_message cfg)"
  shows "threads_ok cfg wok n (report_step cfg i s)"
proof -
  let ?m = "new_message cfg (messages s)" and ?s' = "report_step cfg i s"
  note s = threads_okD [OF ok]
  have s': "points ?s' = (points s)[i := Reported ?m]" "messages ?s' = (?m, message_from i) # messages s"
    "specific ?s' = specific s" "connections ?s' = connections s" "ts_world ?s' = ts_world s" "signal_messages ?s' = signal_messages s"
    by (simp_all add: report_step_def hp_malloc_def message_from_def)
  have "messages_fit (points ?s') (messages ?s') (signal_messages s)"
    unfolding s' by (rule messages_fit_report) (use s i malloc_fresh [OF pick] in simp_all)
  moreover have "point_ok (loaded_plugins cfg) j (points ?s' ! j) (specific s ! j)" if "j < n" for j
    using s(6) [OF that] s(6) [OF i(1)] i(2) s(3) that unfolding s' by (cases "j = i") simp_all
  ultimately show ?thesis using s connections_cong [OF s'(3,4)] by (simp add: threads_ok_def s')
qed

lemma send_keeps:
  assumes ok: "threads_ok cfg wok n s" and i: "i < n" "points s ! i = Reported m" and step: "send_step i m s = Some s'"
  shows "threads_ok cfg wok n s'"
proof -
  note s = threads_okD [OF ok]
  have s': "s' = at_point i Freeing (s\<lparr>signal_messages := signal_messages s @ [m]\<rparr>)"
    using step by (simp add: send_step_def split: if_splits)
  have "messages_fit (points s') (messages s') (signal_messages s')"
    unfolding s' at_point_simps by (simp, rule messages_fit_send) (use s i in simp_all)
  moreover have "point_ok (loaded_plugins cfg) j (points s' ! j) (specific s ! j)" if "j < n" for j
    using s(6) [OF that] s(6) [OF i(1)] i(2) s(3) that unfolding s' by (cases "j = i") simp_all
  ultimately show ?thesis using s connections_cong [of s' s] by (simp add: threads_ok_def s')
qed

lemma exit_keeps:
  assumes ok: "threads_ok cfg wok n s" and i: "i < n" "points s ! i = Exiting" and step: "exit_step i s = Some s'"
  shows "threads_ok cfg wok n s'"
proof -
  have none: "(specific s ! i) k = None" if "k \<noteq> Current_Thread_Key" for k
    using step that by (cases k) (simp_all add: exit_step_def pthread_getspecific_def split: if_splits)
  have "s' = at_point i Gone s" using step by (simp add: exit_step_def split: if_splits)
  then show ?thesis
    using threads_ok_step [OF ok i(1), of Gone] threads_okD(6) [OF ok i(1)] i(2) none by simp
qed

lemma destruct_keeps:
  assumes ok: "threads_ok cfg wok n s" and i: "i < n" "points s ! i = Exiting" and step: "destructor_step i k s = Some r"
  shows "\<exists>s'. r = Inr s' \<and> threads_ok cfg wok n s' \<and> points s' = points s \<and> specific s' ! i = (specific s ! i)(k := None)"
proof -
  note s = threads_okD [OF ok]
  obtain a where at: "stored_at s i k a"
    using step i(1) s(2) by (cases k) (auto simp: destructor_step_def stored_at_def split: option.splits)
  note closes = destructor_closes [OF s(4) at]
  have cur: "(specific s ! i) Current_Thread_Key = Some i" "k \<noteq> Current_Thread_Key"
    using s(6) [OF i(1)] i(2) at by (simp_all add: stored_at_def)
  let ?s = "s\<lparr>connections := AList.delete a (connections s), specific := (specific s)[i := (specific s ! i)(k := None)]\<rparr>"
  have "threads_ok cfg wok n (at_point i Exiting ?s)"
    by (rule threads_ok_thread [OF ok i(1)]) (use i s cur closes(2,3) in simp_all)
  moreover have "at_point i Exiting ?s = ?s" by (rule at_point_same) (simp add: i(2))
  ultimately show ?thesis using step closes(1) i(1) s(2) by auto
qed

lemma callback_keeps:
  assumes ok: "threads_ok cfg wok n s" and step: "thread_sig_cb s = Some r"
  shows "\<exists>s'. r = Inr s' \<and> threads_ok cfg wok n s'"
proof -
  note s = threads_okD [OF ok]
  obtain m q where q: "signal_messages s = m # q" using step by (auto simp: thread_sig_cb_def split: if_splits list.splits)
  note fit = messages_fit_receive [OF s(7) [unfolded q]]
  let ?s = "s\<lparr>messages := AList.delete m (messages s), signal_messages := q\<rparr>"
  have "r = Inr ?s" using step fit(1) q
    by (auto simp: thread_sig_cb_def hp_load_def hp_free_def message_from_def split: if_splits)
  moreover have "threads_ok cfg wok n ?s"
    using s fit(2) connections_cong [of ?s s] by (simp add: threads_ok_def)
  ultimately show ?thesis by simp
qed

lemma thread_step_keeps:
  assumes ok: "threads_ok cfg wok n s" and i: "i < n"
    and pick: "malloc_contract (new_connection cfg)" "malloc_contract (new_message cfg)" and once: "loaded_once (loaded_plugins cfg)"
    and chain: "plugin_chain wok (map (plugin_of cfg w0) (loaded_plugins cfg))" and step: "thread_step_at cfg i s = Some r"
  shows "\<exists>s'. r = Inr s' \<and> threads_ok cfg wok n s'"
proof (cases "points s ! i")
  case Created
  with begin_keeps [OF ok i] step show ?thesis by (auto simp: thread_step_at_def)
next
  case (Opening ps)
  with opening_keeps [OF ok i _ pick(1) once chain] step show ?thesis by (auto simp: thread_step_at_def)
next
  case Reporting
  with report_keeps [OF ok i _ pick(2)] step show ?thesis by (auto simp: thread_step_at_def)
next
  case (Reported m)
  with send_keeps [OF ok i] step show ?thesis by (auto simp: thread_step_at_def)
next
  case Freeing
  note s = threads_okD [OF ok]
  obtain w where w: "free_hooks (loaded_plugins cfg) s = Inr (s\<lparr>ts_world := w\<rparr>)" "wok w"
    using plugin_chain.thread_free_ok [OF chain subset_refl s(1)] by (auto simp: free_hooks_agree [of _ s cfg w0])
  have "threads_ok cfg wok n (at_point i Exiting (s\<lparr>ts_world := w\<rparr>))"
    by (rule threads_ok_step [OF threads_ok_world [OF ok w(2)] i]) (use Freeing s(6) [OF i] in simp_all)
  then show ?thesis using step Freeing w(1) by (auto simp: thread_step_at_def)
next
  case Exiting
  with exit_keeps [OF ok i] step show ?thesis by (auto simp: thread_step_at_def)
qed (use step in \<open>simp_all add: thread_step_at_def\<close>)

lemma threads_step_keeps:
  assumes ok: "threads_ok cfg wok n s"
    and pick: "malloc_contract (new_connection cfg)" "malloc_contract (new_message cfg)" and once: "loaded_once (loaded_plugins cfg)"
    and chain: "plugin_chain wok (map (plugin_of cfg w0) (loaded_plugins cfg))"
    and a: "actor_wf a" and step: "threads_step cfg a s = Some r"
  shows "\<exists>s'. r = Inr s' \<and> threads_ok cfg wok n s'"
proof (cases a)
  case (Runs i)
  then have "i < n" "thread_step_at cfg i s = Some r"
    using step threads_okD(3) [OF ok] by (simp_all add: threads_step_def split: if_splits)
  then show ?thesis using thread_step_keeps [OF ok _ pick once chain] by blast
next
  case (Handles i p req)
  then have i: "i < n" "points s ! i = Serving" "p \<in> set (loaded_plugins cfg)"
    and r: "r = c_bind (handle_hook cfg i p req s) (\<lambda>(status, req, s). Inr s)"
    using step threads_okD(3) [OF ok] by (auto simp: threads_step_def split: if_splits)
  obtain x where "request_wf req x" using a Handles by auto
  from hook_results(2) [OF chain i(3) threads_okD(1) [OF ok] this serving_use [OF ok i]] r threads_ok_world [OF ok]
  show ?thesis by auto
next
  case (Posts i p req)
  then have i: "i < n" "points s ! i = Serving" "p \<in> set (loaded_plugins cfg)"
    and r: "r = c_bind (post_hook cfg i p req s) (\<lambda>(status, req, s). Inr s)"
    using step threads_okD(3) [OF ok] by (auto simp: threads_step_def split: if_splits)
  obtain x where "request_wf req x" using a Posts by auto
  from hook_results(3) [OF chain i(3) threads_okD(1) [OF ok] this serving_use [OF ok i]] r threads_ok_world [OF ok]
  show ?thesis by auto
next
  case (Quits i)
  then have i: "i < n" "points s ! i = Serving" and r: "r = Inr (at_point i Reporting s)"
    using step threads_okD(3) [OF ok] by (auto simp: threads_step_def split: if_splits)
  then show ?thesis using threads_ok_step [OF ok i(1), of Reporting] threads_okD(6) [OF ok i(1)] by simp
next
  case (Destructs i k)
  then have i: "i < n" "points s ! i = Exiting" and r: "destructor_step i k s = Some r"
    using step threads_okD(3) [OF ok] by (auto simp: threads_step_def split: if_splits)
  then show ?thesis using destruct_keeps [OF ok i r] by blast
next
  case Calls_Back
  then show ?thesis using callback_keeps [OF ok] step by (simp add: threads_step_def)
next
  case Leaves_Loop
  then have r: "r = Inr (s\<lparr>in_event_loop := False\<rparr>)" using step by (simp add: threads_step_def split: if_splits)
  have "threads_ok cfg wok n (s\<lparr>in_event_loop := False\<rparr>)"
    using ok connections_cong [of "s\<lparr>in_event_loop := False\<rparr>" s] by (simp add: threads_ok_def)
  with r show ?thesis by simp
qed

lemma threads_ok_reachable:
  assumes "(threads_next cfg)\<^sup>*\<^sup>* (threads_init n w) s" "wok w"
    and "malloc_contract (new_connection cfg)" "malloc_contract (new_message cfg)" "loaded_once (loaded_plugins cfg)"
    and "plugin_chain wok (map (plugin_of cfg w0) (loaded_plugins cfg))"
  shows "threads_ok cfg wok n s"
  using assms(1)
proof (induction rule: rtranclp_induct)
  case base
  show ?case by (rule threads_ok_init) (rule assms(2))
next
  case (step s t)
  from step.hyps(2) obtain a where "actor_wf a" "threads_step cfg a s = Some (Inr t)" by (rule threads_nextE)
  with threads_step_keeps [OF step.IH assms(3-6)] show ?case by blast
qed

text \<open>A thread in \<open>pthread_exit\<close> gets to its end.\<close>

lemma destructor_runs:
  assumes ok: "threads_ok cfg wok n s" and i: "i < n" "points s ! i = Exiting" and k: "key_destructor k \<noteq> (None :: (nat \<Rightarrow> addr option \<Rightarrow> 'w thread_state \<Rightarrow> _) option)"
  shows "\<exists>t. (threads_next cfg)\<^sup>*\<^sup>* s t \<and> threads_ok cfg wok n t \<and> points t = points s
    \<and> (specific t ! i) k = None \<and> (\<forall>k'. (specific s ! i) k' = None \<longrightarrow> (specific t ! i) k' = None)"
proof (cases "(specific s ! i) k")
  case None
  then show ?thesis using ok by blast
next
  case (Some a)
  then obtain r where r: "destructor_step i k s = Some r" using k by (cases k) (auto simp: destructor_step_def pthread_getspecific_def)
  with destruct_keeps [OF ok i] obtain t where t: "r = Inr t" "threads_ok cfg wok n t" "points t = points s"
    "specific t ! i = (specific s ! i)(k := None)" by blast
  have "threads_next cfg s t"
    by (rule threads_next.intros [of "Destructs i k"]) (use r t(1) i threads_okD(3) [OF ok] in \<open>simp_all add: threads_step_def\<close>)
  with t show ?thesis by (intro exI [of _ t]) auto
qed

lemma exiting_ends:
  assumes ok: "threads_ok cfg wok n s" and i: "i < n" "points s ! i = Exiting"
  shows "\<exists>t. (threads_next cfg)\<^sup>*\<^sup>* s t \<and> points t = (points s)[i := Gone]"
proof -
  from destructor_runs [OF ok i, of Memcached_Tls_Key] obtain t where t: "(threads_next cfg)\<^sup>*\<^sup>* s t" "threads_ok cfg wok n t"
    "points t = points s" "(specific t ! i) Memcached_Tls_Key = None" by auto
  from destructor_runs [OF t(2) i(1), of Ldap_Key] t(3,4) i(2) obtain u where u: "(threads_next cfg)\<^sup>*\<^sup>* t u" "threads_ok cfg wok n u"
    "points u = points s" "(specific u ! i) Memcached_Tls_Key = None" "(specific u ! i) Ldap_Key = None" by auto
  have "threads_next cfg u (at_point i Gone u)"
    by (rule threads_next.intros [of "Runs i"])
      (use u i threads_okD(3) [OF ok] in \<open>simp_all add: threads_step_def thread_step_at_def exit_step_def pthread_getspecific_def\<close>)
  with t(1) u(1) have "(threads_next cfg)\<^sup>*\<^sup>* s (at_point i Gone u)" by (meson rtranclp.rtrancl_into_rtrancl rtranclp_trans)
  then show ?thesis using u(3) by (intro exI [of _ "at_point i Gone u"]) simp
qed

section \<open>The property\<close>

text \<open>
  Without the hypothesis \<open>opens_clean\<close> connections get lost: a handle whose servers are not
  accepted is neither stored nor closed.
\<close>

lemma refused_servers_leak:
  assumes "fst (memcached_create (mc_calls cfg) (ts_world s))" "\<And>v w. \<not> fst (memcached_server_push (mc_calls cfg) v w)"
  shows "\<exists>w. memcached_thread_init_at cfg i s =
    (-1, s\<lparr>ts_world := w, connections := (new_connection cfg (connections s), Memcached_St) # connections s\<rparr>)"
proof -
  obtain w where w: "memcached_create (mc_calls cfg) (ts_world s) = (True, w)" using assms(1) by (metis (full_types) prod.collapse)
  obtain w' where "(case mc_servers (mc_calls cfg) w of
      Some servers \<Rightarrow> memcached_server_push (mc_calls cfg) servers w
    | None \<Rightarrow> memcached_server_push (mc_calls cfg)
        (memcached_servers_parse (mc_calls cfg) WEBCONTROL_MEMCACHED_DEFAULT_SERVERS) w) = (False, w')"
    using assms(2) by (cases "mc_servers (mc_calls cfg) w") (simp_all, (metis (full_types) prod.collapse)+)
  with w show ?thesis by (auto simp: memcached_thread_init_at_def hp_malloc_def)
qed

text \<open>
  C11: every connection belongs to one thread and is closed exactly once.  For any allocators
  that return blocks not in use, plugins that keep the worker's contract, each of those with
  connections loaded once, and any number of threads, under every interleaving of threads that
  open their connections, serve requests, report their end and run the destructors, and of the
  event loop's callback for these reports: no step faults, so no connection is used that is
  not open, none is closed twice, and a report is freed once; what a thread has stored under
  a key is open, of the kind of that key, and stored nowhere else; unless a library refuses a
  connection that was already created, every open connection is stored by a thread that has
  not ended; a thread in \<open>pthread_exit\<close> can always get to its end; and a thread that has
  begun knows its own number.
\<close>

theorem connections_closed_exactly_once:
  assumes "malloc_contract (new_connection cfg)" "malloc_contract (new_message cfg)" "loaded_once (loaded_plugins cfg)"
    and "plugin_chain wok (map (plugin_of cfg w0) (loaded_plugins cfg))" "wok w"
    and "(threads_next cfg)\<^sup>*\<^sup>* (threads_init n w) s"
  shows "(\<forall>a e. actor_wf a \<longrightarrow> threads_step cfg a s \<noteq> Some (Inl e))
    \<and> (\<forall>i < n. \<forall>k a. k \<noteq> Current_Thread_Key \<longrightarrow> pthread_getspecific i k s = Some a \<longrightarrow>
         map_of (connections s) a = conn_kind k
         \<and> (\<forall>j < n. \<forall>k'. k' \<noteq> Current_Thread_Key \<longrightarrow> pthread_getspecific j k' s = Some a \<longrightarrow> j = i \<and> k' = k))
    \<and> (opens_clean cfg \<longrightarrow> (\<forall>a \<in> fst ` set (connections s). \<exists>i < n. points s ! i \<noteq> Gone \<and>
         (\<exists>k. k \<noteq> Current_Thread_Key \<and> pthread_getspecific i k s = Some a)))
    \<and> (\<forall>i < n. points s ! i = Exiting \<longrightarrow> (\<exists>t. (threads_next cfg)\<^sup>*\<^sup>* s t \<and> points t = (points s)[i := Gone]))
    \<and> (\<forall>i < n. points s ! i \<noteq> Created \<longrightarrow> current_thread_number (workers_array n) i s = Inr (of_nat i + 1))"
proof -
  have ok: "threads_ok cfg wok n s" using threads_ok_reachable [OF assms(6,5,1-4)] .
  note s = threads_okD [OF ok]
  have "threads_step cfg a s \<noteq> Some (Inl e)" if "actor_wf a" for a e
    using threads_step_keeps [OF ok assms(1-4) that] by blast
  moreover have stored: "stored_at s i k a \<longleftrightarrow> i < n \<and> k \<noteq> Current_Thread_Key \<and> pthread_getspecific i k s = Some a" for i k a
    using s(2) by (simp add: stored_at_def)
  moreover have "\<exists>i < n. points s ! i \<noteq> Gone \<and> (\<exists>k. k \<noteq> Current_Thread_Key \<and> pthread_getspecific i k s = Some a)"
    if clean: "opens_clean cfg" and a: "a \<in> fst ` set (connections s)" for a
  proof -
    obtain i k where i: "stored_at s i k a" using s(5) [OF clean] a unfolding none_lost_def by blast
    then have "points s ! i \<noteq> Gone" using s(6) [of i] by (auto simp: stored pthread_getspecific_def)
    with i show ?thesis unfolding stored by blast
  qed
  moreover have "current_thread_number (workers_array n) i s = Inr (of_nat i + 1)" if "i < n" "points s ! i \<noteq> Created" for i
  proof -
    have "(specific s ! i) Current_Thread_Key = Some i" using s(6) [OF that(1)] that(2) by (cases "points s ! i") auto
    then show ?thesis using that(1)
      by (simp add: current_thread_number_def current_thread_def pthread_getspecific_def workers_array_def)
  qed
  ultimately show ?thesis using exiting_ends [OF ok] s(4) unfolding connections_ok_def stored by (intro conjI) blast+
qed

subsection \<open>An instance\<close>

definition demo_setting :: "(demo, unit, unit, unit, unit) setting" where
  "demo_setting = \<lparr>mc_calls = demo_mc, ad_calls = demo_ad, new_connection = above_all, new_message = above_all,
     loaded_plugins = [Memcached_Loaded, Directory_Loaded, Other_Loaded (txtfile_plugin demo_acc demo_world)]\<rparr>"

lemma demo_chain:
  "plugin_chain (helper_ok demo_ad demo_acc d_cache) (map (plugin_of demo_setting demo_world) (loaded_plugins demo_setting))"
  using all_plugins_chain [OF demo_libraries demo_no_fault, of demo_world] by (simp add: demo_setting_def all_plugins_def)

definition demo_serving :: "demo thread_state" where
  "demo_serving = \<lparr>ts_world = demo_world, connections = [(1, Ldap_Con), (0, Memcached_St)],
     specific = [[Current_Thread_Key \<mapsto> 0, Memcached_Tls_Key \<mapsto> 0, Ldap_Key \<mapsto> 1]], points = [Serving],
     messages = [], signal_messages = [], in_event_loop = True\<rparr>"

lemma demo_serves: "(threads_next demo_setting)\<^sup>*\<^sup>* (threads_init 1 demo_world) demo_serving"
proof -
  have run: "(threads_next demo_setting)\<^sup>*\<^sup>* s t"
    if "threads_step demo_setting (Runs 0) s = Some (Inr u)" "(threads_next demo_setting)\<^sup>*\<^sup>* u t" for s t u
    using that threads_next.intros [of "Runs 0" demo_setting s u] by (simp add: converse_rtranclp_into_rtranclp)
  note defs = threads_step_def thread_step_at_def demo_setting_def threads_init_def begin_step_def at_point_def
    pthread_setspecific_def hp_malloc_def memcached_thread_init_at_def demo_mc_def ldap_open_at_def demo_ad_def
    LDAP_SUCCESS_def LDAP_RES_BIND_def txtfile_plugin_hooks
  have ad: "d_ad demo_world = good_config\<lparr>ad_uri := Some ''ldap://10.1.1.10''\<rparr>" by (simp add: demo_world_def)
  show ?thesis by ((rule run, (simp add: defs ad; fail))+) (simp add: demo_serving_def)
qed

theorem connections_closed_exactly_once_witness:
  "\<exists>s. (threads_next demo_setting)\<^sup>*\<^sup>* (threads_init 1 demo_world) s \<and> points s = [Serving]
     \<and> connections s = [(1, Ldap_Con), (0, Memcached_St)]
     \<and> (\<forall>a e. actor_wf a \<longrightarrow> threads_step demo_setting a s \<noteq> Some (Inl e))
     \<and> current_thread_number (workers_array 1) 0 s = Inr 1"
proof -
  have pick: "malloc_contract (new_connection demo_setting)" "malloc_contract (new_message demo_setting)"
    "loaded_once (loaded_plugins demo_setting)"
    by (simp_all add: demo_setting_def above_all_contract loaded_once_def)
  note c = connections_closed_exactly_once [OF pick demo_chain demo_helper_ok demo_serves]
  have "points demo_serving = [Serving]" "connections demo_serving = [(1, Ldap_Con), (0, Memcached_St)]"
    by (simp_all add: demo_serving_def)
  with c demo_serves show ?thesis by (intro exI [of _ demo_serving]) simp
qed

end
