(* ===== verification/Spec2Isabelle.thy ===== *)
theory Spec2Isabelle
  imports Prelude Buffer Text_Utils Queue_Monitor Line_Reader Worker Txtfile Memcached Shutdown Plugin_Loader Active_Directory
    Startup Worker_Pool Deployment Cache_Front
    Buffer_Getline Host_Sharing Teardown Running_Helper
    Whole_Life Graceful_Shutdown Job_Memory Job_Ownership Thread_Data Thread_Ownership
begin

text \<open>
  A verification development for squidHelper, a multi-threaded external ACL helper for the
  Squid proxy.  Squid writes lookups \<open>CHANNEL ADDRESS\<close> on the helper's standard input and
  reads one line \<open>CHANNEL OK\<close> or \<open>CHANNEL ERR log=...\<close> for each from its standard output.
  Paths below are relative to \<open>src/\<close>.

  The program and how its parts interact.
  \<^item> \<open>core/main.c\<close>, \<open>main\<close>: reads the options, loads the plugins, reads the configuration,
    starts the workers and runs a libev loop.
  \<^item> \<open>stdin_read_cb\<close> (in the loop) cuts what it reads into lines, carries an unfinished line
    over in \<open>tmp_line_buf\<close>, and enqueues each line as a job.
  \<^item> \<open>thirdparty/c-pthread-queue/queue.c\<close>: the bounded queue between the loop and the workers
    (256 jobs), and the one that carries the workers' last messages back (8 slots).
  \<^item> \<open>worker\<close> (one thread each): parses a job, asks the plugins in order until one decides,
    replies, and lets the plugins store the decision.
  \<^item> \<open>plugins/mod_txtfile\<close>, \<open>mod_memcached\<close>, \<open>mod_activedirectory\<close>: a hosts file, a cache
    for the decisions of other plugins, and an LDAP lookup of the host name.
  \<^item> \<open>core/webcontrol_buffer.c\<close>: the growing string buffer everything above uses.

  How C is modelled (\<open>Prelude\<close>).  An array of characters is a \<open>block\<close>, a list of cells that
  are indeterminate (\<open>None\<close>) until written; a \<open>char *\<close> into it is the rest of the list.  An
  operation that can go wrong returns \<open>fault + 'a\<close>: reading or writing outside a block, using
  an indeterminate cell, dereferencing a null pointer, a failed \<open>assert\<close>, a refused \<open>malloc\<close>,
  a bad format.  So that a definition returns \<open>Inr\<close> means that the C code is memory safe
  there.  \<open>size_t\<close> is \<open>64 word\<close>.  \<open>strlen\<close>, \<open>memcpy\<close>, \<open>strtok_r\<close>, \<open>sscanf\<close>, \<open>fgets\<close> and
  \<open>printf\<close> are modelled as far as the program uses them.

  Theories and what their lemmas show.
  \<^item> \<open>Buffer\<close> (\<open>webcontrol_buffer.c\<close>, lines 32 to 209): the record \<open>buffer\<close> and one definition
    per function.  Every sequence of operations does on the buffer what it does on strings.
    The locale \<open>text_builder\<close> states how names are built from pieces.
    \<open>Buffer_Getline\<close> has the one function nothing calls, with \<open>getline\<close> as a parameter.
  \<^item> \<open>Text_Utils\<close> (the same file, from line 223): \<open>strtoupper\<close>, \<open>strtolower\<close>,
    \<open>truncate_string\<close> on the caller's array, correct for separators of even length only.
  \<^item> \<open>Ring_Queue\<close>, \<open>Queue_Monitor\<close> (\<open>queue.c\<close>): the ring buffer as a bounded list (locale
    \<open>bounded_fifo\<close>), and the functions as a step relation over any number of threads with the
    mutex and both condition variables: order, mutual exclusion, no lost wake-up, no deadlock.
  \<^item> \<open>Line_Reader\<close> (\<open>stdin_read_cb\<close>): the callback on arbitrary reads; a text-level
    description it refines; independence of how the input is cut.
  \<^item> \<open>Request\<close> (\<open>webcontrol_base.h\<close>, \<open>webcontrol_request.h\<close>, \<open>webcontrol_plugin.h\<close>): requests,
    addresses, the plugin's table of hooks and what a hook must keep: without faults
    (\<open>hook_ok\<close>, \<open>plugin_ok\<close>), or with certain faults allowed (\<open>hook_guarded\<close>, \<open>plugin_guarded\<close>).
  \<^item> \<open>Worker\<close> (\<open>worker\<close>, \<open>send_response\<close>): one worker; the locale \<open>guarded_chain\<close> is its contract
    with the plugins, \<open>plugin_chain\<close> the case of plugins that never fault.
  \<^item> \<open>Worker_Pool\<close>: the same loop in steps, with any number of workers interleaved.
  \<^item> \<open>Shutdown\<close> (\<open>thread_sig_cb\<close>, \<open>sigint_cb\<close>, the end of \<open>worker\<close> and of \<open>main\<close>): a step
    relation with the counter \<open>active_workers\<close> and both queues: when the shutdown completes,
    and how it hangs (more than eight threads; a full queue without workers).
  \<^item> \<open>Plugin_Loader\<close> (\<open>webcontrol_plugin.c\<close>, \<open>init_config\<close>) and \<open>Startup\<close> (\<open>main\<close> up to the
    creation of the workers).  \<open>cfg_parse\<close> gives the core options only when the file was read,
    so that a file that cannot be read, or that lacks \<open>default_behavior\<close>, ends the start.
  \<^item> \<open>Txtfile\<close>, \<open>Memcached\<close>, \<open>Active_Directory\<close> (with \<open>webcontrol_netutil.c\<close>): every hook of the
    three plugins.
  \<^item> \<open>C_Heap\<close>: blocks that \<open>malloc\<close> returned, pointers to them and \<open>free\<close>; using or freeing a
    block that is not allocated is a fault.  \<open>Host_Chain\<close>: the hosts list with its \<open>next\<close>
    pointers on such a heap refines the list of \<open>Txtfile\<close>.  \<open>Host_Sharing\<close>: reloads and lookups
    by several threads, interleaved at every pointer, are atomic under the plugin's mutex: the
    answers are those of whole reloads of the very files that \<open>fopen\<close> delivered.
  \<^item> \<open>Teardown\<close> (the end of \<open>main\<close>, the \<open>plugin_free\<close> hooks, \<open>plugin_unload\<close>, \<open>buffer_free\<close>), from the
    state after \<open>cfg_parse\<close> on: every block is freed once when no memcached server is
    configured, and otherwise the servers, which the configuration hook has freed, are met again.
  \<^item> \<open>Deployment\<close>: the three plugins satisfy the worker's contract; the way from the bytes on
    stdin to the replies.  libldap promises nothing about the values of an entry, so that the
    comparison of the first value with TRUE may read past its end: \<open>directory_fault\<close>, the only
    fault the contract allows, and the theorems on the whole helper say where it strikes.
  \<^item> \<open>Running_Helper\<close>: the whole helper while it runs, with the event loop's callbacks, the
    bounded queue and any number of workers interleaved: every line of the input is answered
    exactly once, and the queue never deadlocks while workers live.  The field \<open>console\<close> is
    stdout: the replies, and the notices the main thread prints between them.
  \<^item> \<open>Whole_Life\<close>: the same from \<open>ev_loop\<close> to the last \<open>pthread_join\<close>, with the start and the
    end of each worker, the signals and the callbacks, one definition per handler
    (\<open>init_step\<close>, \<open>message_step\<close>, \<open>signalled_step\<close>, \<open>cancel_step\<close>, \<open>join_step\<close>, ...).  It
    refines the step relation of \<open>Shutdown\<close> (locale \<open>stuttering_simulation\<close>), whose theorems
    therefore hold of it.  \<open>Graceful_Shutdown\<close>: a shutdown loses nothing that was read.
    With at most eight threads every run after the signal ends, and every line that was
    read before it is answered exactly once.
  \<^item> \<open>Job_Memory\<close>, \<open>Job_Ownership\<close>: the pool of workers on a heap, where the queue carries
    pointers to lines and each worker allocates a request per line.  It refines
    \<open>Worker_Pool\<close>; lines and requests are freed exactly once, after their last use, and
    nothing is left when the workers have ended (locale \<open>framed\<close>: what a pointer means
    depends only on the blocks it owns).
  \<^item> \<open>Thread_Data\<close>, \<open>Thread_Ownership\<close>: what belongs to one thread, with all threads interleaved:
    its number (\<open>current_thread\<close>), the connections that \<open>mod_memcached\<close> and
    \<open>mod_activedirectory\<close> store as thread-specific data, the destructors of these keys, and
    the message a worker sends when it ends.  No connection is shared, used when it is not
    open or closed twice, and none outlives its thread.
  \<^item> \<open>Cache_Front\<close>: the locale \<open>address_backend\<close> (a backend that answers by address),
    interpreted by the hosts file; with the cache in front of it nothing changes for Squid,
    except that a reload does not reach decisions already cached.

  Bounds.  Texts in buffers are at most \<open>TEXT_LIMIT\<close> (\<open>2 ^ 60\<close>) characters, far above what
  fits into memory, so that the capacity computations stay below \<open>2 ^ 63\<close>; a read is less
  than the 4096 bytes of \<open>readbuf\<close>; a line of the hosts file is less than \<open>LINE_MAX\<close> (2048)
  where rules are concerned, while the parser itself is modelled for every length.  No
  definition uses fuel: loops are structural or end by a measure on the text or the heap
  that is left; the walk along the hosts list is a partial function that is proved to
  return.

  What is taken as a parameter: where \<open>malloc\<close> places a block, \<open>inet_pton\<close>, \<open>getnameinfo\<close>,
  \<open>getopt\<close>, \<open>getline\<close>, the file system, \<open>dlopen\<close> and \<open>dlsym\<close>, libconfuse, libmemcached, libldap.
  What is relied on of them is named (\<open>malloc_contract\<close>, \<open>getline_contract\<close>, \<open>mc_contract\<close>,
  \<open>ad_contract\<close>, \<open>libraries_ok\<close>, \<open>data_separate\<close>, \<open>mc_separate\<close>, \<open>mc_retains\<close>, \<open>services_up\<close>,
  \<open>opens_clean\<close>) and each is shown to hold of a concrete instance.  Outside
  \<open>Host_Sharing\<close> a hook is one step for the other threads: the hosts list is guarded by its
  mutex, which \<open>Host_Sharing\<close> shows to be enough, and the connections are thread-local, which is
  \<open>Thread_Ownership\<close>.

  Not modelled.  Logging (stderr only); the freeing of the temporary buffers of
  single functions (values in the model; ownership is modelled for the hosts list, for lines,
  requests, connections and messages, and for the end of \<open>main\<close>); creating the libev watchers and
  \<open>setnonblock\<close>, \<open>setvbuf\<close>, whose effect is the order of callbacks that is taken as arbitrary; \<open>print_entries\<close>, which nothing calls, and code disabled by \<open>#if 0\<close>;
  \<open>configure\<close> and the tests.
\<close>

end
